(* ===== verification/Prelude.thy ===== *)
theory Prelude
  imports Main "HOL-Library.Sublist"
begin

text \<open>
  Shared vocabulary of the development: \<open>std::string\<close> operations as functions on \<open>char list\<close>
  (a \<open>char\<close> is one byte), the C locale's character classes, decimal printing, unsigned 64-bit
  wrap-around on \<open>nat\<close>, and the exception values the DuckDB side of the code throws.
  The lemmas are generic facts about these operations that the component theories share.
\<close>

named_theorems str_simps \<open>simplification rules for the string operations of the standard library\<close>

section \<open>Exceptions\<close>

text \<open>The DuckDB exception classes the code throws, each carrying its message.\<close>

datatype exn =
    IOException string
  | PermissionException string
  | InvalidInputException string
  | NotImplementedException string

type_synonym 'a outcome = "exn + 'a"

section \<open>Characters\<close>

abbreviation slash :: char where "slash \<equiv> CHR ''/''"
abbreviation dquote :: char where "dquote \<equiv> CHR 0x22"
abbreviation squote :: char where "squote \<equiv> CHR 0x27"
abbreviation backslash :: char where "backslash \<equiv> CHR 0x5C"
abbreviation newline :: char where "newline \<equiv> CHR 0x0A"
abbreviation creturn :: char where "creturn \<equiv> CHR 0x0D"
abbreviation tab :: char where "tab \<equiv> CHR 0x09"
abbreviation unit_sep :: char where "unit_sep \<equiv> CHR 0x1F"

text \<open>\<open>unsigned char\<close> value of a byte, and its value as a (signed) \<open>char\<close> on x86-64.\<close>

definition byte_of :: "char \<Rightarrow> nat" where
  "byte_of c = of_char c"

definition signed_of :: "char \<Rightarrow> int" where
  "signed_of c = (if byte_of c < 128 then int (byte_of c) else int (byte_of c) - 256)"

text \<open>\<open><cctype>\<close> in the C locale.\<close>

definition is_digit :: "char \<Rightarrow> bool" where
  "is_digit c \<longleftrightarrow> 48 \<le> byte_of c \<and> byte_of c \<le> 57"

definition is_upper :: "char \<Rightarrow> bool" where
  "is_upper c \<longleftrightarrow> 65 \<le> byte_of c \<and> byte_of c \<le> 90"

definition is_lower :: "char \<Rightarrow> bool" where
  "is_lower c \<longleftrightarrow> 97 \<le> byte_of c \<and> byte_of c \<le> 122"

definition is_alnum :: "char \<Rightarrow> bool" where
  "is_alnum c \<longleftrightarrow> is_digit c \<or> is_upper c \<or> is_lower c"

definition is_space :: "char \<Rightarrow> bool" where
  "is_space c \<longleftrightarrow> byte_of c = 32 \<or> (9 \<le> byte_of c \<and> byte_of c \<le> 13)"

definition to_lower :: "char \<Rightarrow> char" where
  "to_lower c = (if is_upper c then char_of (byte_of c + 32) else c)"

section \<open>\<open>std::string\<close> operations\<close>

text \<open>\<open>s.compare(0, p.size(), p) == 0\<close>.\<close>

definition starts_with :: "'a list \<Rightarrow> 'a list \<Rightarrow> bool" where
  "starts_with s p \<longleftrightarrow> take (length p) s = p"

text \<open>\<open>s.find(p)\<close>: the index of the first occurrence, \<open>None\<close> for \<open>npos\<close>.\<close>

fun find_sub :: "'a list \<Rightarrow> 'a list \<Rightarrow> nat option" where
  "find_sub p [] = (if p = [] then Some 0 else None)"
| "find_sub p (x # xs) =
     (if starts_with (x # xs) p then Some 0 else map_option Suc (find_sub p xs))"

text \<open>\<open>s.find(c)\<close> for one character.\<close>

fun find_char :: "'a \<Rightarrow> 'a list \<Rightarrow> nat option" where
  "find_char c [] = None"
| "find_char c (x # xs) = (if x = c then Some 0 else map_option Suc (find_char c xs))"

text \<open>The trailing characters that satisfy \<open>P\<close> removed, as the \<open>pop_back\<close> loops do.\<close>

definition rstrip :: "('a \<Rightarrow> bool) \<Rightarrow> 'a list \<Rightarrow> 'a list" where
  "rstrip P s = rev (dropWhile P (rev s))"

text \<open>The pieces of a string joined by a separator character.\<close>

fun join :: "'a \<Rightarrow> 'a list list \<Rightarrow> 'a list" where
  "join c [] = []"
| "join c [x] = x"
| "join c (x # y # ys) = x @ c # join c (y # ys)"

text \<open>
  The pieces between the separators, empty ones kept: the loop that finds the next separator,
  pushes what is before it and goes on behind it.
\<close>

function split_at :: "'a \<Rightarrow> 'a list \<Rightarrow> 'a list list" where
  "split_at c s =
     (case dropWhile (\<lambda>x. x \<noteq> c) s of
        [] \<Rightarrow> [s]
      | _ # rest \<Rightarrow> takeWhile (\<lambda>x. x \<noteq> c) s # split_at c rest)"
  by pat_completeness auto
termination
proof (relation "measure (\<lambda>(c, s). length s)")
  fix c :: 'a and s x rest
  assume "dropWhile (\<lambda>x. x \<noteq> c) s = x # rest"
  then have "length (x # rest) \<le> length s" by (metis length_dropWhile_le)
  then show "((c, rest), c, s) \<in> measure (\<lambda>(c, s). length s)" by simp
qed simp

declare split_at.simps [simp del]

text \<open>Decimal digits of a natural number (\<open>std::to_string\<close>, \<open>ostream <<\<close>).\<close>

definition digit_char :: "nat \<Rightarrow> char" where
  "digit_char d = char_of (48 + d)"

fun decimal :: "nat \<Rightarrow> string" where
  "decimal n = (if n < 10 then [digit_char n] else decimal (n div 10) @ [digit_char (n mod 10)])"

declare decimal.simps [simp del]

definition decimal_int :: "int \<Rightarrow> string" where
  "decimal_int i = (if i < 0 then CHR ''-'' # decimal (nat (- i)) else decimal (nat i))"

section \<open>Unsigned 64-bit arithmetic on \<open>nat\<close>\<close>

definition u64_max :: nat where "u64_max = 2 ^ 64 - 1"

text \<open>\<open>uint64_t\<close> addition and subtraction, wrapping modulo $2^{64}$.\<close>

definition u64_add :: "nat \<Rightarrow> nat \<Rightarrow> nat" where
  "u64_add a b = (a + b) mod 2 ^ 64"

definition u64_sub :: "nat \<Rightarrow> nat \<Rightarrow> nat" where
  "u64_sub a b = nat ((int a - int b) mod 2 ^ 64)"

section \<open>Lemmas\<close>

lemma starts_with_iff: "starts_with s p \<longleftrightarrow> (\<exists>r. s = p @ r)"
  unfolding starts_with_def by (metis append_eq_conv_conj append_take_drop_id)

lemma starts_with_prefix: "starts_with s p \<longleftrightarrow> prefix p s"
  by (auto simp: starts_with_iff prefix_def)

lemma starts_with_append [simp, str_simps]: "starts_with (p @ r) p"
  by (simp add: starts_with_def)

lemma starts_with_Nil [simp, str_simps]: "starts_with s []"
  by (simp add: starts_with_def)

lemma starts_with_Nil_left [simp, str_simps]: "starts_with [] p \<longleftrightarrow> p = []"
  by (auto simp: starts_with_def)

lemma starts_with_Cons [simp, str_simps]:
  "starts_with (x # xs) (y # ys) \<longleftrightarrow> x = y \<and> starts_with xs ys"
  by (auto simp: starts_with_def)

lemma find_char_None [simp, str_simps]: "find_char c s = None \<longleftrightarrow> c \<notin> set s"
  by (induction s) auto

lemma find_char_Some:
  "find_char c s = Some i \<Longrightarrow> s = take i s @ c # drop (Suc i) s \<and> c \<notin> set (take i s) \<and> i < length s"
  by (induction s arbitrary: i) (auto split: if_splits)

lemma find_char_append_first: "c \<notin> set a \<Longrightarrow> find_char c (a @ c # b) = Some (length a)"
  by (induction a) auto

lemma find_sub_None: "find_sub p s = None \<longleftrightarrow> \<not> sublist p s"
proof (induction s)
  case Nil
  then show ?case by (auto simp: sublist_def)
next
  case (Cons x xs)
  then show ?case by (auto simp: sublist_Cons_right starts_with_prefix)
qed

lemma find_sub_Some:
  "find_sub p s = Some i \<Longrightarrow>
     starts_with (drop i s) p \<and> i \<le> length s \<and> (\<forall>j<i. \<not> starts_with (drop j s) p)"
proof (induction s arbitrary: i)
  case Nil
  then show ?case by (auto split: if_splits)
next
  case (Cons x xs)
  show ?case
  proof (cases "starts_with (x # xs) p")
    case True
    with Cons.prems show ?thesis by simp
  next
    case False
    with Cons.prems obtain k where k: "find_sub p xs = Some k" "i = Suc k" by auto
    have "\<not> starts_with (drop j (x # xs)) p" if "j < i" for j
      using that False Cons.IH [OF k(1)] k(2) by (cases j) auto
    with Cons.IH [OF k(1)] k(2) show ?thesis by auto
  qed
qed

lemma length_dropWhile_less: "x \<in> set xs \<Longrightarrow> P x \<Longrightarrow> P (hd xs) \<Longrightarrow> length (dropWhile P xs) < length xs"
  by (cases xs) (auto simp: length_dropWhile_le less_Suc_eq_le)

lemma join_append_Cons: "xs \<noteq> [] \<Longrightarrow> ys \<noteq> [] \<Longrightarrow> join c (xs @ ys) = join c xs @ c # join c ys"
proof (induction xs)
  case Nil
  then show ?case by simp
next
  case (Cons x xs)
  show ?case
  proof (cases xs)
    case Nil
    with Cons.prems show ?thesis by (cases ys) auto
  next
    case (Cons z zs)
    with Cons.IH Cons.prems show ?thesis by auto
  qed
qed

lemma join_Cons: "join c (x # ys) = (if ys = [] then x else x @ c # join c ys)"
  by (cases ys) auto

lemma set_join: "set (join c xs) \<subseteq> insert c (\<Union>x\<in>set xs. set x)"
  by (induction c xs rule: join.induct) auto

lemma split_at_append: "c \<notin> set a \<Longrightarrow> split_at c (a @ c # b) = a # split_at c b"
  by (subst split_at.simps) (auto simp: dropWhile_append takeWhile_append)

lemma split_at_none: "c \<notin> set a \<Longrightarrow> split_at c a = [a]"
proof -
  assume "c \<notin> set a"
  then have "dropWhile (\<lambda>x. x \<noteq> c) a = []" by auto
  then show ?thesis by (subst split_at.simps) (simp only: list.case)
qed

lemma split_at_not_Nil [simp]: "split_at c s \<noteq> []"
  by (subst split_at.simps) (auto split: list.splits)

lemma join_split_at [simp]: "join c (split_at c s) = s"
proof (induction c s rule: split_at.induct)
  case (1 c s)
  show ?case
  proof (cases "dropWhile (\<lambda>x. x \<noteq> c) s")
    case Nil
    then show ?thesis by (subst split_at.simps) (simp only: list.case join.simps)
  next
    case (Cons x rest)
    then have "x = c" using hd_dropWhile [of "\<lambda>x. x \<noteq> c" s] by simp
    from Cons have "split_at c s = takeWhile (\<lambda>x. x \<noteq> c) s # split_at c rest"
      by (subst split_at.simps) (simp only: list.case)
    with "1.IH" [OF Cons] have "join c (split_at c s) = takeWhile (\<lambda>x. x \<noteq> c) s @ c # rest"
      by (simp add: join_Cons)
    also have "\<dots> = s"
      using takeWhile_dropWhile_id [of "\<lambda>x. x \<noteq> c" s] unfolding Cons \<open>x = c\<close> .
    finally show ?thesis .
  qed
qed

lemma split_at_free: "x \<in> set (split_at c s) \<Longrightarrow> c \<notin> set x"
proof (induction c s rule: split_at.induct)
  case (1 c s)
  show ?case
  proof (cases "dropWhile (\<lambda>x. x \<noteq> c) s")
    case Nil
    with "1.prems" show ?thesis
      by (subst (asm) split_at.simps) (auto simp: dropWhile_eq_Nil_conv)
  next
    case (Cons y rest)
    with "1.prems" "1.IH" [OF Cons] show ?thesis
      by (subst (asm) split_at.simps) (auto dest: set_takeWhileD)
  qed
qed

lemma split_at_join: "xs \<noteq> [] \<Longrightarrow> \<forall>x\<in>set xs. c \<notin> set x \<Longrightarrow> split_at c (join c xs) = xs"
  by (induction c xs rule: join.induct) (auto simp: split_at_none split_at_append)

lemma split_at_append_any: "split_at c (a @ c # b) = split_at c a @ split_at c b"
proof (induction c a rule: split_at.induct)
  case (1 c a)
  show ?case
  proof (cases "c \<in> set a")
    case False
    then show ?thesis by (simp add: split_at_append split_at_none)
  next
    case True
    then obtain u v where a: "a = u @ c # v" and u: "c \<notin> set u" by (meson split_list_first)
    then have "dropWhile (\<lambda>x. x \<noteq> c) a = c # v" by (auto simp: dropWhile_append)
    with "1.IH" a u show ?thesis by (simp add: split_at_append)
  qed
qed

lemma join_inject:
  assumes "xs \<noteq> []" "ys \<noteq> []" "\<forall>x\<in>set xs. c \<notin> set x" "\<forall>y\<in>set ys. c \<notin> set y"
  shows "join c xs = join c ys \<longleftrightarrow> xs = ys"
  using assms by (metis split_at_join)

lemma rstrip_snoc [simp]: "rstrip P (s @ [x]) = (if P x then rstrip P s else s @ [x])"
  by (simp add: rstrip_def)

lemma rstrip_Nil [simp]: "rstrip P [] = []"
  by (simp add: rstrip_def)

lemma byte_of_less [simp]: "byte_of c < 256"
  unfolding byte_of_def by (metis of_char_mod_256 mod_less_divisor zero_less_numeral)

lemma byte_of_char_of [simp]: "n < 256 \<Longrightarrow> byte_of (char_of n) = n"
  by (simp add: byte_of_def)

lemma byte_of_inject: "byte_of a = byte_of b \<longleftrightarrow> a = b"
  by (simp add: byte_of_def)

lemma byte_of_digit_char [simp]: "d < 10 \<Longrightarrow> byte_of (digit_char d) = 48 + d"
  by (simp add: digit_char_def)

lemma is_digit_digit_char [simp]: "d < 10 \<Longrightarrow> is_digit (digit_char d)"
  by (simp add: is_digit_def)

lemma decimal_not_Nil [simp]: "decimal n \<noteq> []"
  by (subst decimal.simps) simp

lemma decimal_digits: "c \<in> set (decimal n) \<Longrightarrow> is_digit c"
proof (induction n rule: decimal.induct)
  case (1 n)
  then show ?case
    by (subst (asm) decimal.simps) (auto split: if_splits)
qed

text \<open>Reading the digits back, most significant first.\<close>

definition digits_value :: "string \<Rightarrow> nat" where
  "digits_value s = foldl (\<lambda>v c. v * 10 + (byte_of c - 48)) 0 s"

lemma digits_value_snoc [simp]: "digits_value (s @ [c]) = digits_value s * 10 + (byte_of c - 48)"
  by (simp add: digits_value_def)

lemma digits_value_decimal [simp]: "digits_value (decimal n) = n"
proof (induction n rule: decimal.induct)
  case (1 n)
  show ?case
  proof (cases "n < 10")
    case True
    then show ?thesis
      by (subst decimal.simps) (simp add: digits_value_def)
  next
    case False
    with "1.IH" show ?thesis by (subst decimal.simps) simp
  qed
qed

lemma decimal_inject: "decimal a = decimal b \<longleftrightarrow> a = b"
  by (metis digits_value_decimal)

section \<open>Texts that end at a delimiter\<close>

text \<open>A text of \<open>P\<close> characters ends where the first other character stands.\<close>

lemma delimited_inject:
  assumes "list_all P xs" "list_all P ys" "\<not> P c" "\<not> P d"
  shows "xs @ c # r = ys @ d # t \<longleftrightarrow> xs = ys \<and> c = d \<and> r = t"
proof
  assume e: "xs @ c # r = ys @ d # t"
  have "takeWhile P (xs @ c # r) = xs" "takeWhile P (ys @ d # t) = ys"
    using assms by (simp_all add: list_all_iff takeWhile_append2 takeWhile_tail)
  with e have "xs = ys" by simp
  with e show "xs = ys \<and> c = d \<and> r = t" by simp
qed simp

definition number_char :: "char \<Rightarrow> bool" where "number_char c \<longleftrightarrow> is_digit c \<or> c = CHR ''-''"

lemma decimal_int_chars: "list_all number_char (decimal_int i)"
  using decimal_digits by (auto simp: list_all_iff decimal_int_def number_char_def)

lemma decimal_int_inject: "decimal_int i = decimal_int j \<longleftrightarrow> i = j"
proof
  have no_sign: "CHR ''-'' \<notin> set (decimal n)" for n
    using decimal_digits [of "CHR ''-''" n] by (auto simp: is_digit_def byte_of_def)
  have neg: "decimal n \<noteq> CHR ''-'' # s" for n s using no_sign [of n] by (metis list.set_intros(1))
  assume "decimal_int i = decimal_int j"
  then show "i = j" using neg neg [THEN not_sym]
    by (auto simp: decimal_int_def decimal_inject split: if_splits)
qed simp

lemma decimal_int_delimited:
  assumes "\<not> number_char c" "\<not> number_char d"
  shows "decimal_int i @ c # r = decimal_int j @ d # t \<longleftrightarrow> i = j \<and> c = d \<and> r = t"
  using delimited_inject [OF decimal_int_chars decimal_int_chars assms] by (simp add: decimal_int_inject)

lemma no_number_char [simp]: "\<not> number_char CHR '',''" "\<not> number_char CHR 0x7D"
  by (simp_all add: number_char_def is_digit_def byte_of_def)

lemma length_decimal: "0 < k \<Longrightarrow> n < 10 ^ k \<Longrightarrow> length (decimal n) \<le> k"
proof (induction n arbitrary: k rule: decimal.induct)
  case (1 n)
  show ?case
  proof (cases "n < 10")
    case True
    with "1.prems" show ?thesis by (subst decimal.simps) simp
  next
    case False
    with "1.prems" obtain j where j: "k = Suc j" "0 < j"
      by (metis One_nat_def Suc_pred not_gr_zero power_0 power_one_right power_Suc0_right)
    with "1.prems" have "n div 10 < 10 ^ j" by (auto simp: div_less_iff_less_mult mult.commute)
    with "1.IH" [OF False] j False show ?thesis by (subst decimal.simps) simp
  qed
qed

lemma u64_add_exact: "a + b < 2 ^ 64 \<Longrightarrow> u64_add a b = a + b"
  by (simp add: u64_add_def)

lemma u64_sub_exact: "b \<le> a \<Longrightarrow> a < 2 ^ 64 \<Longrightarrow> u64_sub a b = a - b"
proof -
  assume "b \<le> a" "a < 2 ^ 64"
  then have "(int a - int b) mod 2 ^ 64 = int (a - b)" by (simp add: of_nat_diff)
  then show ?thesis by (simp add: u64_sub_def)
qed

lemma int_u64_sub: "int (u64_sub a b) = (int a - int b) mod 2 ^ 64"
  by (simp add: u64_sub_def)

lemma u64_sub_mod: "u64_sub ((a + b) mod 2 ^ 64) b = a mod 2 ^ 64"
proof -
  have "int (u64_sub ((a + b) mod 2 ^ 64) b) = int (a mod 2 ^ 64)"
    unfolding int_u64_sub by (simp only: of_nat_mod of_nat_add of_nat_power of_nat_numeral mod_simps) simp
  then show ?thesis by simp
qed

lemma u64_add_mod: "u64_add (a mod 2 ^ 64) b = (a + b) mod 2 ^ 64"
  by (simp add: u64_add_def mod_simps)

text \<open>The same with the numeral that the simplifier makes of $2^{64}$.\<close>

lemmas u64_mod_simps = u64_sub_mod [simplified] u64_add_mod [simplified]

end
