(* ===== verification/Uri.thy ===== *)
theory Uri
  imports Prelude
begin

text \<open>
  \<open>src/gdrive_uri.cpp\<close>: parsing of \<open>gdrive://\<close> addresses, their textual form, the
  recognition of the fallback-glob probe, and the segment-wise prefix test behind the
  \<open>gdrive_immutable_prefixes\<close> setting. Everything here is pure string processing.
\<close>

section \<open>Data\<close>

definition scheme :: string where "scheme = ''gdrive://''"

datatype uri_kind = PATH | FILE_ID

record gdrive_uri =
  kind :: uri_kind
  file_id :: string
  segments :: "string list"

section \<open>Operations\<close>

definition is_gdrive_uri :: "string \<Rightarrow> bool" where
  "is_gdrive_uri uri \<longleftrightarrow> starts_with uri scheme"

text \<open>Runs of slashes separate segments; empty pieces never arise.\<close>

function split_segments :: "string \<Rightarrow> string list" where
  "split_segments rest =
     (let r = dropWhile (\<lambda>c. c = slash) rest in
      if r = [] then []
      else takeWhile (\<lambda>c. c \<noteq> slash) r # split_segments (dropWhile (\<lambda>c. c \<noteq> slash) r))"
  by pat_completeness auto
termination
proof (relation "measure length")
  fix rest r :: string
  assume "r = dropWhile (\<lambda>c. c = slash) rest" "r \<noteq> []"
  then have "r \<noteq> []" "hd r \<noteq> slash" "length r \<le> length rest"
    using hd_dropWhile [of "\<lambda>c. c = slash" rest] length_dropWhile_le [of "\<lambda>c. c = slash" rest]
    by simp_all
  then show "(dropWhile (\<lambda>c. c \<noteq> slash) r, rest) \<in> measure length"
    using length_dropWhile_le [of "\<lambda>c. c \<noteq> slash" "tl r"] by (cases r) auto
qed simp

declare split_segments.simps [simp del]

definition to_string :: "gdrive_uri \<Rightarrow> string" where
  "to_string u =
     (if kind u = FILE_ID then scheme @ ''id:'' @ file_id u else scheme @ join slash (segments u))"

definition parent_path :: "gdrive_uri \<Rightarrow> string" where
  "parent_path u =
     (if kind u \<noteq> PATH \<or> segments u = [] then scheme else scheme @ join slash (butlast (segments u)))"

definition file_name :: "gdrive_uri \<Rightarrow> string" where
  "file_name u = (if kind u \<noteq> PATH \<or> segments u = [] then [] else last (segments u))"

text \<open>The loop over the segments that rejects \<open>.\<close> and \<open>..\<close>, with the message of the first one.\<close>

fun reject_dots :: "string \<Rightarrow> string list \<Rightarrow> string option" where
  "reject_dots uri [] = None"
| "reject_dots uri (seg # segs) =
     (if seg = ''.'' then
        Some (''gdrive:// path segment '' @ [dquote] @ ''.'' @ [dquote] @
              '' is rejected: Drive has no concept of the current directory (in '' @
              [dquote] @ uri @ [dquote] @ '')'')
      else if seg = ''..'' then
        Some (''gdrive:// path segment '' @ [dquote] @ ''..'' @ [dquote] @
              '' is rejected: Drive has no concept of parent traversal (in '' @
              [dquote] @ uri @ [dquote] @ '')'')
      else reject_dots uri segs)"

text \<open>\<open>Inl\<close> carries the \<open>error\<close> field of a failed parse, \<open>Inr\<close> the parsed URI.\<close>

definition parse_gdrive_uri :: "string \<Rightarrow> string + gdrive_uri" where
  "parse_gdrive_uri uri =
     (if \<not> is_gdrive_uri uri then Inl (''not a gdrive:// URI: '' @ [dquote] @ uri @ [dquote])
      else let rest = drop (length scheme) uri in
        if starts_with rest ''id:'' then
          (if slash \<in> set rest then
             Inl ''the gdrive://id: form addresses a single file and cannot have path segments''
           else let fid = drop 3 rest in
             if fid = [] then
               Inl (''gdrive:// id: form requires a non-empty file id, got '' @
                    [dquote] @ uri @ [dquote])
             else Inr \<lparr>kind = FILE_ID, file_id = fid, segments = []\<rparr>)
        else let segs = split_segments rest in
          (case reject_dots uri segs of
             Some err \<Rightarrow> Inl err
           | None \<Rightarrow> Inr \<lparr>kind = PATH, file_id = [], segments = segs\<rparr>))"

definition is_file_id_fallback_glob_probe :: "string \<Rightarrow> bool" where
  "is_file_id_fallback_glob_probe uri =
     (if \<not> is_gdrive_uri uri then False
      else let rest = drop (length scheme) uri in
        if \<not> starts_with rest ''id:'' then False
        else (case find_char slash rest of
            None \<Rightarrow> False
          | Some first_slash \<Rightarrow>
              if first_slash = 3 then False
              else let remainder = drop (first_slash + 1) rest in
                (case find_char slash remainder of
                   None \<Rightarrow> False
                 | Some second_slash \<Rightarrow>
                     let first_seg = take second_slash remainder;
                         second_seg = drop (second_slash + 1) remainder in
                     if first_seg \<noteq> ''**'' then False
                     else if second_seg = [] \<or> slash \<in> set second_seg then False
                     else length second_seg > 2 \<and> second_seg ! 0 = CHR ''*'' \<and> second_seg ! 1 = CHR ''.'')))"

definition trim_ascii :: "string \<Rightarrow> string" where
  "trim_ascii s =
     (let ws = (\<lambda>c. c \<in> {CHR '' '', tab, creturn, newline}) in rstrip ws (dropWhile ws s))"

function strip_trailing_slashes :: "string \<Rightarrow> string" where
  "strip_trailing_slashes p =
     (if length p > 1 \<and> last p = slash then strip_trailing_slashes (butlast p) else p)"
  by pat_completeness auto
termination by (relation "measure length") auto

declare strip_trailing_slashes.simps [simp del]

text \<open>One entry of the setting against one path: equality, or a match that ends at a slash.\<close>

definition entry_matches :: "string \<Rightarrow> string \<Rightarrow> bool" where
  "entry_matches path pre \<longleftrightarrow>
     pre \<noteq> [] \<and>
     (path = pre \<or>
      (length path > length pre \<and> starts_with path pre \<and> path ! length pre = slash))"

function prefixes_loop :: "string \<Rightarrow> string \<Rightarrow> bool" where
  "prefixes_loop path csv =
     (if entry_matches path (strip_trailing_slashes (trim_ascii (takeWhile (\<lambda>c. c \<noteq> CHR '','') csv)))
      then True
      else (case dropWhile (\<lambda>c. c \<noteq> CHR '','') csv of
              [] \<Rightarrow> False
            | _ # rest \<Rightarrow> prefixes_loop path rest))"
  by pat_completeness auto
termination
proof (relation "measure (\<lambda>(path, csv). length csv)")
  fix path csv rest :: string and x
  assume "dropWhile (\<lambda>c. c \<noteq> CHR '','') csv = x # rest"
  then have "length (x # rest) \<le> length csv" by (metis length_dropWhile_le)
  then show "((path, rest), path, csv) \<in> measure (\<lambda>(path, csv). length csv)" by simp
qed simp

declare prefixes_loop.simps [simp del]

definition path_matches_any_prefix :: "string \<Rightarrow> string \<Rightarrow> bool" where
  "path_matches_any_prefix path csv_prefixes =
     (if csv_prefixes = [] \<or> path = [] then False else prefixes_loop path csv_prefixes)"

section \<open>Well-formed URIs\<close>

text \<open>What the rest of the code may rely on about a parsed URI.\<close>

definition wf_segment :: "string \<Rightarrow> bool" where
  "wf_segment s \<longleftrightarrow> s \<noteq> [] \<and> slash \<notin> set s \<and> s \<noteq> ''.'' \<and> s \<noteq> ''..''"

definition wf_uri :: "gdrive_uri \<Rightarrow> bool" where
  "wf_uri u \<longleftrightarrow>
     (case kind u of
        FILE_ID \<Rightarrow> file_id u \<noteq> [] \<and> slash \<notin> set (file_id u) \<and> segments u = []
      | PATH \<Rightarrow> file_id u = [] \<and> (\<forall>s\<in>set (segments u). wf_segment s))"

text \<open>The form \<open>parse_gdrive_uri\<close> reads back: a path whose first segment is not an \<open>id:\<close> form.\<close>

definition canonical_uri :: "gdrive_uri \<Rightarrow> bool" where
  "canonical_uri u \<longleftrightarrow>
     wf_uri u \<and> (segments u \<noteq> [] \<longrightarrow> \<not> starts_with (hd (segments u)) ''id:'')"

lemma scheme_length [simp]: "length scheme = 9"
  by (simp add: scheme_def)

lemma drop_scheme [simp]: "drop 9 (scheme @ s) = s"
  by (metis append_eq_conv_conj scheme_length)

lemma scheme_not_Nil [simp]: "scheme \<noteq> []"
  by (simp add: scheme_def)

lemma is_gdrive_uri_iff: "is_gdrive_uri uri \<longleftrightarrow> (\<exists>rest. uri = scheme @ rest)"
  by (simp add: is_gdrive_uri_def starts_with_iff)

lemma is_gdrive_uri_scheme [simp]: "is_gdrive_uri (scheme @ rest)"
  by (simp add: is_gdrive_uri_def)

lemma split_segments_Nil [simp]: "split_segments [] = []"
  by (subst split_segments.simps) simp

lemma split_segments_slash [simp]: "split_segments (slash # r) = split_segments r"
  by (subst (1 2) split_segments.simps) simp

lemma split_segments_wf: "s \<in> set (split_segments r) \<Longrightarrow> s \<noteq> [] \<and> slash \<notin> set s"
proof (induction r rule: split_segments.induct)
  case (1 rest)
  define r where "r = dropWhile (\<lambda>c. c = slash) rest"
  show ?case
  proof (cases "r = []")
    case True
    with "1.prems" show ?thesis
      unfolding r_def by (subst (asm) split_segments.simps) (simp add: Let_def del: dropWhile_eq_Nil_conv)
  next
    case False
    then have hd: "hd r \<noteq> slash"
      using hd_dropWhile [of "\<lambda>c. c = slash" rest] unfolding r_def by blast
    from False "1.prems" have "s = takeWhile (\<lambda>c. c \<noteq> slash) r \<or>
        s \<in> set (split_segments (dropWhile (\<lambda>c. c \<noteq> slash) r))"
      by (subst (asm) split_segments.simps) (simp add: Let_def r_def [symmetric])
    then show ?thesis
    proof
      assume s: "s = takeWhile (\<lambda>c. c \<noteq> slash) r"
      with False hd have "s \<noteq> []" by (cases r) auto
      moreover from s have "slash \<notin> set s" by (auto dest: set_takeWhileD)
      ultimately show ?thesis by blast
    next
      assume "s \<in> set (split_segments (dropWhile (\<lambda>c. c \<noteq> slash) r))"
      with "1.IH" [OF r_def False] show ?thesis by blast
    qed
  qed
qed

lemma split_segments_Cons:
  assumes "x \<noteq> []" "slash \<notin> set x"
  shows "split_segments (x @ slash # r) = x # split_segments r"
proof -
  have "dropWhile (\<lambda>c. c = slash) (x @ slash # r) = x @ slash # r"
    using assms by (cases x) auto
  moreover have "takeWhile (\<lambda>c. c \<noteq> slash) (x @ slash # r) = x"
    and "dropWhile (\<lambda>c. c \<noteq> slash) (x @ slash # r) = slash # r"
    using assms by (auto simp: takeWhile_append dropWhile_append)
  ultimately show ?thesis
    by (subst split_segments.simps) (simp add: Let_def)
qed

lemma split_segments_single:
  assumes "x \<noteq> []" "slash \<notin> set x"
  shows "split_segments x = [x]"
proof -
  have "dropWhile (\<lambda>c. c = slash) x = x" using assms by (cases x) auto
  moreover have "takeWhile (\<lambda>c. c \<noteq> slash) x = x" and "dropWhile (\<lambda>c. c \<noteq> slash) x = []"
    using assms by (auto simp: takeWhile_eq_all_conv)
  ultimately show ?thesis
    using assms by (subst split_segments.simps) (simp add: Let_def del: dropWhile_eq_Nil_conv)
qed

lemma split_segments_join:
  "\<forall>s\<in>set xs. s \<noteq> [] \<and> slash \<notin> set s \<Longrightarrow> split_segments (join slash xs) = xs"
  by (induction slash xs rule: join.induct) (auto simp: split_segments_Cons split_segments_single)

lemma reject_dots_None: "reject_dots uri segs = None \<longleftrightarrow> ''.'' \<notin> set segs \<and> ''..'' \<notin> set segs"
  by (induction segs) auto

lemma starts_with_id_join:
  assumes "starts_with (join slash segs) ''id:''" "\<forall>s\<in>set segs. s \<noteq> [] \<and> slash \<notin> set s"
  shows "segs \<noteq> [] \<and> starts_with (hd segs) ''id:''"
proof (cases segs)
  case Nil
  with assms show ?thesis by simp
next
  case (Cons x xs)
  let ?y = "x @ (if xs = [] then [] else slash # join slash xs)"
  from assms Cons have y: "take 3 ?y = ''id:''"
    by (simp add: starts_with_def join_Cons eval_nat_numeral split: if_splits)
  have "3 \<le> length x"
  proof (rule ccontr)
    assume short: "\<not> 3 \<le> length x"
    have "length ?y \<ge> 3" using arg_cong [OF y, of length] by simp
    with short have "xs \<noteq> []" by auto
    with short have "slash \<in> set (take 3 ?y)" by (auto simp: take_Cons')
    with y show False by simp
  qed
  with y have "take 3 x = ''id:''" by simp
  with Cons show ?thesis by (simp add: starts_with_def eval_nat_numeral)
qed

lemma parse_path:
  "\<not> starts_with rest ''id:'' \<Longrightarrow> \<forall>s\<in>set (split_segments rest). s \<noteq> ''.'' \<and> s \<noteq> ''..'' \<Longrightarrow>
   parse_gdrive_uri (scheme @ rest) = Inr \<lparr>kind = PATH, file_id = [], segments = split_segments rest\<rparr>"
proof -
  assume id: "\<not> starts_with rest ''id:''" and "\<forall>s\<in>set (split_segments rest). s \<noteq> ''.'' \<and> s \<noteq> ''..''"
  then have "reject_dots (scheme @ rest) (split_segments rest) = None"
    unfolding reject_dots_None by blast
  with id show ?thesis by (simp add: parse_gdrive_uri_def Let_def)
qed

lemma parse_file_id:
  "slash \<notin> set i \<Longrightarrow> i \<noteq> [] \<Longrightarrow>
   parse_gdrive_uri (scheme @ ''id:'' @ i) = Inr \<lparr>kind = FILE_ID, file_id = i, segments = []\<rparr>"
  by (simp add: parse_gdrive_uri_def Let_def)

section \<open>Properties of parsing\<close>

lemma parse_wf:
  assumes "parse_gdrive_uri uri = Inr u"
  shows "wf_uri u"
proof (cases "starts_with (drop 9 uri) ''id:''")
  case True
  with assms show ?thesis
    using set_drop_subset_set_drop [of 9 12 uri]
    by (auto simp: parse_gdrive_uri_def wf_uri_def Let_def split: if_splits)
next
  case False
  with assms have u: "u = \<lparr>kind = PATH, file_id = [], segments = split_segments (drop 9 uri)\<rparr>"
    and "reject_dots uri (split_segments (drop 9 uri)) = None"
    by (auto simp: parse_gdrive_uri_def Let_def split: if_splits option.splits)
  then show ?thesis
    using split_segments_wf [of _ "drop 9 uri"]
    by (auto simp: wf_uri_def wf_segment_def reject_dots_None)
qed

text \<open>
  Whatever \<open>ParseGDriveUri\<close> accepts is well formed: an \<open>id:\<close> address has a
  non-empty id and no path segments, and every path segment is non-empty, slash-free and
  neither \<open>.\<close> nor \<open>..\<close>.\<close>

theorem parse_wf_uri:
  assumes "parse_gdrive_uri uri = Inr u"
  shows "wf_uri u"
  using assms by (rule parse_wf)

theorem parse_wf_uri_witness:
  "wf_uri \<lparr>kind = PATH, file_id = [], segments = [''a'', ''b'']\<rparr>"
  by (rule parse_wf_uri [of "''gdrive:///a//b/''"]) code_simp

text \<open>
  C40. Parsing the textual form of a canonical URI gives the URI back, so a path shown in an
  error message can be pasted back.\<close>

theorem parse_to_string:
  assumes "canonical_uri u"
  shows "parse_gdrive_uri (to_string u) = Inr u"
proof (cases "kind u")
  case FILE_ID
  with assms show ?thesis
    using parse_file_id [of "file_id u"]
    by (cases u) (auto simp: canonical_uri_def wf_uri_def to_string_def)
next
  case PATH
  with assms have segs: "\<forall>s\<in>set (segments u). s \<noteq> [] \<and> slash \<notin> set s"
    and dots: "\<forall>s\<in>set (segments u). s \<noteq> ''.'' \<and> s \<noteq> ''..''"
    and no_id: "segments u \<noteq> [] \<longrightarrow> \<not> starts_with (hd (segments u)) ''id:''"
    and fid: "file_id u = []"
    by (auto simp: canonical_uri_def wf_uri_def wf_segment_def)
  from segs have split: "split_segments (join slash (segments u)) = segments u"
    by (rule split_segments_join)
  have "\<not> starts_with (join slash (segments u)) ''id:''"
    using starts_with_id_join segs no_id by blast
  with parse_path [of "join slash (segments u)"] dots split PATH fid show ?thesis
    by (cases u) (simp add: to_string_def)
qed

theorem parse_to_string_witness:
  "parse_gdrive_uri (to_string \<lparr>kind = PATH, file_id = [], segments = [''a'', ''id:b'']\<rparr>)
     = Inr \<lparr>kind = PATH, file_id = [], segments = [''a'', ''id:b'']\<rparr>"
  by (rule parse_to_string) code_simp

text \<open>
  The round trip has one gap. A redundant slash before a leading \<open>id:\<close> segment is
  accepted as an ordinary path, but the textual form of that path is the \<open>id:\<close> form of a
  different file: printing and reparsing turns a folder path into a file id.\<close>

theorem leading_slash_changes_addressing:
  assumes "i \<noteq> []" "slash \<notin> set i"
  shows "\<exists>u. parse_gdrive_uri (scheme @ slash # ''id:'' @ i) = Inr u \<and> kind u = PATH \<and>
             segments u = [''id:'' @ i] \<and>
             parse_gdrive_uri (to_string u) = Inr \<lparr>kind = FILE_ID, file_id = i, segments = []\<rparr>"
proof -
  have "split_segments (slash # ''id:'' @ i) = [''id:'' @ i]"
    using split_segments_single [of "''id:'' @ i"] assms by simp
  then have "parse_gdrive_uri (scheme @ slash # ''id:'' @ i)
      = Inr \<lparr>kind = PATH, file_id = [], segments = [''id:'' @ i]\<rparr>"
    using parse_path [of "slash # ''id:'' @ i"] by simp
  then show ?thesis
    using parse_file_id [OF assms(2,1)] by (auto simp: to_string_def)
qed

theorem leading_slash_changes_addressing_witness:
  "\<exists>u. parse_gdrive_uri (scheme @ slash # ''id:'' @ ''X'') = Inr u \<and> kind u = PATH \<and>
       segments u = [''id:'' @ ''X''] \<and>
       parse_gdrive_uri (to_string u) = Inr \<lparr>kind = FILE_ID, file_id = ''X'', segments = []\<rparr>"
  by (rule leading_slash_changes_addressing) simp_all

section \<open>Properties of the fallback-glob probe\<close>

text \<open>
  The probe test accepts exactly the strings DuckDB core synthesises: an \<open>id:\<close> address,
  one \<open>**\<close> segment, and one \<open>*.ext\<close> segment with a non-empty extension.\<close>

theorem fallback_probe_shape:
  "is_file_id_fallback_glob_probe uri \<longleftrightarrow>
     (\<exists>i ext. uri = scheme @ ''id:'' @ i @ ''/**/*.'' @ ext \<and>
        i \<noteq> [] \<and> slash \<notin> set i \<and> ext \<noteq> [] \<and> slash \<notin> set ext)"
    (is "?probe \<longleftrightarrow> ?shape")
proof
  assume ?shape
  then obtain i ext where uri: "uri = scheme @ ''id:'' @ i @ ''/**/*.'' @ ext"
    and i: "i \<noteq> []" "slash \<notin> set i" and ext: "ext \<noteq> []" "slash \<notin> set ext" by blast
  have 1: "find_char slash (''id:'' @ i @ ''/**/*.'' @ ext) = Some (length (''id:'' @ i))"
    using find_char_append_first [of slash "''id:'' @ i" "''**/*.'' @ ext"] i by simp
  have 2: "find_char slash (''**/*.'' @ ext) = Some 2"
    using find_char_append_first [of slash "''**''" "''*.'' @ ext"] by simp
  have "drop (length (''id:'' @ i) + 1) (''id:'' @ i @ ''/**/*.'' @ ext) = ''**/*.'' @ ext" by simp
  with 1 2 i ext uri show ?probe
    by (simp add: is_file_id_fallback_glob_probe_def Let_def)
next
  assume probe: ?probe
  define rest where "rest = drop 9 uri"
  from probe obtain i where uri: "uri = scheme @ ''id:'' @ i"
    unfolding is_file_id_fallback_glob_probe_def Let_def is_gdrive_uri_iff
    by (auto simp: starts_with_iff split: if_splits)
  with probe obtain n m where n: "find_char slash (''id:'' @ i) = Some n" "n \<noteq> 3"
    and m: "find_char slash (drop (n + 1) (''id:'' @ i)) = Some m"
    and first: "take m (drop (n + 1) (''id:'' @ i)) = ''**''"
    and second: "slash \<notin> set (drop (m + 1) (drop (n + 1) (''id:'' @ i)))"
      "2 < length (drop (m + 1) (drop (n + 1) (''id:'' @ i)))"
      "drop (m + 1) (drop (n + 1) (''id:'' @ i)) ! 0 = CHR ''*''"
      "drop (m + 1) (drop (n + 1) (''id:'' @ i)) ! 1 = CHR ''.''"
    unfolding is_file_id_fallback_glob_probe_def Let_def
    by (auto split: if_splits option.splits)
  define t where "t = drop (m + 1) (drop (n + 1) (''id:'' @ i))"
  from second obtain ext where t: "t = ''*.'' @ ext" "ext \<noteq> []" "slash \<notin> set ext"
    unfolding t_def [symmetric] by (cases t; cases "tl t") auto
  from find_char_Some [OF m] first t(1)
  have rest: "drop (n + 1) (''id:'' @ i) = ''**'' @ slash # ''*.'' @ ext" unfolding t_def by simp
  from find_char_Some [OF n(1)] rest
  have i_eq: "''id:'' @ i = take n (''id:'' @ i) @ slash # ''**/*.'' @ ext"
    and no_slash: "slash \<notin> set (take n (''id:'' @ i))" by simp_all
  have "3 \<le> n"
  proof (rule ccontr)
    assume "\<not> 3 \<le> n"
    then have "n = 0 \<or> n = 1 \<or> n = 2" by linarith
    with n(1) find_char_Some [OF n(1)] show False by auto
  qed
  with n(2) obtain k where k: "n = 3 + k" "0 < k" by (metis add.right_neutral gr0I le_Suc_ex)
  then have i_split: "i = take k i @ ''/**/*.'' @ ext" using i_eq by (simp add: eval_nat_numeral)
  moreover have "slash \<notin> set (take k i)" using no_slash k by (simp add: eval_nat_numeral)
  moreover have "take k i \<noteq> []"
    using k i_split by (auto simp: take_eq_Nil)
  ultimately show ?shape
    using uri t by (metis append.assoc)
qed

text \<open>
  A probe is always one of the inputs \<open>ParseGDriveUri\<close> rejects, so answering \<open>no match\<close>
  for it never hides a file that could be addressed.\<close>

theorem fallback_probe_rejected_by_parse:
  assumes "is_file_id_fallback_glob_probe uri"
  shows "parse_gdrive_uri uri = Inl ''the gdrive://id: form addresses a single file and cannot have path segments''"
proof -
  from assms obtain i ext where uri: "uri = scheme @ ''id:'' @ i @ ''/**/*.'' @ ext"
    unfolding fallback_probe_shape by blast
  then show ?thesis by (simp add: parse_gdrive_uri_def Let_def)
qed

theorem fallback_probe_rejected_by_parse_witness:
  "parse_gdrive_uri ''gdrive://id:X/**/*.csv''
     = Inl ''the gdrive://id: form addresses a single file and cannot have path segments''"
  by (rule fallback_probe_rejected_by_parse) code_simp

section \<open>Properties of the immutable-prefix test\<close>

lemma entry_matches_iff:
  "entry_matches path pre \<longleftrightarrow> pre \<noteq> [] \<and> (path = pre \<or> (\<exists>r. path = pre @ slash # r))"
proof -
  have "(length path > length pre \<and> starts_with path pre \<and> path ! length pre = slash)
      \<longleftrightarrow> (\<exists>r. path = pre @ slash # r)"
  proof
    assume l: "length path > length pre \<and> starts_with path pre \<and> path ! length pre = slash"
    then have "path = take (length pre) path @ path ! length pre # drop (Suc (length pre)) path"
      by (intro id_take_nth_drop) simp
    with l show "\<exists>r. path = pre @ slash # r" by (metis starts_with_def)
  qed (auto simp: starts_with_def)
  then show ?thesis unfolding entry_matches_def by blast
qed

text \<open>The loop visits every comma-separated entry.\<close>

lemma prefixes_loop_iff:
  "prefixes_loop path csv \<longleftrightarrow>
     (\<exists>e\<in>set (split_at (CHR '','') csv). entry_matches path (strip_trailing_slashes (trim_ascii e)))"
proof (induction path csv rule: prefixes_loop.induct)
  case (1 path csv)
  let ?P = "\<lambda>e. entry_matches path (strip_trailing_slashes (trim_ascii e))"
  show ?case
  proof (cases "dropWhile (\<lambda>c. c \<noteq> CHR '','') csv")
    case Nil
    then have tw: "takeWhile (\<lambda>c. c \<noteq> CHR '','') csv = csv" by (simp add: takeWhile_eq_all_conv)
    have "split_at (CHR '','') csv = [csv]" by (subst split_at.simps) (simp only: Nil list.case)
    moreover have "prefixes_loop path csv = ?P csv"
      by (subst prefixes_loop.simps) (simp only: Nil tw list.case if_bool_eq_disj, blast)
    ultimately show ?thesis by simp
  next
    case (Cons x rest)
    have "split_at (CHR '','') csv = takeWhile (\<lambda>c. c \<noteq> CHR '','') csv # split_at (CHR '','') rest"
      by (subst split_at.simps) (simp only: Cons list.case)
    moreover have "prefixes_loop path csv = (?P (takeWhile (\<lambda>c. c \<noteq> CHR '','') csv) \<or> prefixes_loop path rest)"
      by (subst prefixes_loop.simps) (simp only: Cons list.case if_bool_eq_disj, blast)
    ultimately show ?thesis using "1.IH" [OF _ Cons] by auto
  qed
qed

lemma join_slash_prefix:
  assumes "es \<noteq> []" "ps \<noteq> []"
    and es: "\<forall>s\<in>set es. slash \<notin> set s" and ps: "\<forall>s\<in>set ps. slash \<notin> set s"
  shows "(join slash ps = join slash es \<or> (\<exists>r. join slash ps = join slash es @ slash # r)) \<longleftrightarrow> prefix es ps"
proof
  assume "join slash ps = join slash es \<or> (\<exists>r. join slash ps = join slash es @ slash # r)"
  then show "prefix es ps"
  proof
    assume "join slash ps = join slash es"
    with assms have "ps = es" using join_inject by metis
    then show ?thesis by simp
  next
    assume "\<exists>r. join slash ps = join slash es @ slash # r"
    then obtain r where "join slash ps = join slash es @ slash # r" ..
    then have "split_at slash (join slash ps) = split_at slash (join slash es) @ split_at slash r"
      by (simp add: split_at_append_any)
    with assms have "ps = es @ split_at slash r" by (simp add: split_at_join)
    then show ?thesis by simp
  qed
next
  assume "prefix es ps"
  then obtain r where r: "ps = es @ r" by (auto simp: prefix_def)
  show "join slash ps = join slash es \<or> (\<exists>r. join slash ps = join slash es @ slash # r)"
    using r assms(1) join_append_Cons [of es r slash] by (cases "r = []") auto
qed

lemma trim_ascii_id:
  "s \<noteq> [] \<Longrightarrow> hd s \<notin> {CHR '' '', tab, creturn, newline} \<Longrightarrow> last s \<notin> {CHR '' '', tab, creturn, newline} \<Longrightarrow>
   trim_ascii s = s"
proof -
  let ?ws = "\<lambda>c. c \<in> {CHR '' '', tab, creturn, newline}"
  assume "s \<noteq> []" and "\<not> ?ws (hd s)" and "\<not> ?ws (last s)"
  then have "dropWhile ?ws s = s" and "dropWhile ?ws (rev s) = rev s"
    by (simp_all add: dropWhile_eq_self_iff hd_rev)
  then show ?thesis by (simp add: trim_ascii_def rstrip_def Let_def)
qed

lemma strip_trailing_slashes_id: "last s \<noteq> slash \<Longrightarrow> strip_trailing_slashes s = s"
  by (subst strip_trailing_slashes.simps) simp

lemma strip_trailing_slashes_snoc:
  "s \<noteq> [] \<Longrightarrow> strip_trailing_slashes (s @ [slash]) = strip_trailing_slashes s"
  by (subst strip_trailing_slashes.simps) (cases s; simp)

lemma last_join: "xs \<noteq> [] \<Longrightarrow> \<forall>x\<in>set xs. x \<noteq> [] \<Longrightarrow> last (join c xs) = last (last xs) \<and> join c xs \<noteq> []"
  by (induction c xs rule: join.induct) auto

text \<open>
  The immutable-prefix test works on whole path segments: for one declared directory, with
  or without a trailing slash, it accepts exactly the paths whose segment list extends the
  directory's. A name that merely starts with the directory's characters is not covered.\<close>

theorem immutable_prefix_is_segmentwise:
  assumes "es \<noteq> []" "ps \<noteq> []" "\<forall>s\<in>set es \<union> set ps. wf_segment s"
    and "CHR '','' \<notin> set (join slash es)"
    and "last (last es) \<notin> {CHR '' '', tab, creturn, newline}"
    and that: "trailer = [] \<or> trailer = [slash]"
  shows "path_matches_any_prefix (scheme @ join slash ps) (scheme @ join slash es @ trailer) \<longleftrightarrow> prefix es ps"
proof -
  let ?e = "scheme @ join slash es"
  from assms(3) have wf: "\<forall>s\<in>set es \<union> set ps. s \<noteq> [] \<and> slash \<notin> set s" by (auto simp: wf_segment_def)
  from wf have "\<forall>s\<in>set es. s \<noteq> []" by simp
  from last_join [OF assms(1) this, of slash]
  have "last (join slash es) = last (last es)" "join slash es \<noteq> []" by simp_all
  moreover have "last es \<in> set es \<union> set ps" using assms(1) by simp
  with wf have "last es \<noteq> []" "slash \<notin> set (last es)" by blast+
  then have "last (last es) \<noteq> slash" by (metis last_in_set)
  ultimately have last: "last ?e = last (last es)" "last ?e \<noteq> slash" by simp_all
  have hd: "hd (?e @ trailer) = CHR ''g''" by (simp add: scheme_def)
  from that have trim: "trim_ascii (?e @ trailer) = ?e @ trailer"
    using last assms(5) hd by (intro trim_ascii_id) (auto simp: scheme_def)
  have "?e \<noteq> []" by (simp add: scheme_def)
  with that last have strip: "strip_trailing_slashes (?e @ trailer) = ?e"
    using strip_trailing_slashes_snoc [of ?e] strip_trailing_slashes_id [of ?e] by (metis append_Nil2)
  have "CHR '','' \<notin> set (?e @ trailer)" using assms(4) that by (auto simp: scheme_def)
  then have split: "split_at (CHR '','') (?e @ trailer) = [?e @ trailer]" by (rule split_at_none)
  have "path_matches_any_prefix (scheme @ join slash ps) (?e @ trailer)
      \<longleftrightarrow> entry_matches (scheme @ join slash ps) ?e"
    using trim strip split by (simp add: path_matches_any_prefix_def prefixes_loop_iff)
  also have "\<dots> \<longleftrightarrow> join slash ps = join slash es \<or> (\<exists>r. join slash ps = join slash es @ slash # r)"
    by (simp add: entry_matches_iff)
  also have "\<dots> \<longleftrightarrow> prefix es ps"
    using wf by (intro join_slash_prefix assms) auto
  finally show ?thesis by simp
qed

theorem immutable_prefix_is_segmentwise_witness:
  "path_matches_any_prefix (scheme @ join slash [''lake'', ''x'']) (scheme @ join slash [''lake''] @ [slash])
   \<and> \<not> path_matches_any_prefix (scheme @ join slash [''lakehouse'']) (scheme @ join slash [''lake''] @ [slash])"
  using immutable_prefix_is_segmentwise [of "[''lake'']" "[''lake'', ''x'']" "[slash]"]
    immutable_prefix_is_segmentwise [of "[''lake'']" "[''lakehouse'']" "[slash]"]
  by (simp add: wf_segment_def)

end
