(* ===== verification/Glob.thy ===== *)
theory Glob
  imports Prelude
begin

text \<open>
  \<open>src/gdrive_glob.cpp\<close>: glob matching over Drive names. The source walks strings by index;
  the model walks the sufs those indices denote. \<open>MatchSegment\<close> is the two-pointer
  backtracking matcher, \<open>MatchPath\<close> the memoised matcher over path segments, \<open>SplitGlob\<close> the
  split into a literal prefix and a pattern tail, \<open>ExpandBraces\<close> the capped brace expansion.
\<close>

section \<open>Character classes\<close>

text \<open>
  \<open>TryMatchClass\<close>, called behind the opening bracket: \<open>None\<close> when no closing bracket follows,
  otherwise whether \<open>c\<close> is a member and the pattern behind the closing bracket. Ranges compare
  \<open>char\<close> values, which are signed on the platforms the extension ships for.
\<close>

fun class_loop :: "char \<Rightarrow> bool \<Rightarrow> bool \<Rightarrow> string \<Rightarrow> (bool \<times> string) option" where
  "class_loop c found first [] = None"
| "class_loop c found first [x] =
     (if x = CHR '']'' \<and> \<not> first then Some (found, [])
      else class_loop c (found \<or> x = c) False [])"
| "class_loop c found first [x, y] =
     (if x = CHR '']'' \<and> \<not> first then Some (found, [y])
      else class_loop c (found \<or> x = c) False [y])"
| "class_loop c found first (x # y # z # rest) =
     (if x = CHR '']'' \<and> \<not> first then Some (found, y # z # rest)
      else if y = CHR ''-'' \<and> z \<noteq> CHR '']'' then
        class_loop c (found \<or> (signed_of x \<le> signed_of c \<and> signed_of c \<le> signed_of z)) False rest
      else class_loop c (found \<or> x = c) False (y # z # rest))"

definition try_match_class :: "string \<Rightarrow> char \<Rightarrow> (bool \<times> string) option" where
  "try_match_class body c =
     (case body of
        x # xs \<Rightarrow>
          if x = CHR ''!'' \<or> x = CHR ''^''
          then map_option (\<lambda>(found, rest). (\<not> found, rest)) (class_loop c False True xs)
          else class_loop c False True body
      | [] \<Rightarrow> class_loop c False True body)"

section \<open>One segment\<close>

text \<open>One pattern element other than a star against one character: whether it matches, and the
  pattern behind it (\<open>matched\<close> and \<open>next_pidx\<close> of the source).\<close>

definition match_one :: "string \<Rightarrow> char \<Rightarrow> bool \<times> string" where
  "match_one p x =
     (case p of
        [] \<Rightarrow> (False, [])
      | c # cs \<Rightarrow>
          if c = CHR ''?'' then (True, cs)
          else if c = CHR ''['' then
            (case try_match_class cs x of
               Some (m, rest) \<Rightarrow> (m, rest)
             | None \<Rightarrow> (x = CHR ''['', cs))
          else (x = c, cs))"

definition skip_stars :: "string \<Rightarrow> string" where
  "skip_stars p = dropWhile (\<lambda>c. c = CHR ''*'') p"

lemma class_loop_length: "class_loop c found first p = Some (m, rest) \<Longrightarrow> length rest < length p"
  by (induction c found first p rule: class_loop.induct) (auto split: if_splits)

lemma try_match_class_length: "try_match_class p x = Some (m, rest) \<Longrightarrow> length rest < length p"
  by (auto simp: try_match_class_def split: list.splits if_splits dest: class_loop_length)

lemma match_one_length: "length (snd (match_one p x)) \<le> length p"
  by (auto simp: match_one_def split: list.splits option.splits dest: try_match_class_length)

lemma skip_stars_length: "length (skip_stars p) \<le> length p"
  by (simp add: skip_stars_def length_dropWhile_le)

text \<open>
  The matcher's loop. \<open>star\<close> is the backtrack point: the pattern behind the last star and the
  name suffix it was last tried at (\<open>star_pidx\<close>, \<open>star_sidx\<close>; \<open>npos\<close> is \<open>None\<close>).
\<close>

function match_loop :: "string \<Rightarrow> string \<Rightarrow> (string \<times> string) option \<Rightarrow> bool" where
  "match_loop p [] star = (skip_stars p = [])"
| "match_loop p (x # s) star =
     (if p \<noteq> [] \<and> hd p = CHR ''*'' then
        (if skip_stars p = [] then True
         else match_loop (skip_stars p) (x # s) (Some (skip_stars p, x # s)))
      else if fst (match_one p x) then match_loop (snd (match_one p x)) s star
      else (case star of
              None \<Rightarrow> False
            | Some (sp, ss) \<Rightarrow> match_loop sp (tl ss) (Some (sp, tl ss))))"
  by pat_completeness auto
termination
proof (relation "measures
    [\<lambda>(p, s, star). max (length p) (case star of None \<Rightarrow> 0 | Some (sp, _) \<Rightarrow> length sp),
     \<lambda>(p, s, star). case star of None \<Rightarrow> 0 | Some (_, ss) \<Rightarrow> length ss,
     \<lambda>(p, s, star). length s]", goal_cases)
  case 1
  then show ?case by simp
next
  case (2 p x s star)
  then have "length (skip_stars p) < length p"
    by (cases p) (auto simp: skip_stars_def length_dropWhile_le less_Suc_eq_le)
  then show ?case by (auto simp: max_def)
next
  case (3 p x s star)
  then show ?case using match_one_length [of p x] by (auto split: option.splits)
next
  case (4 p x s star a sp ss)
  then show ?case by (cases ss) auto
qed

declare match_loop.simps(2) [simp del]

lemma match_loop_star:
  "p \<noteq> [] \<and> hd p = CHR ''*'' \<Longrightarrow> match_loop p (x # s) star =
     (skip_stars p = [] \<or> match_loop (skip_stars p) (x # s) (Some (skip_stars p, x # s)))"
  by (subst match_loop.simps(2)) simp

lemma match_loop_match:
  "\<not> (p \<noteq> [] \<and> hd p = CHR ''*'') \<Longrightarrow> fst (match_one p x) \<Longrightarrow>
   match_loop p (x # s) star = match_loop (snd (match_one p x)) s star"
  by (subst match_loop.simps(2)) (simp only: if_True if_False)

lemma match_loop_back:
  "\<not> (p \<noteq> [] \<and> hd p = CHR ''*'') \<Longrightarrow> \<not> fst (match_one p x) \<Longrightarrow>
   match_loop p (x # s) star =
     (case star of None \<Rightarrow> False | Some (sp, ss) \<Rightarrow> match_loop sp (tl ss) (Some (sp, tl ss)))"
  by (subst match_loop.simps(2)) (simp only: if_True if_False)

definition match_segment :: "string \<Rightarrow> string \<Rightarrow> bool" where
  "match_segment pattern name = match_loop pattern name None"

section \<open>Whole paths\<close>

definition split_on_slash :: "string \<Rightarrow> string list" where
  "split_on_slash s = split_at slash s"

text \<open>\<open>MatchSegments\<close> with its memo table: \<open>None\<close> is the table's \<open>-1\<close>. The disjunction and the
  conjunction are evaluated left to right and short-circuit, threading the table.\<close>

type_synonym memo = "nat \<times> nat \<Rightarrow> bool option"

function match_segments :: "string list \<Rightarrow> string list \<Rightarrow> nat \<Rightarrow> nat \<Rightarrow> memo \<Rightarrow> bool \<times> memo" where
  "match_segments pats path i j memo =
     (if i \<ge> length pats then (j = length path, memo)
      else (case memo (i, j) of
          Some cached \<Rightarrow> (cached, memo)
        | None \<Rightarrow>
            (let (result, memo') =
               (if pats ! i = ''**'' then
                  (let (r, m) = match_segments pats path (i + 1) j memo in
                   if r then (True, m)
                   else if j < length path then match_segments pats path i (j + 1) m
                   else (False, m))
                else if \<not> j < length path then (False, memo)
                else if match_segment (pats ! i) (path ! j)
                  then match_segments pats path (i + 1) (j + 1) memo
                else (False, memo))
             in (result, memo'((i, j) := Some result)))))"
  by pat_completeness auto
termination
  by (relation "measure (\<lambda>(pats, path, i, j, memo). (length pats - i) + (length path - j))") auto

declare match_segments.simps [simp del]

definition match_path :: "string \<Rightarrow> string \<Rightarrow> bool" where
  "match_path pattern path =
     fst (match_segments (split_on_slash pattern) (split_on_slash path) 0 0 (\<lambda>_. None))"

definition has_glob_metacharacters :: "string \<Rightarrow> bool" where
  "has_glob_metacharacters pattern \<longleftrightarrow>
     (\<exists>c\<in>set pattern. c = CHR ''*'' \<or> c = CHR ''?'' \<or> c = CHR ''['' \<or> c = CHR 0x7B)"

record glob_split =
  literal_prefix :: string
  pattern_tail :: string
  recursive :: bool

definition split_glob :: "string \<Rightarrow> glob_split" where
  "split_glob pattern =
     (if \<not> has_glob_metacharacters pattern then
        \<lparr>literal_prefix = pattern, pattern_tail = [], recursive = False\<rparr>
      else
        let segs = split_on_slash pattern;
            before = takeWhile (\<lambda>s. \<not> has_glob_metacharacters s) segs;
            after = dropWhile (\<lambda>s. \<not> has_glob_metacharacters s) segs;
            tail = join slash after in
        \<lparr>literal_prefix = join slash before, pattern_tail = tail,
         recursive = (length after > 1 \<or> find_sub ''**'' tail \<noteq> None)\<rparr>)"

section \<open>Brace expansion\<close>

definition max_brace_pattern_length :: nat where "max_brace_pattern_length = 4096"
definition max_brace_expansions :: nat where "max_brace_expansions = 1024"
definition max_brace_depth :: nat where "max_brace_depth = 64"

text \<open>The first top-level balanced group: the indices of its braces.\<close>

fun brace_scan :: "string \<Rightarrow> nat \<Rightarrow> nat \<Rightarrow> nat option \<Rightarrow> (nat \<times> nat) option" where
  "brace_scan [] i depth start = None"
| "brace_scan (c # cs) i depth start =
     (if c = CHR 0x7B then
        brace_scan cs (i + 1) (depth + 1) (if depth = 0 then Some i else start)
      else if c = CHR 0x7D \<and> depth > 0 then
        (case start of
           Some b \<Rightarrow> if depth = 1 then Some (b, i) else brace_scan cs (i + 1) (depth - 1) start
         | None \<Rightarrow> brace_scan cs (i + 1) (depth - 1) start)
      else brace_scan cs (i + 1) depth start)"

text \<open>The alternatives of a group: its content split at the commas outside nested groups.\<close>

fun split_alternatives :: "int \<Rightarrow> string \<Rightarrow> string \<Rightarrow> string list" where
  "split_alternatives depth cur [] = [cur]"
| "split_alternatives depth cur (c # cs) =
     (if c = CHR 0x7B then split_alternatives (depth + 1) (cur @ [c]) cs
      else if c = CHR 0x7D then split_alternatives (depth - 1) (cur @ [c]) cs
      else if c = CHR '','' \<and> depth = 0 then cur # split_alternatives depth [] cs
      else split_alternatives depth (cur @ [c]) cs)"

text \<open>Pushing strings against the shared budget; \<open>None\<close> once it is exhausted.\<close>

fun push_all :: "nat \<Rightarrow> string list \<Rightarrow> (nat \<times> string list) option" where
  "push_all budget [] = Some (budget, [])"
| "push_all 0 (x # xs) = None"
| "push_all (Suc budget) (x # xs) = map_option (apsnd (Cons x)) (push_all budget xs)"

lemma brace_scan_bounds:
  "brace_scan s i d st = Some (b, e) \<Longrightarrow> (\<forall>k. st = Some k \<longrightarrow> k < i) \<Longrightarrow> b < e \<and> e < i + length s"
  by (induction s i d st rule: brace_scan.induct)
    (fastforce split: if_splits option.splits)+

lemma split_alternatives_length:
  "sum_list (map (\<lambda>s. Suc (length s)) (split_alternatives d cur s)) = length cur + length s + 1"
  by (induction d cur s rule: split_alternatives.induct) auto

text \<open>\<open>ExpandBracesInto\<close>: the remaining budget and the strings pushed, \<open>None\<close> when a cap was hit.
  The suffix is expanded first, then each alternative, as in the source.\<close>

function (sequential)
  expand_into :: "string \<Rightarrow> nat \<Rightarrow> nat \<Rightarrow> (nat \<times> string list) option" and
  expand_alts :: "string \<Rightarrow> string list \<Rightarrow> string list \<Rightarrow> nat \<Rightarrow> nat \<Rightarrow> (nat \<times> string list) option"
where
  "expand_into pattern depth budget =
     (if depth > max_brace_depth then None
      else (case brace_scan pattern 0 0 None of
          None \<Rightarrow> push_all budget [pattern]
        | Some (b, e) \<Rightarrow>
            (case expand_into (drop (e + 1) pattern) (depth + 1) budget of
               None \<Rightarrow> None
             | Some (budget', sufs) \<Rightarrow>
                 expand_alts (take b pattern)
                   (split_alternatives 0 [] (take (e - b - 1) (drop (b + 1) pattern)))
                   sufs (depth + 1) budget')))"
| "expand_alts pre [] sufs depth budget = Some (budget, [])"
| "expand_alts pre (alt # alts) sufs depth budget =
     (case expand_into alt depth budget of
        None \<Rightarrow> None
      | Some (budget1, alt_expanded) \<Rightarrow>
          (case push_all budget1 [pre @ a @ s. a \<leftarrow> alt_expanded, s \<leftarrow> sufs] of
             None \<Rightarrow> None
           | Some (budget2, out) \<Rightarrow>
               (case expand_alts pre alts sufs depth budget2 of
                  None \<Rightarrow> None
                | Some (budget3, out') \<Rightarrow> Some (budget3, out @ out'))))"
  by pat_completeness auto
termination
proof (relation "measure (\<lambda>x. case x of Inl (p, _, _) \<Rightarrow> length p + 1
    | Inr (_, alts, _, _, _) \<Rightarrow> 1 + sum_list (map (\<lambda>s. Suc (length s)) alts))", goal_cases)
  case 1
  then show ?case by simp
next
  case (2 pattern depth budget x b e)
  then have "b < e \<and> e < length pattern" using brace_scan_bounds by force
  then show ?case by simp linarith
next
  case (3 pattern depth budget x b e y budget' sufs)
  then have "b < e \<and> e < length pattern" using brace_scan_bounds by force
  then have "e - b - 1 + 2 < length pattern + 1" by linarith
  then show ?case by (simp add: split_alternatives_length min_def)
qed auto

declare expand_into.simps [simp del]

definition expand_braces :: "string \<Rightarrow> string list" where
  "expand_braces pattern =
     (if length pattern > max_brace_pattern_length then []
      else (case expand_into pattern 0 max_brace_expansions of
              None \<Rightarrow> []
            | Some (_, result) \<Rightarrow> result))"

section \<open>The reference matcher\<close>

text \<open>The meaning of a segment pattern, by recursion on it: a star matches any run of characters.\<close>

function seg_ref :: "string \<Rightarrow> string \<Rightarrow> bool" where
  "seg_ref p s =
     (case p of
        [] \<Rightarrow> s = []
      | c # cs \<Rightarrow>
          if c = CHR ''*'' then
            (if seg_ref cs s then True else if s = [] then False else seg_ref p (tl s))
          else if s = [] then False
          else if fst (match_one p (hd s)) then seg_ref (snd (match_one p (hd s))) (tl s)
          else False)"
  by pat_completeness auto
termination
proof (relation "measure (\<lambda>(p, s). length p + length s)", goal_cases)
  case (3 p s c cs)
  then show ?case by (cases s) auto
next
  case (4 p s c cs)
  then show ?case using match_one_length [of p "hd s"] by (cases s) auto
qed auto

declare seg_ref.simps [simp del]

lemma seg_ref_Nil [simp]: "seg_ref [] s \<longleftrightarrow> s = []"
  by (subst seg_ref.simps) simp

lemma seg_ref_star: "seg_ref (CHR ''*'' # cs) s \<longleftrightarrow> seg_ref cs s \<or> (s \<noteq> [] \<and> seg_ref (CHR ''*'' # cs) (tl s))"
  by (subst seg_ref.simps) simp

definition plain :: "string \<Rightarrow> bool" where
  "plain p \<longleftrightarrow> p \<noteq> [] \<and> hd p \<noteq> CHR ''*''"

lemma seg_ref_plain:
  "plain p \<Longrightarrow> seg_ref p s \<longleftrightarrow> s \<noteq> [] \<and> fst (match_one p (hd s)) \<and> seg_ref (snd (match_one p (hd s))) (tl s)"
  by (subst seg_ref.simps) (auto simp: plain_def split: list.split)

lemma seg_ref_star_drop: "seg_ref (CHR ''*'' # cs) s \<longleftrightarrow> (\<exists>k\<le>length s. seg_ref cs (drop k s))"
proof (induction s)
  case Nil
  then show ?case by (subst seg_ref_star) simp
next
  case (Cons x s)
  have "(\<exists>k\<le>length (x # s). seg_ref cs (drop k (x # s)))
      \<longleftrightarrow> seg_ref cs (x # s) \<or> (\<exists>k\<le>length s. seg_ref cs (drop k s))"
    (is "?l \<longleftrightarrow> ?r")
  proof
    assume ?l
    then obtain k where "k \<le> length (x # s)" "seg_ref cs (drop k (x # s))" by blast
    then show ?r by (cases k) auto
  next
    assume ?r
    then show ?l
    proof
      assume "seg_ref cs (x # s)"
      then show ?l by (intro exI [of _ 0]) simp
    next
      assume "\<exists>k\<le>length s. seg_ref cs (drop k s)"
      then obtain k where "k \<le> length s" "seg_ref cs (drop k s)" by blast
      then show ?l by (intro exI [of _ "Suc k"]) simp
    qed
  qed
  with Cons show ?case by (subst seg_ref_star) simp
qed

lemma seg_ref_star_all: "seg_ref [CHR ''*''] s"
  unfolding seg_ref_star_drop by (rule exI [of _ "length s"]) simp

lemma seg_ref_star_tl: "seg_ref (CHR ''*'' # cs) (drop k s) \<Longrightarrow> seg_ref (CHR ''*'' # cs) s"
proof (induction k arbitrary: s)
  case (Suc k)
  then show ?case by (cases s) (auto simp: seg_ref_star [of cs "_ # _"])
qed simp

lemma seg_ref_star_star: "seg_ref (CHR ''*'' # CHR ''*'' # cs) s \<longleftrightarrow> seg_ref (CHR ''*'' # cs) s"
proof
  assume "seg_ref (CHR ''*'' # CHR ''*'' # cs) s"
  then show "seg_ref (CHR ''*'' # cs) s" using seg_ref_star_tl by (auto simp: seg_ref_star_drop [of "_ # _"])
next
  assume "seg_ref (CHR ''*'' # cs) s"
  then show "seg_ref (CHR ''*'' # CHR ''*'' # cs) s" by (subst seg_ref_star) simp
qed

lemma seg_ref_skip_stars:
  "p \<noteq> [] \<Longrightarrow> hd p = CHR ''*'' \<Longrightarrow> seg_ref p s \<longleftrightarrow> seg_ref (CHR ''*'' # skip_stars p) s"
proof (induction p)
  case (Cons c p)
  show ?case
  proof (cases "p \<noteq> [] \<and> hd p = CHR ''*''")
    case True
    then obtain q where q: "p = CHR ''*'' # q" by (cases p) auto
    with True Cons show ?thesis by (simp add: seg_ref_star_star skip_stars_def)
  next
    case False
    with Cons.prems show ?thesis by (cases p) (auto simp: skip_stars_def)
  qed
qed simp

lemma seg_ref_star_Nil: "seg_ref (CHR ''*'' # cs) [] \<longleftrightarrow> seg_ref cs []"
  by (subst seg_ref_star) simp

lemma seg_ref_empty: "seg_ref p [] \<longleftrightarrow> skip_stars p = []"
proof (induction p)
  case (Cons c p)
  then show ?case
    by (cases "c = CHR ''*''") (simp_all add: skip_stars_def seg_ref_star_Nil seg_ref_plain plain_def)
qed (simp add: skip_stars_def)

text \<open>Which pattern is left behind an element does not depend on the character it met.\<close>

lemma class_loop_next:
  "map_option snd (class_loop c f first p) = map_option snd (class_loop c' f' first p)"
proof (induction c f first p arbitrary: f' rule: class_loop.induct)
  case (4 c found first x y z rest)
  then show ?case by simp
qed auto

lemma try_match_class_next: "map_option snd (try_match_class p c) = map_option snd (try_match_class p c')"
  by (cases p)
    (auto simp: try_match_class_def option.map_comp comp_def split_beta intro: class_loop_next)

lemma match_one_next: "snd (match_one p a) = snd (match_one p b)"
proof (cases p)
  case (Cons c cs)
  have "map_option snd (try_match_class cs a) = map_option snd (try_match_class cs b)"
    by (rule try_match_class_next)
  with Cons show ?thesis by (auto simp: match_one_def split: option.splits)
qed (simp add: match_one_def)

text \<open>The pattern after \<open>n\<close> non-star elements.\<close>

definition pat_after :: "nat \<Rightarrow> string \<Rightarrow> string" where
  "pat_after n p = ((\<lambda>q. snd (match_one q (CHR 0x00))) ^^ n) p"

definition plain_run :: "nat \<Rightarrow> string \<Rightarrow> bool" where
  "plain_run n p \<longleftrightarrow> (\<forall>i<n. plain (pat_after i p))"

lemma pat_after_0 [simp]: "pat_after 0 p = p"
  by (simp add: pat_after_def)

lemma pat_after_Suc: "pat_after (Suc n) p = snd (match_one (pat_after n p) a)"
  using match_one_next by (simp add: pat_after_def)

lemma pat_after_Suc_left: "pat_after (Suc n) p = pat_after n (snd (match_one p a))"
  by (simp add: pat_after_def funpow_Suc_right match_one_next [of p "CHR 0x00" a] del: funpow.simps)

lemma seg_ref_run:
  "plain_run n p \<Longrightarrow> seg_ref p t \<Longrightarrow> n \<le> length t \<and> seg_ref (pat_after n p) (drop n t)"
proof (induction n)
  case (Suc n)
  then have IH: "n \<le> length t" "seg_ref (pat_after n p) (drop n t)" and pl: "plain (pat_after n p)"
    by (auto simp: plain_run_def)
  from IH(2) pl have ne: "drop n t \<noteq> []" and "seg_ref (snd (match_one (pat_after n p) (hd (drop n t)))) (tl (drop n t))"
    by (simp_all add: seg_ref_plain)
  then have "seg_ref (pat_after (Suc n) p) (drop (Suc n) t)"
    by (metis pat_after_Suc drop_Suc tl_drop)
  with ne show ?case by simp
qed simp

text \<open>
  The loop's invariant: the current position is reached from the backtrack point by \<open>n\<close> non-star
  elements, so the backtrack point is the only one that has to be remembered.
\<close>

definition star_inv :: "string \<Rightarrow> string \<Rightarrow> (string \<times> string) option \<Rightarrow> bool" where
  "star_inv p s star \<longleftrightarrow>
     (case star of None \<Rightarrow> True
      | Some (sp, ss) \<Rightarrow> \<exists>n\<le>length ss. s = drop n ss \<and> p = pat_after n sp \<and> plain_run n sp)"

definition star_retry :: "(string \<times> string) option \<Rightarrow> bool" where
  "star_retry star \<longleftrightarrow>
     (case star of None \<Rightarrow> False
      | Some (sp, ss) \<Rightarrow> \<exists>k\<ge>1. k \<le> length ss \<and> seg_ref sp (drop k ss))"

lemma star_retry_end:
  assumes "star_inv p [] star"
  shows "\<not> star_retry star"
proof (cases star)
  case (Some a)
  obtain sp ss where a: "a = (sp, ss)" by force
  with assms Some have run: "plain_run (length ss) sp" by (auto simp: star_inv_def)
  have "\<not> seg_ref sp (drop k ss)" if "1 \<le> k" "k \<le> length ss" for k
    using seg_ref_run [OF run, of "drop k ss"] that by auto
  with Some a show ?thesis by (auto simp: star_retry_def)
qed (simp add: star_retry_def)

text \<open>A later star makes every retry of an earlier one redundant.\<close>

lemma star_retry_subsumed:
  assumes inv: "star_inv p s star" and retry: "star_retry star" and p: "p = CHR ''*'' # cs"
  shows "seg_ref p s"
proof -
  from retry obtain sp ss k where star: "star = Some (sp, ss)" and k: "1 \<le> k" "k \<le> length ss"
    and m: "seg_ref sp (drop k ss)"
    by (auto simp: star_retry_def split: option.splits)
  from inv star obtain n where n: "s = drop n ss" "p = pat_after n sp" "plain_run n sp"
    by (auto simp: star_inv_def)
  from seg_ref_run [OF n(3) m] have "seg_ref p (drop k s)"
    using n by (simp add: add.commute)
  with p show ?thesis using seg_ref_star_tl by metis
qed

lemma star_inv_fresh: "star_inv p s (Some (p, s))"
  by (auto simp: star_inv_def plain_run_def intro: exI [of _ 0])

lemma star_inv_next:
  assumes "star_inv p (x # s) star" "plain p"
  shows "star_inv (snd (match_one p x)) s star"
proof (cases star)
  case (Some a)
  obtain sp ss where a: "a = (sp, ss)" by force
  with assms(1) Some obtain n where n: "n \<le> length ss" "x # s = drop n ss" "p = pat_after n sp" "plain_run n sp"
    by (auto simp: star_inv_def)
  from n(2) have "Suc n \<le> length ss" by (cases "n < length ss") auto
  moreover have "s = drop (Suc n) ss" using arg_cong [OF n(2), of tl] by (simp add: drop_Suc tl_drop)
  moreover have "snd (match_one p x) = pat_after (Suc n) sp" using n(3) pat_after_Suc by simp
  moreover have "plain_run (Suc n) sp" using n(3,4) assms(2) by (auto simp: plain_run_def less_Suc_eq)
  ultimately show ?thesis using Some a by (auto simp: star_inv_def)
qed (simp add: star_inv_def)

text \<open>A star takes nothing, or one of the retries is the right one.\<close>

lemma star_retry_fresh:
  "seg_ref p s \<or> star_retry (Some (p, s)) \<longleftrightarrow> (\<exists>k\<le>length s. seg_ref p (drop k s))"
  unfolding star_retry_def option.case prod.case by (metis (no_types, lifting) drop0 le0 less_one not_le)

lemma star_retry_again:
  "seg_ref p s \<or> star_retry (Some (p, s)) \<longleftrightarrow> star_retry (Some (p, y # s))"
proof -
  have "(\<exists>k\<le>length s. seg_ref p (drop k s)) \<longleftrightarrow>
      (\<exists>k\<ge>1. k \<le> length (y # s) \<and> seg_ref p (drop k (y # s)))" (is "?l \<longleftrightarrow> ?r")
  proof
    assume ?l
    then obtain k where "k \<le> length s" "seg_ref p (drop k s)" by blast
    then show ?r by (intro exI [of _ "Suc k"]) simp
  next
    assume ?r
    then obtain k where "1 \<le> k" "k \<le> length (y # s)" "seg_ref p (drop k (y # s))" by blast
    then show ?l by (intro exI [of _ "k - 1"]) (cases k; simp)
  qed
  then show ?thesis unfolding star_retry_fresh by (simp add: star_retry_def)
qed

lemma seg_ref_at_star:
  assumes "p \<noteq> [] \<and> hd p = CHR ''*''"
  shows "seg_ref p s \<longleftrightarrow> seg_ref (skip_stars p) s \<or> star_retry (Some (skip_stars p, s))"
  unfolding star_retry_fresh using seg_ref_skip_stars [of p s] assms unfolding seg_ref_star_drop by blast

lemma match_loop_ref:
  "star_inv p s star \<Longrightarrow> match_loop p s star \<longleftrightarrow> seg_ref p s \<or> star_retry star"
proof (induction p s star rule: match_loop.induct)
  case (1 p star)
  then show ?case using star_retry_end by (auto simp: seg_ref_empty)
next
  case (2 p x s star)
  show ?case
  proof (cases "p \<noteq> [] \<and> hd p = CHR ''*''")
    case star: True
    then obtain cs where p: "p = CHR ''*'' # cs" by (cases p) auto
    show ?thesis
    proof (cases "skip_stars p = []")
      case True
      then have "seg_ref p (x # s)" unfolding seg_ref_at_star [OF star] star_retry_fresh
        by (intro exI [of _ "length (x # s)"]) simp
      with True star show ?thesis by (simp add: match_loop_star)
    next
      case False
      from "2.IH"(1) [OF star False star_inv_fresh] match_loop_star [OF star] False seg_ref_at_star [OF star]
        star_retry_subsumed [OF "2.prems" _ p]
      show ?thesis by auto
    qed
  next
    case not_star: False
    show ?thesis
    proof (cases "fst (match_one p x)")
      case True
      then have "p \<noteq> []" by (auto simp: match_one_def)
      with not_star have pl: "plain p" by (simp add: plain_def)
      from "2.IH"(2) [OF not_star True star_inv_next [OF "2.prems" pl]] seg_ref_plain [OF pl, of "x # s"] True
      show ?thesis using match_loop_match [OF not_star True] by simp
    next
      case False
      then have no_ref: "\<not> seg_ref p (x # s)"
        using not_star by (cases "p = []") (auto simp: seg_ref_plain plain_def)
      show ?thesis
      proof (cases star)
        case None
        with match_loop_back [OF not_star False] no_ref show ?thesis by (simp add: star_retry_def)
      next
        case (Some a)
        obtain sp ss where a: "a = (sp, ss)" by force
        with Some "2.prems" have "ss \<noteq> []" by (auto simp: star_inv_def)
        then obtain y ys where ss: "ss = y # ys" by (cases ss) auto
        from "2.IH"(3) [OF not_star False Some a [symmetric] star_inv_fresh] star_retry_again [of sp ys y]
        show ?thesis using match_loop_back [OF not_star False] Some a ss no_ref by simp
      qed
    qed
  qed
qed

text \<open>
  The two-pointer matcher, which remembers only the last star, decides exactly the
  declarative meaning of the pattern: backtracking to the last star loses no match and invents
  none. (Its totality, the function being defined by a terminating recursion, is the promise that
  an odd pattern never aborts or hangs a folder scan.)\<close>

theorem match_segment_correct: "match_segment pattern name \<longleftrightarrow> seg_ref pattern name"
  unfolding match_segment_def by (simp add: match_loop_ref star_inv_def star_retry_def)

text \<open>The form of the theorem that other proofs use.\<close>

lemma match_segment_ref: "match_segment = seg_ref"
  by (intro ext) (simp add: match_segment_def match_loop_ref star_inv_def star_retry_def)

section \<open>Matching whole paths\<close>

text \<open>The meaning of a path pattern: \<open>**\<close> stands for any number of segments.\<close>

fun path_ref :: "string list \<Rightarrow> string list \<Rightarrow> bool" where
  "path_ref [] ss = (ss = [])"
| "path_ref (p # ps) [] = (p = ''**'' \<and> path_ref ps [])"
| "path_ref (p # ps) (s # ss) =
     (if p = ''**'' then path_ref ps (s # ss) \<or> path_ref (p # ps) ss
      else seg_ref p s \<and> path_ref ps ss)"

definition memo_ok :: "string list \<Rightarrow> string list \<Rightarrow> memo \<Rightarrow> bool" where
  "memo_ok pats path memo \<longleftrightarrow> (\<forall>i j r. memo (i, j) = Some r \<longrightarrow> r = path_ref (drop i pats) (drop j path))"

lemma memo_ok_update:
  "memo_ok pats path m \<Longrightarrow> r = path_ref (drop i pats) (drop j path) \<Longrightarrow>
   memo_ok pats path (m((i, j) := Some r))"
  by (auto simp: memo_ok_def)

lemma path_ref_here:
  assumes "i < length pats" "j \<le> length path"
  shows "path_ref (drop i pats) (drop j path) \<longleftrightarrow>
    (if pats ! i = ''**''
     then path_ref (drop (i + 1) pats) (drop j path) \<or>
       (j < length path \<and> path_ref (drop i pats) (drop (j + 1) path))
     else j < length path \<and> match_segment (pats ! i) (path ! j) \<and>
       path_ref (drop (i + 1) pats) (drop (j + 1) path))"
proof -
  have pats: "drop i pats = pats ! i # drop (i + 1) pats" using assms(1) by (simp add: Cons_nth_drop_Suc)
  show ?thesis
  proof (cases "j < length path")
    case True
    then have "drop j path = path ! j # drop (j + 1) path" by (simp add: Cons_nth_drop_Suc)
    with pats True show ?thesis by (simp add: match_segment_ref)
  next
    case False
    with assms(2) have "drop j path = []" by simp
    with pats False show ?thesis by simp
  qed
qed

definition memo_right :: "string list \<Rightarrow> string list \<Rightarrow> nat \<Rightarrow> nat \<Rightarrow> bool \<times> memo \<Rightarrow> bool" where
  "memo_right pats path i j rm \<longleftrightarrow>
     fst rm = path_ref (drop i pats) (drop j path) \<and> memo_ok pats path (snd rm)"

lemma memo_right_store:
  assumes "memo_right pats path i j body"
  shows "memo_right pats path i j (let (result, memo') = body in (result, memo'((i, j) := Some result)))"
  using assms by (cases body) (auto simp: memo_right_def memo_ok_update)

lemma match_segments_right:
  assumes "memo_ok pats path memo" "j \<le> length path"
  shows "memo_right pats path i j (match_segments pats path i j memo)"
  using assms
proof (induction pats path i j memo rule: match_segments.induct)
  case (1 pats path i j memo)
  note here = path_ref_here [of i pats, OF _ "1.prems"(2)]
  show ?case
  proof (cases "i \<ge> length pats \<or> memo (i, j) \<noteq> None")
    case True
    have "memo (i, j) = Some r \<Longrightarrow> r = path_ref (drop i pats) (drop j path)" for r
      using "1.prems"(1) by (simp add: memo_ok_def)
    with True "1.prems" show ?thesis by (subst match_segments.simps) (auto simp: memo_right_def simp del: path_ref.simps(3))
  next
    case False
    then have i: "\<not> i \<ge> length pats" and None: "memo (i, j) = None" by auto
    define body where "body =
      (if pats ! i = ''**'' then
         (let (r, m) = match_segments pats path (i + 1) j memo in
          if r then (True, m)
          else if j < length path then match_segments pats path i (j + 1) m else (False, m))
       else if \<not> j < length path then (False, memo)
       else if match_segment (pats ! i) (path ! j)
         then match_segments pats path (i + 1) (j + 1) memo
       else (False, memo))"
    have "memo_right pats path i j body"
    proof (cases "pats ! i = ''**''")
      case dbl: True
      obtain r m where rm: "match_segments pats path (i + 1) j memo = (r, m)" by force
      from "1.IH"(1) [OF i None dbl "1.prems"] rm
      have r: "r = path_ref (drop (i + 1) pats) (drop j path)" and m: "memo_ok pats path m"
        by (auto simp: memo_right_def)
      show ?thesis
      proof (cases "\<not> r \<and> j < length path")
        case True
        with "1.IH"(2) [OF i None dbl rm [symmetric] refl _ _ m] have
          "memo_right pats path i (j + 1) (match_segments pats path i (j + 1) m)" by simp
        with dbl rm r i True here show ?thesis by (simp add: memo_right_def body_def)
      qed (use dbl rm m r i here in \<open>auto simp: memo_right_def body_def\<close>)
    next
      case sgl: False
      from "1.IH"(3) [OF i None sgl] "1.prems"(1) sgl i here show ?thesis
        by (auto simp: memo_right_def body_def)
    qed
    then have "memo_right pats path i j
        (let (result, memo') = body in (result, memo'((i, j) := Some result)))"
      by (rule memo_right_store)
    moreover have "match_segments pats path i j memo =
        (let (result, memo') = body in (result, memo'((i, j) := Some result)))"
      using i None unfolding body_def by (subst match_segments.simps) simp
    ultimately show ?thesis by (simp only:)
  qed
qed

lemma match_segments_ref:
  assumes "memo_ok pats path memo" "j \<le> length path"
  shows "fst (match_segments pats path i j memo) = path_ref (drop i pats) (drop j path) \<and>
         memo_ok pats path (snd (match_segments pats path i j memo))"
  using match_segments_right [OF assms] by (simp add: memo_right_def)

text \<open>
  C38. The memoised path matcher decides the declarative meaning of the pattern over the path's
  segments: the memo table never changes an answer.\<close>

theorem match_path_correct:
  "match_path pattern path \<longleftrightarrow> path_ref (split_on_slash pattern) (split_on_slash path)"
  using match_segments_ref [of "split_on_slash pattern" "split_on_slash path" "\<lambda>_. None" 0 0]
  by (simp add: match_path_def memo_ok_def)

section \<open>Splitting a pattern for listing\<close>

lemma match_one_literal:
  "c \<notin> {CHR ''*'', CHR ''?'', CHR ''[''} \<Longrightarrow> match_one (c # cs) x = (x = c, cs)"
  by (auto simp: match_one_def)

lemma seg_ref_literal:
  "\<not> has_glob_metacharacters p \<Longrightarrow> seg_ref p s \<longleftrightarrow> s = p"
proof (induction p arbitrary: s)
  case (Cons c p)
  then have c: "c \<notin> {CHR ''*'', CHR ''?'', CHR ''[''}" and p: "\<not> has_glob_metacharacters p"
    by (auto simp: has_glob_metacharacters_def)
  from c have "plain (c # p)" by (simp add: plain_def)
  from seg_ref_plain [OF this, of s] match_one_literal [OF c] Cons.IH [OF p] show ?case
    by (cases s) auto
qed simp

lemma double_star_glob [simp]: "has_glob_metacharacters ''**''"
  by (simp add: has_glob_metacharacters_def)

lemma path_ref_literal_prefix:
  "\<forall>b\<in>set before. \<not> has_glob_metacharacters b \<Longrightarrow>
   path_ref (before @ after) ss \<longleftrightarrow> (\<exists>rest. ss = before @ rest \<and> path_ref after rest)"
proof (induction before arbitrary: ss)
  case (Cons b before)
  then have "b \<noteq> ''**''" by (metis double_star_glob list.set_intros(1))
  with Cons show ?case by (cases ss) (auto simp: seg_ref_literal)
qed simp

lemma has_glob_append [simp]:
  "has_glob_metacharacters (a @ b) \<longleftrightarrow> has_glob_metacharacters a \<or> has_glob_metacharacters b"
  by (simp add: has_glob_metacharacters_def bex_Un)

lemma has_glob_slash [simp]: "has_glob_metacharacters (slash # b) \<longleftrightarrow> has_glob_metacharacters b"
  by (simp add: has_glob_metacharacters_def)

lemma has_glob_Nil [simp]: "\<not> has_glob_metacharacters []"
  by (simp add: has_glob_metacharacters_def)

lemma has_glob_join:
  "has_glob_metacharacters (join slash segs) \<longleftrightarrow> (\<exists>s\<in>set segs. has_glob_metacharacters s)"
proof (induction segs)
  case (Cons x xs)
  then show ?case by (cases xs) simp_all
qed simp

lemma split_on_slash_glob:
  "has_glob_metacharacters pattern \<longleftrightarrow> (\<exists>s\<in>set (split_on_slash pattern). has_glob_metacharacters s)"
  using has_glob_join [of "split_at slash pattern"] unfolding split_on_slash_def join_split_at .

lemma split_glob_parts:
  assumes "has_glob_metacharacters pattern"
  obtains before g rest where
    "split_on_slash pattern = before @ g # rest" "\<forall>b\<in>set before. \<not> has_glob_metacharacters b"
    "has_glob_metacharacters g" "literal_prefix (split_glob pattern) = join slash before"
    "pattern_tail (split_glob pattern) = join slash (g # rest)"
    "recursive (split_glob pattern) = (rest \<noteq> [] \<or> find_sub ''**'' (join slash (g # rest)) \<noteq> None)"
proof -
  let ?lit = "\<lambda>s. \<not> has_glob_metacharacters s"
  let ?segs = "split_on_slash pattern"
  from assms obtain g rest where after: "dropWhile ?lit ?segs = g # rest"
    by (subst (asm) split_on_slash_glob) (cases "dropWhile ?lit ?segs"; auto)
  then have "has_glob_metacharacters g" using hd_dropWhile [of ?lit ?segs] by simp
  moreover have "?segs = takeWhile ?lit ?segs @ g # rest" using after by (metis takeWhile_dropWhile_id)
  moreover have "\<forall>b\<in>set (takeWhile ?lit ?segs). ?lit b" by (auto dest: set_takeWhileD)
  ultimately show thesis
    using assms after
    by (intro that [of "takeWhile ?lit ?segs" g rest]) (auto simp: split_glob_def Let_def)
qed

lemma split_on_slash_free: "x \<in> set (split_on_slash s) \<Longrightarrow> slash \<notin> set x"
  by (simp add: split_on_slash_def split_at_free)

lemma join_split_on_slash: "join slash (split_on_slash s) = s"
  by (simp add: split_on_slash_def)

text \<open>
  Restricting a listing to the literal prefix loses no match: every path a pattern matches
  is the prefix itself or lies beneath it.\<close>

theorem split_glob_prefix_sound:
  assumes "has_glob_metacharacters pattern" and "match_path pattern path"
  shows "path = literal_prefix (split_glob pattern) \<or>
         (\<exists>rest. path = literal_prefix (split_glob pattern) @ slash # rest) \<or>
         (literal_prefix (split_glob pattern) = [])"
proof -
  from assms(1) obtain before g rest where sp: "split_on_slash pattern = before @ g # rest"
    "\<forall>b\<in>set before. \<not> has_glob_metacharacters b"
    and pre: "literal_prefix (split_glob pattern) = join slash before"
    by (rule split_glob_parts)
  from assms(2) sp obtain tl where tl: "split_on_slash path = before @ tl"
    unfolding match_path_def
    using match_segments_ref [of "split_on_slash pattern" "split_on_slash path" "\<lambda>_. None" 0 0]
    by (auto simp: memo_ok_def path_ref_literal_prefix)
  have path: "path = join slash (before @ tl)" using join_split_on_slash [of path] tl by simp
  show ?thesis
  proof (cases "before = [] \<or> tl = []")
    case True
    then show ?thesis using path pre by auto
  next
    case False
    then show ?thesis using path pre join_append_Cons [of before tl slash] by auto
  qed
qed

theorem split_glob_prefix_sound_witness:
  "''a/b/x.csv'' = literal_prefix (split_glob ''a/b/*.csv'') \<or>
   (\<exists>rest. ''a/b/x.csv'' = literal_prefix (split_glob ''a/b/*.csv'') @ slash # rest) \<or>
   (literal_prefix (split_glob ''a/b/*.csv'') = [])"
  by (rule split_glob_prefix_sound) code_simp+

text \<open>
  When \<open>SplitGlob\<close> says a listing need not recurse, listing the one folder finds every
  match: the matching paths are exactly the children of the literal prefix whose name the tail
  matches.\<close>

theorem split_glob_flat_complete:
  assumes "has_glob_metacharacters pattern" and "\<not> recursive (split_glob pattern)"
  shows "match_path pattern path \<longleftrightarrow>
    (\<exists>dir name. path = dir @ name \<and> pattern = dir @ pattern_tail (split_glob pattern) \<and>
       slash \<notin> set name \<and> match_segment (pattern_tail (split_glob pattern)) name \<and>
       (dir = [] \<or> dir = literal_prefix (split_glob pattern) @ [slash]))"
proof -
  from assms(1) obtain before g rest where sp: "split_on_slash pattern = before @ g # rest"
    and lit: "\<forall>b\<in>set before. \<not> has_glob_metacharacters b"
    and pre: "literal_prefix (split_glob pattern) = join slash before"
    and tail: "pattern_tail (split_glob pattern) = join slash (g # rest)"
    and rec: "recursive (split_glob pattern) = (rest \<noteq> [] \<or> find_sub ''**'' (join slash (g # rest)) \<noteq> None)"
    by (rule split_glob_parts)
  from rec assms(2) have rest: "rest = []" and g: "g \<noteq> ''**''" by auto
  define dir where "dir = (if before = [] then [] else join slash before @ [slash])"
  have join_snoc: "join slash (before @ [n]) = dir @ n" for n
    using join_append_Cons [of before "[n]" slash] by (simp add: dir_def)
  have pattern: "pattern = dir @ g" using join_split_on_slash [of pattern] sp rest join_snoc by simp
  have "match_path pattern path \<longleftrightarrow> path_ref (before @ [g]) (split_on_slash path)"
    unfolding match_path_def using sp rest
      match_segments_ref [of "split_on_slash pattern" "split_on_slash path" "\<lambda>_. None" 0 0]
    by (simp add: memo_ok_def)
  also have "\<dots> \<longleftrightarrow> (\<exists>n. split_on_slash path = before @ [n] \<and> seg_ref g n)"
  proof -
    have "path_ref [g] r \<longleftrightarrow> (\<exists>n. r = [n] \<and> seg_ref g n)" for r
      using g by (cases r; cases "tl r") auto
    then show ?thesis by (auto simp: path_ref_literal_prefix [OF lit])
  qed
  also have "\<dots> \<longleftrightarrow> (\<exists>n. path = dir @ n \<and> slash \<notin> set n \<and> seg_ref g n)"
  proof (rule ex_cong1, rule iffI)
    fix n assume n: "split_on_slash path = before @ [n] \<and> seg_ref g n"
    then show "path = dir @ n \<and> slash \<notin> set n \<and> seg_ref g n"
      using join_split_on_slash [of path] join_snoc split_on_slash_free [of n path] by simp
  next
    fix n assume n: "path = dir @ n \<and> slash \<notin> set n \<and> seg_ref g n"
    have "\<forall>b\<in>set (before @ [n]). slash \<notin> set b"
      using split_on_slash_free [of _ pattern] sp n by auto
    then have "split_on_slash (join slash (before @ [n])) = before @ [n]"
      unfolding split_on_slash_def by (intro split_at_join) simp_all
    with n join_snoc show "split_on_slash path = before @ [n] \<and> seg_ref g n" by simp
  qed
  also have "\<dots> \<longleftrightarrow> (\<exists>d n. path = d @ n \<and> pattern = d @ g \<and> slash \<notin> set n \<and> seg_ref g n \<and>
       (d = [] \<or> d = join slash before @ [slash]))"
    using pattern by (auto simp: dir_def)
  finally show ?thesis unfolding pre tail rest join.simps match_segment_ref .
qed

theorem split_glob_flat_complete_witness:
  "match_path ''d/*.csv'' ''d/a.csv'' \<longleftrightarrow>
    (\<exists>dir name. ''d/a.csv'' = dir @ name \<and> ''d/*.csv'' = dir @ pattern_tail (split_glob ''d/*.csv'') \<and>
       slash \<notin> set name \<and> match_segment (pattern_tail (split_glob ''d/*.csv'')) name \<and>
       (dir = [] \<or> dir = literal_prefix (split_glob ''d/*.csv'') @ [slash]))"
  by (rule split_glob_flat_complete) code_simp+

section \<open>Brace expansion against its denotation\<close>

lemma split_alternatives_member: "x \<in> set (split_alternatives d cur s) \<Longrightarrow> length x \<le> length cur + length s"
proof -
  assume "x \<in> set (split_alternatives d cur s)"
  then have "Suc (length x) \<le> sum_list (map (\<lambda>s. Suc (length s)) (split_alternatives d cur s))"
    by (intro member_le_sum_list) auto
  then show ?thesis by (simp add: split_alternatives_length)
qed

text \<open>The uncapped expansion: the product of the alternatives' expansions and the suffix's.\<close>

function expand_ref :: "string \<Rightarrow> string list" where
  "expand_ref pattern =
     (case brace_scan pattern 0 0 None of
        None \<Rightarrow> [pattern]
      | Some (b, e) \<Rightarrow>
          concat (map (\<lambda>alt. [take b pattern @ a @ s. a \<leftarrow> expand_ref alt, s \<leftarrow> expand_ref (drop (e + 1) pattern)])
            (split_alternatives 0 [] (take (e - b - 1) (drop (b + 1) pattern)))))"
  by pat_completeness auto
termination
proof (relation "measure length", goal_cases)
  case (2 pattern x b e alt)
  then have be: "b < e \<and> e < length pattern" using brace_scan_bounds by force
  from 2 have "length alt \<le> length (take (e - b - 1) (drop (b + 1) pattern))"
    using split_alternatives_member [OF 2(3)] by simp
  with be show ?case by (simp add: min_def split: if_splits)
next
  case (3 pattern x b e alt a)
  then have "b < e \<and> e < length pattern" using brace_scan_bounds by force
  then show ?case by simp linarith
qed simp

declare expand_ref.simps [simp del]

lemma push_all_Some: "push_all n xs = Some (m, ys) \<Longrightarrow> ys = xs \<and> length xs + m = n"
  by (induction n xs arbitrary: m ys rule: push_all.induct) auto

lemma expand_caps:
  "expand_into p d b = Some (b', out) \<Longrightarrow> out = expand_ref p \<and> length out + b' \<le> b"
  "expand_alts pre alts sufs d b = Some (b', out') \<Longrightarrow>
     out' = concat (map (\<lambda>alt. [pre @ a @ s. a \<leftarrow> expand_ref alt, s \<leftarrow> sufs]) alts) \<and>
     length out' + b' \<le> b"
proof (induction p d b and pre alts sufs d b arbitrary: b' out and b' out' rule: expand_into_expand_alts.induct)
  case (1 pattern depth budget)
  show ?case
  proof (cases "brace_scan pattern 0 0 None")
    case None
    with "1.prems" show ?thesis
      by (subst expand_ref.simps, subst (asm) expand_into.simps) (auto split: if_splits dest: push_all_Some)
  next
    case (Some be)
    obtain b e where be: "be = (b, e)" by force
    from "1.prems" have depth: "\<not> depth > max_brace_depth"
      by (subst (asm) expand_into.simps) (auto split: if_splits)
    with "1.prems" Some be obtain b1 sufs where
      s: "expand_into (drop (e + 1) pattern) (depth + 1) budget = Some (b1, sufs)"
      and a: "expand_alts (take b pattern)
        (split_alternatives 0 [] (take (e - b - 1) (drop (b + 1) pattern))) sufs (depth + 1) b1 = Some (b', out)"
      by (subst (asm) expand_into.simps) (auto split: option.splits)
    from "1.IH"(1) [OF depth Some be [symmetric] s] have "sufs = expand_ref (drop (e + 1) pattern)"
      and "b1 \<le> budget" by auto
    with "1.IH"(2) [OF depth Some be [symmetric] s refl a] Some be show ?thesis
      by (subst expand_ref.simps) auto
  qed
next
  case (3 pre alt alts sufs depth budget)
  from "3.prems" obtain b1 ae b2 o1 o2 where
    ae: "expand_into alt depth budget = Some (b1, ae)"
    and p: "push_all b1 [pre @ a @ s. a \<leftarrow> ae, s \<leftarrow> sufs] = Some (b2, o1)"
    and r: "expand_alts pre alts sufs depth b2 = Some (b', o2)" and out: "out' = o1 @ o2"
    by (auto split: option.splits)
  from "3.IH"(1) [OF ae] have "ae = expand_ref alt" "b1 \<le> budget" by auto
  moreover from push_all_Some [OF p] have "o1 = [pre @ a @ s. a \<leftarrow> ae, s \<leftarrow> sufs]" "length o1 + b2 = b1"
    by auto
  moreover from "3.IH"(2) [OF ae refl p refl r] have
    "o2 = concat (map (\<lambda>alt. [pre @ a @ s. a \<leftarrow> expand_ref alt, s \<leftarrow> sufs]) alts)" "length o2 + b' \<le> b2"
    by auto
  ultimately show ?case using out by simp
qed auto

lemma split_alternatives_not_Nil: "split_alternatives d cur s \<noteq> []"
  by (induction d cur s rule: split_alternatives.induct) auto

lemma expand_ref_not_Nil: "expand_ref p \<noteq> []"
proof (induction p rule: expand_ref.induct)
  case (1 pattern)
  show ?case
  proof (cases "brace_scan pattern 0 0 None")
    case None
    then show ?thesis by (subst expand_ref.simps) simp
  next
    case (Some be)
    obtain b e where be: "be = (b, e)" by force
    obtain alt alts where alts:
      "split_alternatives 0 [] (take (e - b - 1) (drop (b + 1) pattern)) = alt # alts"
      using split_alternatives_not_Nil by (meson neq_Nil_conv)
    then have "expand_ref alt \<noteq> []" using "1.IH"(1) [OF Some be [symmetric], of alt] by simp
    moreover then obtain a where "a \<in> set (expand_ref alt)" by (meson last_in_set)
    then have "expand_ref (drop (e + 1) pattern) \<noteq> []"
      using "1.IH"(2) [OF Some be [symmetric], of alt a] alts by simp
    ultimately show ?thesis
      using Some be alts by (subst expand_ref.simps) (auto simp: neq_Nil_conv)
  qed
qed

text \<open>
  C39. Brace expansion under its caps either rejects the pattern (the empty list) or returns
  exactly the strings the pattern denotes, in order, and never more than 1024 of them. The
  denotation is never empty, so an empty result always means \<open>rejected\<close>.\<close>

theorem expand_braces_denotation:
  "(expand_braces pattern = [] \<or> expand_braces pattern = expand_ref pattern) \<and>
   length (expand_braces pattern) \<le> 1024 \<and> expand_ref pattern \<noteq> []"
  using expand_caps(1) [of pattern 0 max_brace_expansions] expand_ref_not_Nil [of pattern]
  by (auto simp: expand_braces_def max_brace_expansions_def split: option.splits)

text \<open>
  A pattern of at most 4096 bytes without a balanced brace group is never rejected: it
  expands to itself.\<close>

theorem expand_braces_plain:
  assumes "length pattern \<le> 4096" and "brace_scan pattern 0 0 None = None"
  shows "expand_braces pattern = [pattern]"
proof -
  have "push_all max_brace_expansions [pattern] = Some (max_brace_expansions - 1, [pattern])"
    by (simp add: max_brace_expansions_def eval_nat_numeral)
  with assms show ?thesis
    by (subst expand_braces_def, subst expand_into.simps)
      (simp add: max_brace_pattern_length_def max_brace_depth_def)
qed

theorem expand_braces_plain_witness: "expand_braces ''a/x*.csv'' = [''a/x*.csv'']"
  by (rule expand_braces_plain) code_simp+

end
