(* ===== verification/Json.thy ===== *)
theory Json
  imports Prelude
begin

text \<open>
  The JSON values the code inspects. The parser (picojson) is third-party code: it is a parameter
  \<open>parse :: string \<Rightarrow> json option\<close> of every definition that parses, \<open>None\<close> standing for a parse
  error. An object is an association list; picojson keeps one value per key, which \<open>map_of\<close> reads.
\<close>

datatype json =
    JNull
  | JBool bool
  | JNumber string
  | JString string
  | JArray "json list"
  | JObject "(string \<times> json) list"

type_synonym json_object = "(string \<times> json) list"
type_synonym json_parser = "string \<Rightarrow> json option"

text \<open>\<open>picojson::parse\<close> succeeded and the root is an object.\<close>

definition parse_object :: "json_parser \<Rightarrow> string \<Rightarrow> json_object option" where
  "parse_object parse s = (case parse s of Some (JObject obj) \<Rightarrow> Some obj | _ \<Rightarrow> None)"

text \<open>A member that is present and a string.\<close>

definition string_member :: "json_object \<Rightarrow> string \<Rightarrow> string option" where
  "string_member obj key = (case map_of obj key of Some (JString s) \<Rightarrow> Some s | _ \<Rightarrow> None)"

definition array_member :: "json_object \<Rightarrow> string \<Rightarrow> json list option" where
  "array_member obj key = (case map_of obj key of Some (JArray xs) \<Rightarrow> Some xs | _ \<Rightarrow> None)"

definition object_member :: "json_object \<Rightarrow> string \<Rightarrow> json_object option" where
  "object_member obj key = (case map_of obj key of Some (JObject o') \<Rightarrow> Some o' | _ \<Rightarrow> None)"

end
