(* ===== verification/Errors.thy ===== *)
theory Errors
  imports Json
begin

text \<open>
  \<open>src/gdrive_errors.cpp\<close>: classification of failed Drive API calls, the redaction of credentials,
  the message shown to the user and the exception class it is thrown as.

  The redaction passes of the source scan a string by an increasing position and replace the token
  they find in place. The model of a pass maps the text behind the position to its replacement; the
  text before the position is already final.
\<close>

section \<open>Classification\<close>

datatype error_kind =
    NOT_FOUND | UNAUTHENTICATED | PERMISSION_DENIED | INSUFFICIENT_SCOPE | STORAGE_QUOTA
  | RATE_LIMIT | TRANSIENT | INVALID_REQUEST | NOT_DOWNLOADABLE | UNKNOWN

record gdrive_error =
  err_kind :: error_kind
  http_status :: int
  reason :: string
  message :: string
  retry_after_seconds :: int

definition no_error :: gdrive_error where
  "no_error = \<lparr>err_kind = UNKNOWN, http_status = 0, reason = [], message = [], retry_after_seconds = 0\<rparr>"

record parsed_body =
  pb_reason :: string
  pb_message :: string
  pb_detail_reason :: string
  pb_ok :: bool

definition empty_body :: parsed_body where
  "empty_body = \<lparr>pb_reason = [], pb_message = [], pb_detail_reason = [], pb_ok = False\<rparr>"

definition or_empty :: "string option \<Rightarrow> string" where
  "or_empty x = (case x of None \<Rightarrow> [] | Some s \<Rightarrow> s)"

text \<open>The \<open>reason\<close> of the first element of \<open>error.errors\<close>.\<close>

definition first_reason :: "json_object \<Rightarrow> string" where
  "first_reason error_obj =
     (case array_member error_obj ''errors'' of
        Some (JObject first # _) \<Rightarrow> or_empty (string_member first ''reason'')
      | _ \<Rightarrow> [])"

text \<open>The \<open>reason\<close> of the first element of \<open>error.details\<close> that has one.\<close>

fun detail_reason :: "json list \<Rightarrow> string" where
  "detail_reason [] = []"
| "detail_reason (JObject detail # rest) =
     (case string_member detail ''reason'' of Some r \<Rightarrow> r | None \<Rightarrow> detail_reason rest)"
| "detail_reason (_ # rest) = detail_reason rest"

definition parse_error_body :: "json_parser \<Rightarrow> string \<Rightarrow> parsed_body" where
  "parse_error_body parse body =
     (if body = [] then empty_body
      else case parse_object parse body of
        None \<Rightarrow> empty_body
      | Some root_obj \<Rightarrow>
          (case object_member root_obj ''error'' of
             None \<Rightarrow> empty_body
           | Some error_obj \<Rightarrow>
               \<lparr>pb_reason = first_reason error_obj,
                pb_message = or_empty (string_member error_obj ''message''),
                pb_detail_reason =
                  (case array_member error_obj ''details'' of
                     Some ds \<Rightarrow> detail_reason ds | None \<Rightarrow> []),
                pb_ok = True\<rparr>))"

text \<open>\<open>static_cast<int>(long)\<close>: the low 32 bits, read as a signed number.\<close>

definition int32_of :: "int \<Rightarrow> int" where
  "int32_of v = (let r = v mod 2 ^ 32 in if r \<ge> 2 ^ 31 then r - 2 ^ 32 else r)"

text \<open>\<open>strtol\<close> on a string of digits saturates at \<open>LONG_MAX\<close>.\<close>

definition parse_retry_after_seconds :: "string \<Rightarrow> int" where
  "parse_retry_after_seconds header =
     (if header = [] then 0
      else
        let blank = (\<lambda>c. c = CHR '' '' \<or> c = tab);
            trimmed = rstrip blank (dropWhile blank header) in
        if trimmed = [] \<or> \<not> list_all is_digit trimmed then 0
        else int32_of (min (int (digits_value trimmed)) (2 ^ 63 - 1)))"

definition classify_from_reason :: "string \<Rightarrow> error_kind" where
  "classify_from_reason r =
     (if r = ''notFound'' then NOT_FOUND
      else if r = ''authError'' \<or> r = ''required'' then UNAUTHENTICATED
      else if r = ''insufficientPermissions'' \<or> r = ''insufficientFilePermissions'' then PERMISSION_DENIED
      else if r = ''storageQuotaExceeded'' then STORAGE_QUOTA
      else if r = ''rateLimitExceeded'' \<or> r = ''userRateLimitExceeded'' then RATE_LIMIT
      else if r = ''fileNotDownloadable'' \<or> r = ''cannotDownloadAbusiveFile'' then NOT_DOWNLOADABLE
      else if r = ''invalidParameter'' \<or> r = ''invalid'' then INVALID_REQUEST
      else UNKNOWN)"

definition classify_from_status :: "int \<Rightarrow> error_kind" where
  "classify_from_status status =
     (if status = 404 then NOT_FOUND
      else if status = 401 then UNAUTHENTICATED
      else if status = 400 then INVALID_REQUEST
      else if status = 429 then RATE_LIMIT
      else if status \<ge> 500 \<and> status < 600 then TRANSIENT
      else UNKNOWN)"

definition is_retryable :: "gdrive_error \<Rightarrow> bool" where
  "is_retryable e \<longleftrightarrow> err_kind e = RATE_LIMIT \<or> err_kind e = TRANSIENT"

definition classify_drive_error :: "json_parser \<Rightarrow> int \<Rightarrow> string \<Rightarrow> string \<Rightarrow> gdrive_error" where
  "classify_drive_error parse status body retry_after_header =
     (let parsed = parse_error_body parse body;
          err = \<lparr>err_kind = UNKNOWN, http_status = status, reason = pb_reason parsed,
                 message = pb_message parsed,
                 retry_after_seconds = parse_retry_after_seconds retry_after_header\<rparr> in
      if pb_detail_reason parsed = ''ACCESS_TOKEN_SCOPE_INSUFFICIENT'' then
        err\<lparr>err_kind := INSUFFICIENT_SCOPE\<rparr>
      else if status = 429 then err\<lparr>err_kind := RATE_LIMIT\<rparr>
      else if pb_reason parsed \<noteq> [] \<and> classify_from_reason (pb_reason parsed) \<noteq> UNKNOWN then
        err\<lparr>err_kind := classify_from_reason (pb_reason parsed)\<rparr>
      else err\<lparr>err_kind := classify_from_status status\<rparr>)"

section \<open>Redaction\<close>

definition redacted :: string where "redacted = ''[redacted]''"

definition find_case_insensitive :: "string \<Rightarrow> string \<Rightarrow> nat option" where
  "find_case_insensitive haystack needle_lower = find_sub needle_lower (map to_lower haystack)"

definition is_identifier_char :: "char \<Rightarrow> bool" where
  "is_identifier_char c \<longleftrightarrow> is_alnum c \<or> c = CHR ''_''"

definition is_blank :: "char \<Rightarrow> bool" where
  "is_blank c \<longleftrightarrow> c = CHR '' '' \<or> c = tab"

definition is_token_char :: "char \<Rightarrow> bool" where
  "is_token_char c \<longleftrightarrow> is_alnum c \<or> c = CHR ''.'' \<or> c = CHR ''-'' \<or> c = CHR ''_'' \<or> c = slash"

lemma length_dropWhile_drop: "length (dropWhile P (drop n xs)) \<le> length xs - n"
  by (metis length_drop length_dropWhile_le)

lemma find_sub_bound: "find_sub p s = Some i \<Longrightarrow> i + length p \<le> length s"
proof -
  assume f: "find_sub p s = Some i"
  then have "i \<le> length s" and sw: "starts_with (drop i s) p" using find_sub_Some by blast+
  from sw obtain r where "drop i s = p @ r" by (auto simp: starts_with_iff)
  then have "length p \<le> length (drop i s)" by (metis le_add1 length_append)
  with \<open>i \<le> length s\<close> show ?thesis by simp
qed

lemma find_ci_bound: "find_case_insensitive s p = Some i \<Longrightarrow> i + length p \<le> length s"
  using find_sub_bound [of p "map to_lower s" i] by (simp add: find_case_insensitive_def)

text \<open>
  \<open>RedactKeywordToken\<close>: the token behind a keyword and blanks. The position always moves past the
  keyword; the empty keyword, on which it would not move, is never passed and left alone here.
\<close>

function redact_keyword_token :: "string \<Rightarrow> string \<Rightarrow> string" where
  "redact_keyword_token kw rest =
     (if kw = [] then rest
      else case find_case_insensitive rest kw of
        None \<Rightarrow> rest
      | Some i \<Rightarrow>
          let consumed = take (i + length kw) rest;
              after_keyword = drop (i + length kw) rest;
              blanks = takeWhile is_blank after_keyword;
              at_token = dropWhile is_blank after_keyword;
              token = takeWhile (\<lambda>c. \<not> is_space c) at_token;
              behind = dropWhile (\<lambda>c. \<not> is_space c) at_token in
          if blanks = [] \<or> token = [] then consumed @ redact_keyword_token kw after_keyword
          else consumed @ blanks @ redacted @ redact_keyword_token kw behind)"
  by pat_completeness auto
termination
proof (relation "measure (\<lambda>(kw, rest). length rest)", goal_cases)
  case (2 kw rest i)
  then show ?case using find_ci_bound [of rest kw i] by (cases kw) auto
next
  case (3 kw rest i consumed after_keyword blanks at_token token behind)
  have "length behind \<le> length at_token" "length at_token \<le> length after_keyword"
    using 3 by (simp_all add: length_dropWhile_drop length_dropWhile_le)
  with 3 show ?case using find_ci_bound [of rest kw i] by (cases kw) auto
qed simp

text \<open>\<open>RedactPrefixedRun\<close>: the run of token characters starting at a literal prefix. The run is
  empty only for a prefix that does not start with a token character, which is never passed.\<close>

function redact_prefixed_run :: "string \<Rightarrow> string \<Rightarrow> string" where
  "redact_prefixed_run pre rest =
     (if pre = [] \<or> \<not> is_token_char (hd pre) then rest
      else case find_sub pre rest of
        None \<Rightarrow> rest
      | Some i \<Rightarrow>
          take i rest @ redacted @ redact_prefixed_run pre (dropWhile is_token_char (drop i rest)))"
  by pat_completeness auto
termination
proof (relation "measure (\<lambda>(pre, rest). length rest)", goal_cases)
  case (2 pre rest i)
  then have b: "i + length pre \<le> length rest" using find_sub_bound by blast
  moreover have "length (dropWhile is_token_char (drop i rest)) \<le> length (drop i rest)"
    by (rule length_dropWhile_le)
  moreover have "length (dropWhile is_token_char (drop i rest)) \<noteq> length (drop i rest)"
  proof
    assume "length (dropWhile is_token_char (drop i rest)) = length (drop i rest)"
    then have "takeWhile is_token_char (drop i rest) = []"
      by (metis add_cancel_left_left length_0_conv length_append takeWhile_dropWhile_id)
    moreover from 2 have "starts_with (drop i rest) pre" using find_sub_Some by blast
    ultimately show False using 2 by (cases pre) (auto simp: starts_with_iff)
  qed
  ultimately show ?case by simp
qed simp

text \<open>\<open>RedactKeyValue\<close>: the value behind a whole-word key and a delimiter. \<open>prev\<close> is the character
  before the position, which the word-boundary test reads.\<close>

definition is_delimiter :: "char \<Rightarrow> bool" where
  "is_delimiter c \<longleftrightarrow> c = dquote \<or> c = squote \<or> c = CHR '':'' \<or> c = CHR ''='' \<or> is_blank c"

definition is_value_char :: "char \<Rightarrow> bool" where
  "is_value_char c \<longleftrightarrow>
     c \<noteq> dquote \<and> c \<noteq> squote \<and> c \<noteq> CHR '','' \<and> c \<noteq> CHR 0x7D \<and> c \<noteq> CHR ''&'' \<and> \<not> is_space c"

function redact_key_value :: "string \<Rightarrow> char option \<Rightarrow> string \<Rightarrow> string" where
  "redact_key_value key prev rest =
     (if key = [] then rest
      else case find_case_insensitive rest key of
        None \<Rightarrow> rest
      | Some i \<Rightarrow>
          let consumed = take (i + length key) rest;
              at_end = drop (i + length key) rest;
              before = (if i = 0 then prev else Some (rest ! (i - 1)));
              boundary_before = (case before of None \<Rightarrow> True | Some c \<Rightarrow> \<not> is_identifier_char c);
              boundary_after = (at_end = [] \<or> \<not> is_identifier_char (hd at_end));
              delims = takeWhile is_delimiter at_end;
              at_value = dropWhile is_delimiter at_end;
              value = takeWhile is_value_char at_value;
              behind = dropWhile is_value_char at_value in
          if \<not> boundary_before \<or> \<not> boundary_after \<or> delims = [] \<or> value = [] then
            consumed @ redact_key_value key (Some (last consumed)) at_end
          else consumed @ delims @ redacted @ redact_key_value key (Some (last redacted)) behind)"
  by pat_completeness auto
termination
proof (relation "measure (\<lambda>(key, prev, rest). length rest)", goal_cases)
  case (2 key prev rest i)
  then show ?case using find_ci_bound [of rest key i] by (cases key) auto
next
  case (3 key prev rest i consumed at_end before bb ba delims at_value v behind)
  have "length behind \<le> length at_value" "length at_value \<le> length at_end"
    using 3 by (simp_all add: length_dropWhile_drop length_dropWhile_le)
  with 3 show ?case using find_ci_bound [of rest key i] by (cases key) auto
qed simp

text \<open>\<open>RedactAuthorizationHeader\<close>: the value behind a scheme word.\<close>

function redact_authorization_header :: "string \<Rightarrow> string" where
  "redact_authorization_header rest =
     (case find_case_insensitive rest ''authorization'' of
        None \<Rightarrow> rest
      | Some i \<Rightarrow>
          let consumed = take (i + 13) rest;
              behind_word = drop (i + 13) rest;
              skipped = takeWhile (\<lambda>c. c = CHR '':'' \<or> is_blank c) behind_word;
              at_scheme = dropWhile (\<lambda>c. c = CHR '':'' \<or> is_blank c) behind_word;
              scheme_word = takeWhile (\<lambda>c. \<not> is_space c) at_scheme;
              behind_scheme = dropWhile (\<lambda>c. \<not> is_space c) at_scheme;
              blanks = takeWhile is_blank behind_scheme;
              at_value = dropWhile is_blank behind_scheme;
              value = takeWhile (\<lambda>c. \<not> is_space c) at_value;
              behind = dropWhile (\<lambda>c. \<not> is_space c) at_value in
          if scheme_word = [] then consumed @ skipped @ redact_authorization_header at_scheme
          else if blanks = [] \<or> value = [] then
            consumed @ skipped @ scheme_word @ redact_authorization_header behind_scheme
          else consumed @ skipped @ scheme_word @ blanks @ redacted @ redact_authorization_header behind)"
  by pat_completeness auto
termination
proof (relation "measure length", goal_cases)
  case (2 rest i c b s at w)
  have "length at \<le> length b" using 2 by (simp add: length_dropWhile_drop length_dropWhile_le)
  with 2 show ?case using find_ci_bound [of rest "''authorization''" i] by simp
next
  case (3 rest i c b s at w bs)
  have "length at \<le> length b" "length bs \<le> length at"
    using 3 by (simp_all add: length_dropWhile_drop length_dropWhile_le)
  with 3 show ?case using find_ci_bound [of rest "''authorization''" i] by simp
next
  case (4 rest i c b s at w bs bl av v be)
  have "length at \<le> length b" "length bs \<le> length at" "length av \<le> length bs" "length be \<le> length av"
    using 4 by (simp_all add: length_dropWhile_drop length_dropWhile_le)
  with 4 show ?case using find_ci_bound [of rest "''authorization''" i] by simp
qed simp

text \<open>
  PEM blocks: from \<open>-----BEGIN\<close> to the dashes behind the next \<open>-----END\<close>, or to the end. Each round
  removes dashes and inserts none, which bounds the loop.
\<close>

definition pem_block_end :: "string \<Rightarrow> nat" where
  "pem_block_end at_begin =
     (case find_sub ''-----END'' at_begin of
        None \<Rightarrow> length at_begin
      | Some e \<Rightarrow>
          (case find_sub ''-----'' (drop (e + 8) at_begin) of
             None \<Rightarrow> length at_begin
           | Some t \<Rightarrow> e + 8 + t + 5))"

lemma pem_block_end_pos: "starts_with s ''-----BEGIN'' \<Longrightarrow> 0 < pem_block_end s"
  by (auto simp: pem_block_end_def starts_with_iff split: option.splits)

function redact_pem_blocks :: "string \<Rightarrow> string" where
  "redact_pem_blocks out =
     (case find_sub ''-----BEGIN'' out of
        None \<Rightarrow> out
      | Some b \<Rightarrow>
          redact_pem_blocks (take b out @ redacted @ drop (pem_block_end (drop b out)) (drop b out)))"
  by pat_completeness auto

termination
proof (relation "measure (\<lambda>s. count_list s CHR ''-'')", goal_cases)
  case (2 out b)
  let ?n = "pem_block_end (drop b out)"
  from 2 have sw: "starts_with (drop b out) ''-----BEGIN''" using find_sub_Some by blast
  then obtain r where r: "drop b out = CHR ''-'' # r" by (auto simp: starts_with_iff)
  from pem_block_end_pos [OF sw] obtain n where n: "?n = Suc n" using gr0_conv_Suc by blast
  have "count_list (drop n r) CHR ''-'' \<le> count_list r CHR ''-''"
    by (metis append_take_drop_id count_list_append le_add2)
  moreover have "count_list out CHR ''-'' = count_list (take b out) CHR ''-'' + count_list (drop b out) CHR ''-''"
    by (metis append_take_drop_id count_list_append)
  ultimately show ?case using n r by (simp add: redacted_def)
qed simp

definition redacted_keys :: "string list" where
  "redacted_keys = [''access_token'', ''refresh_token'', ''private_key'', ''client_secret'', ''id_token'']"

definition redact_credentials :: "string \<Rightarrow> string" where
  "redact_credentials input =
     (let out = redact_pem_blocks input;
          out = redact_authorization_header out;
          out = redact_keyword_token ''bearer'' out;
          out = redact_prefixed_run ''ya29.'' out;
          out = redact_prefixed_run ''1//'' out in
      fold (\<lambda>key s. redact_key_value key None s) redacted_keys out)"

section \<open>The message and the exception\<close>

definition format_base :: "gdrive_error \<Rightarrow> string \<Rightarrow> string" where
  "format_base e ctx =
     (case err_kind e of
        NOT_FOUND \<Rightarrow> ''no such file: '' @ ctx
      | UNAUTHENTICATED \<Rightarrow>
          ''authentication failed for '' @ ctx @ '': the credential is missing, malformed, or expired; '' @
          ''re-authenticate (recreate the gdrive access configuration) and retry''
      | PERMISSION_DENIED \<Rightarrow>
          ''permission denied for '' @ ctx @
          '': the authenticated identity does not have sufficient access to this file''
      | INSUFFICIENT_SCOPE \<Rightarrow>
          ''insufficient OAuth scope for '' @ ctx @
          '': the access token was not granted a Google Drive scope. This is not a '' @
          ''file-sharing problem.'' @ [newline] @
          ''If the credential came from gcloud, request the Drive scope explicitly:'' @ [newline] @
          ''  gcloud auth application-default login '' @ [backslash, newline] @
          ''    --scopes=openid,https://www.googleapis.com/auth/drive'' @ [newline] @
          ''(gcloud'' @ [squote] @ ''s default scope, cloud-platform, does not include Drive.)'' @ [newline] @
          ''For a gdrive secret, set DRIVE_SCOPE to a Drive scope such as '' @
          [squote] @ ''https://www.googleapis.com/auth/drive'' @ [squote] @ ''.''
      | STORAGE_QUOTA \<Rightarrow>
          ''Drive storage quota exceeded while accessing '' @ ctx @
          '': the account has no storage quota available to complete this write '' @
          ''(service accounts do not have storage quota outside a Shared Drive)''
      | RATE_LIMIT \<Rightarrow>
          ''Drive API quota exceeded while accessing '' @ ctx @ '': this request was rate-limited'' @
          (if retry_after_seconds e > 0
           then '' and can be retried after '' @ decimal_int (retry_after_seconds e) @ '' second(s)''
           else ''; retry with backoff'')
      | TRANSIENT \<Rightarrow> ''temporary Drive API failure while accessing '' @ ctx @ '': retry with backoff''
      | INVALID_REQUEST \<Rightarrow>
          ''invalid Drive API request for '' @ ctx @ '' (internal error, not a user mistake)''
      | NOT_DOWNLOADABLE \<Rightarrow>
          ctx @ '' has no downloadable content (a native Google format); export it instead''
      | UNKNOWN \<Rightarrow> ''Drive API request failed for '' @ ctx)"

definition format_user_message :: "gdrive_error \<Rightarrow> string \<Rightarrow> string" where
  "format_user_message e ctx =
     (let out = format_base e ctx;
          out = (if message e \<noteq> [] \<and> err_kind e \<noteq> UNAUTHENTICATED
                 then out @ '' ('' @ redact_credentials (message e) @ '')'' else out) in
      redact_credentials out)"

datatype exception_type = EXC_IO | EXC_PERMISSION | EXC_INVALID_INPUT

fun exception_type_for :: "error_kind \<Rightarrow> exception_type" where
  "exception_type_for PERMISSION_DENIED = EXC_PERMISSION"
| "exception_type_for INSUFFICIENT_SCOPE = EXC_PERMISSION"
| "exception_type_for INVALID_REQUEST = EXC_INVALID_INPUT"
| "exception_type_for _ = EXC_IO"

text \<open>\<open>ThrowGDriveError\<close> of \<open>src/gdrive_filesystem.cpp\<close>.\<close>

definition throw_gdrive_error :: "gdrive_error \<Rightarrow> string \<Rightarrow> 'a outcome" where
  "throw_gdrive_error e ctx =
     (let text = format_user_message e ctx in
      Inl (case exception_type_for (err_kind e) of
             EXC_PERMISSION \<Rightarrow> PermissionException text
           | EXC_INVALID_INPUT \<Rightarrow> InvalidInputException text
           | EXC_IO \<Rightarrow> IOException text))"

declare redact_keyword_token.simps [simp del]
declare redact_prefixed_run.simps [simp del]
declare redact_key_value.simps [simp del]
declare redact_authorization_header.simps [simp del]
declare redact_pem_blocks.simps [simp del]

section \<open>What the redaction passes have in common\<close>

text \<open>
  Every pass replaces disjoint parts of its input by the mark and keeps the rest. Text without a
  bracket that is no part of the mark is then in the output only where it was in the input.
\<close>

inductive redaction :: "string \<Rightarrow> string \<Rightarrow> bool" where
  done_nil: "redaction [] []"
| keep: "redaction a b \<Longrightarrow> redaction (c # a) (c # b)"
| hide: "redaction a b \<Longrightarrow> redaction (x @ a) (redacted @ b)"

lemma redaction_refl [simp, intro]: "redaction a a"
  by (induction a) (auto intro: redaction.intros)

lemma redaction_append [intro]: "redaction a b \<Longrightarrow> redaction (x @ a) (x @ b)"
  by (induction x) (auto intro: redaction.intros)

lemma redaction_replace:
  "a = x @ h @ r \<Longrightarrow> redaction r b \<Longrightarrow> redaction a (x @ redacted @ b)"
  by (auto intro: redaction.intros)

definition unmarked :: "string \<Rightarrow> bool" where
  "unmarked p \<longleftrightarrow> p \<noteq> [] \<and> CHR ''['' \<notin> set p \<and> CHR '']'' \<notin> set p \<and> \<not> sublist p redacted"

lemma unmarked_needles:
  "unmarked ''ya29.''" "unmarked ''1//''" "unmarked ''-----BEGIN''"
  unfolding unmarked_def redacted_def find_sub_None [symmetric] by simp_all

lemma redacted_split: "redacted = CHR ''['' # ''redacted'' @ [CHR '']'']"
  by (simp add: redacted_def)

lemma unmarked_sublist_redacted:
  assumes "unmarked p"
  shows "sublist p (redacted @ b) \<longleftrightarrow> sublist p b"
proof
  assume "sublist p (redacted @ b)"
  then consider "sublist p redacted" | "sublist p b"
    | p1 p2 where "p = p1 @ p2" "suffix p1 redacted" "prefix p2 b"
    by (auto simp: sublist_append)
  then show "sublist p b"
  proof cases
    case 1
    with assms show ?thesis by (simp add: unmarked_def)
  next
    case (3 p1 p2)
    have "p1 = []"
    proof (rule ccontr)
      assume "p1 \<noteq> []"
      moreover from 3 obtain u where "redacted = u @ p1" by (auto simp: suffix_def)
      ultimately have "last p1 = last redacted" by (metis last_appendR)
      with \<open>p1 \<noteq> []\<close> have "CHR '']'' \<in> set p1" by (metis last_in_set redacted_split last_snoc append_Cons)
      with 3 assms show False by (simp add: unmarked_def)
    qed
    with 3 show ?thesis by (simp add: prefix_imp_sublist)
  qed
qed (simp add: sublist_append)

lemma redaction_prefix: "redaction a b \<Longrightarrow> prefix p b \<Longrightarrow> CHR ''['' \<notin> set p \<Longrightarrow> prefix p a"
proof (induction arbitrary: p rule: redaction.induct)
  case (keep a b c)
  then show ?case by (cases p) auto
next
  case (hide a b x)
  then show ?case by (cases p) (auto simp: redacted_def)
qed simp

lemma redaction_sublist:
  "redaction a b \<Longrightarrow> unmarked p \<Longrightarrow> sublist p b \<Longrightarrow> sublist p a"
proof (induction rule: redaction.induct)
  case (keep a b c)
  from keep.prems(2) consider "prefix p (c # b)" | "sublist p b" by (auto simp: sublist_Cons_right)
  then show ?case
  proof cases
    case 1
    with keep have "prefix p (c # a)"
      by (intro redaction_prefix [OF redaction.keep [OF keep.hyps] 1]) (simp add: unmarked_def)
    then show ?thesis by (rule prefix_imp_sublist)
  next
    case 2
    with keep show ?thesis by (simp add: sublist_Cons_right)
  qed
next
  case (hide a b x)
  then have "sublist p b" by (simp add: unmarked_sublist_redacted)
  with hide show ?case by (simp add: sublist_append)
qed simp

lemma redaction_keyword_token: "redaction s (redact_keyword_token kw s)"
proof (induction kw s rule: redact_keyword_token.induct)
  case (1 kw rest)
  show ?case
  proof (cases "kw = [] \<or> find_case_insensitive rest kw = None")
    case True
    then show ?thesis by (subst redact_keyword_token.simps) auto
  next
    case False
    then obtain i where i: "kw \<noteq> []" "find_case_insensitive rest kw = Some i" by auto
    define a where "a = drop (i + length kw) rest"
    define t where "t = dropWhile is_blank a"
    have rest: "rest = take (i + length kw) rest @ a" by (simp add: a_def)
    have a: "a = takeWhile is_blank a @ t" by (simp add: t_def)
    have t: "t = takeWhile (\<lambda>c. \<not> is_space c) t @ dropWhile (\<lambda>c. \<not> is_space c) t" by simp
    note IH = 1 [OF i refl a_def refl t_def refl refl]
    show ?thesis
    proof (cases "takeWhile is_blank a = [] \<or> takeWhile (\<lambda>c. \<not> is_space c) t = []")
      case True
      with IH(1) have "redaction (take (i + length kw) rest @ a)
          (take (i + length kw) rest @ redact_keyword_token kw a)" by blast
      then have "redaction rest (take (i + length kw) rest @ redact_keyword_token kw a)"
        using rest by simp
      with True i show ?thesis
        by (subst redact_keyword_token.simps) (auto simp: Let_def a_def [symmetric] t_def [symmetric])
    next
      case False
      have "rest = (take (i + length kw) rest @ takeWhile is_blank a) @
          takeWhile (\<lambda>c. \<not> is_space c) t @ dropWhile (\<lambda>c. \<not> is_space c) t"
        using rest a t by (metis append.assoc)
      from redaction_replace [OF this IH(2) [OF False]] False i show ?thesis
        by (subst redact_keyword_token.simps) (auto simp: Let_def a_def [symmetric] t_def [symmetric])
    qed
  qed
qed

lemma redaction_prefixed_run: "redaction s (redact_prefixed_run pre s)"
proof (induction pre s rule: redact_prefixed_run.induct)
  case (1 pre rest)
  show ?case
  proof (cases "pre = [] \<or> \<not> is_token_char (hd pre) \<or> find_sub pre rest = None")
    case True
    then show ?thesis by (subst redact_prefixed_run.simps) auto
  next
    case False
    then obtain i where g: "\<not> (pre = [] \<or> \<not> is_token_char (hd pre))" "find_sub pre rest = Some i" by auto
    have "rest = take i rest @ takeWhile is_token_char (drop i rest) @ dropWhile is_token_char (drop i rest)"
      by simp
    from redaction_replace [OF this 1 [OF g]] g show ?thesis
      by (subst redact_prefixed_run.simps) simp
  qed
qed

lemma redaction_key_value: "redaction s (redact_key_value key prev s)"
proof (induction key prev s rule: redact_key_value.induct)
  case (1 key prev rest)
  show ?case
  proof (cases "key = [] \<or> find_case_insensitive rest key = None")
    case True
    then show ?thesis by (subst redact_key_value.simps) auto
  next
    case False
    then obtain i where i: "key \<noteq> []" "find_case_insensitive rest key = Some i" by auto
    define a where "a = drop (i + length key) rest"
    define v where "v = dropWhile is_delimiter a"
    note IH = 1 [OF i refl a_def refl refl refl refl v_def refl refl]
    have rest: "rest = take (i + length key) rest @ a" by (simp add: a_def)
    have whole: "rest = (take (i + length key) rest @ takeWhile is_delimiter a) @
        takeWhile is_value_char v @ dropWhile is_value_char v"
      by (metis rest v_def append.assoc takeWhile_dropWhile_id)
    have 1: "redaction rest (take (i + length key) rest @ redact_key_value key (Some x) a)"
      if "redaction a (redact_key_value key (Some x) a)" for x
      using redaction_append [OF that, of "take (i + length key) rest"] rest by simp
    have 2: "redaction rest (take (i + length key) rest @ takeWhile is_delimiter a @ redacted @
        redact_key_value key (Some x) (dropWhile is_value_char v))"
      if "redaction (dropWhile is_value_char v) (redact_key_value key (Some x) (dropWhile is_value_char v))" for x
      using redaction_replace [OF whole that] by simp
    show ?thesis
      using i IH 1 2
      by (subst redact_key_value.simps)
         (auto simp: Let_def a_def [symmetric] v_def [symmetric] simp del: takeWhile_eq_Nil_iff split: option.splits)
  qed
qed

lemma redaction_authorization_header: "redaction s (redact_authorization_header s)"
proof (induction s rule: redact_authorization_header.induct)
  case (1 rest)
  show ?case
  proof (cases "find_case_insensitive rest ''authorization''")
    case None
    then show ?thesis by (subst redact_authorization_header.simps) simp
  next
    case (Some i)
    let ?P = "\<lambda>c. c = CHR '':'' \<or> is_blank c" and ?W = "\<lambda>c. \<not> is_space c"
    define a where "a = drop (i + 13) rest"
    define t where "t = dropWhile ?P a"
    define u where "u = dropWhile ?W t"
    define v where "v = dropWhile is_blank u"
    note IH = 1 [OF Some refl a_def refl t_def refl u_def refl v_def refl refl]
    have rest: "rest = (take (i + 13) rest @ takeWhile ?P a) @ t" by (simp add: a_def t_def)
    have t: "t = takeWhile ?W t @ u" by (simp add: u_def)
    have u: "u = takeWhile is_blank u @ v" by (simp add: v_def)
    have 1: "redaction rest (take (i + 13) rest @ takeWhile ?P a @ redact_authorization_header t)"
      if "redaction t (redact_authorization_header t)"
      using redaction_append [OF that, of "take (i + 13) rest @ takeWhile ?P a"] rest by simp
    have 2: "redaction rest (take (i + 13) rest @ takeWhile ?P a @ takeWhile ?W t @ redact_authorization_header u)"
      if "redaction u (redact_authorization_header u)"
      using redaction_append [OF that, of "take (i + 13) rest @ takeWhile ?P a @ takeWhile ?W t"] rest t by simp
    have whole: "rest = (take (i + 13) rest @ takeWhile ?P a @ takeWhile ?W t @ takeWhile is_blank u) @
        takeWhile ?W v @ dropWhile ?W v"
      using rest t u by (metis append.assoc takeWhile_dropWhile_id)
    have 3: "redaction rest (take (i + 13) rest @ takeWhile ?P a @ takeWhile ?W t @ takeWhile is_blank u @
        redacted @ redact_authorization_header (dropWhile ?W v))"
      if "redaction (dropWhile ?W v) (redact_authorization_header (dropWhile ?W v))"
      using redaction_replace [OF whole that] by simp
    show ?thesis
      using Some IH 1 2 3
      by (subst redact_authorization_header.simps)
         (auto simp: Let_def a_def [symmetric] t_def [symmetric] u_def [symmetric] v_def [symmetric]
               simp del: takeWhile_eq_Nil_iff)
  qed
qed

lemma prefixed_run_clean:
  "unmarked pre \<Longrightarrow> is_token_char (hd pre) \<Longrightarrow> \<not> sublist pre (redact_prefixed_run pre s)"
proof (induction pre s rule: redact_prefixed_run.induct)
  case (1 pre rest)
  have ne: "pre \<noteq> []" using 1 by (simp add: unmarked_def)
  show ?case
  proof (cases "find_sub pre rest")
    case None
    with 1 ne show ?thesis
      by (subst redact_prefixed_run.simps) (simp add: None find_sub_None [symmetric])
  next
    case (Some i)
    let ?r = "redact_prefixed_run pre (dropWhile is_token_char (drop i rest))"
    have IH: "\<not> sublist pre ?r" using 1 ne Some by simp
    have "\<not> sublist pre (take i rest @ redacted @ ?r)"
    proof
      assume "sublist pre (take i rest @ redacted @ ?r)"
      moreover have "\<not> sublist pre (redacted @ ?r)"
        using IH 1 by (simp add: unmarked_sublist_redacted)
      ultimately have "sublist pre (take i rest) \<or>
          (\<exists>p1 p2. pre = p1 @ p2 \<and> suffix p1 (take i rest) \<and> prefix p2 (redacted @ ?r))"
        unfolding sublist_append [of pre "take i rest"] by blast
      then obtain x y where x: "take i rest = x @ pre @ y"
      proof
        assume "sublist pre (take i rest)"
        then show ?thesis using that by (auto simp: sublist_def)
      next
        assume "\<exists>p1 p2. pre = p1 @ p2 \<and> suffix p1 (take i rest) \<and> prefix p2 (redacted @ ?r)"
        then obtain p1 p2 where p: "pre = p1 @ p2" "suffix p1 (take i rest)" "prefix p2 (redacted @ ?r)"
          by blast
        with 1 have "p2 = []" by (cases p2) (auto simp: unmarked_def redacted_def)
        with p show ?thesis using that [of _ "[]"] by (auto simp: suffix_def)
      qed
      have "rest = x @ pre @ y @ drop i rest" using x by (metis append.assoc append_take_drop_id)
      then have "starts_with (drop (length x) rest) pre"
        by (metis append_eq_conv_conj starts_with_append)
      moreover have "length x < i" using arg_cong [OF x, of length] ne by (cases pre) auto
      ultimately show False using find_sub_Some [OF Some] by blast
    qed
    with 1 ne Some show ?thesis by (subst redact_prefixed_run.simps) simp
  qed
qed

lemma redaction_trans_sublist:
  "redaction a b \<Longrightarrow> unmarked p \<Longrightarrow> \<not> sublist p a \<Longrightarrow> \<not> sublist p b"
  using redaction_sublist by blast

lemma pem_blocks_clean: "\<not> sublist ''-----BEGIN'' (redact_pem_blocks s)"
proof (induction s rule: redact_pem_blocks.induct)
  case (1 out)
  show ?case
  proof (cases "find_sub ''-----BEGIN'' out")
    case None
    then have "redact_pem_blocks out = out" by (subst redact_pem_blocks.simps) (simp only: option.case)
    with None show ?thesis by (simp only: find_sub_None not_False_eq_True)
  next
    case (Some b)
    then have "redact_pem_blocks out =
        redact_pem_blocks (take b out @ redacted @ drop (pem_block_end (drop b out)) (drop b out))"
      by (subst redact_pem_blocks.simps) (simp only: option.case)
    with 1 [OF Some] show ?thesis by (simp only: not_False_eq_True)
  qed
qed

lemma key_values_redaction_clean:
  "unmarked p \<Longrightarrow> \<not> sublist p s \<Longrightarrow> \<not> sublist p (fold (\<lambda>key s. redact_key_value key None s) keys s)"
proof (induction keys arbitrary: s)
  case (Cons key keys)
  then show ?case using redaction_trans_sublist [OF redaction_key_value Cons.prems] by simp
qed simp

lemma redact_credentials_clean:
  "\<not> sublist ''-----BEGIN'' (redact_credentials s)"
  "\<not> sublist ''ya29.'' (redact_credentials s)"
  "\<not> sublist ''1//'' (redact_credentials s)"
proof -
  have y: "\<not> sublist ''ya29.'' (redact_prefixed_run ''ya29.'' t)" for t
    by (rule prefixed_run_clean) (simp_all add: unmarked_needles, simp add: is_token_char_def is_alnum_def
        is_lower_def byte_of_def)
  have o: "\<not> sublist ''1//'' (redact_prefixed_run ''1//'' t)" for t
    by (rule prefixed_run_clean) (simp_all add: unmarked_needles, simp add: is_token_char_def is_alnum_def
        is_digit_def byte_of_def)
  note steps = redaction_trans_sublist [OF redaction_authorization_header]
    redaction_trans_sublist [OF redaction_keyword_token] redaction_trans_sublist [OF redaction_prefixed_run]
  show "\<not> sublist ''-----BEGIN'' (redact_credentials s)"
    unfolding redact_credentials_def Let_def
    by (intro key_values_redaction_clean steps unmarked_needles pem_blocks_clean)
  show "\<not> sublist ''ya29.'' (redact_credentials s)"
    unfolding redact_credentials_def Let_def
    by (intro key_values_redaction_clean unmarked_needles redaction_trans_sublist [OF redaction_prefixed_run [of _ "''1//''"]] y)
  show "\<not> sublist ''1//'' (redact_credentials s)"
    unfolding redact_credentials_def Let_def
    by (intro key_values_redaction_clean unmarked_needles o)
qed

section \<open>Properties\<close>

text \<open>
  C26. No message shown to a user contains a PEM header, a Google access token prefix or a Google
  refresh token prefix, whatever the upstream body and the context contain.
\<close>

theorem format_user_message_redacted:
  "\<not> sublist ''-----BEGIN'' (format_user_message e ctx)
   \<and> \<not> sublist ''ya29.'' (format_user_message e ctx)
   \<and> \<not> sublist ''1//'' (format_user_message e ctx)"
  by (simp add: format_user_message_def Let_def redact_credentials_clean)

text \<open>
  The message of an authentication failure is a function of the context alone: no text of
  Google's response reaches it.
\<close>

theorem unauthenticated_message_independent:
  assumes "err_kind e = UNAUTHENTICATED" and "err_kind e' = UNAUTHENTICATED"
  shows "format_user_message e ctx = format_user_message e' ctx"
  using assms by (simp add: format_user_message_def format_base_def)

theorem unauthenticated_message_independent_witness:
  "format_user_message
     (no_error\<lparr>err_kind := UNAUTHENTICATED, message := ''Bearer abc'', http_status := 401\<rparr>) ''gdrive://a''
   = format_user_message (no_error\<lparr>err_kind := UNAUTHENTICATED\<rparr>) ''gdrive://a''"
  by (rule unauthenticated_message_independent) (simp_all add: no_error_def)

text \<open>
  An Authorization header in JSON spelling keeps its token: the quote and the colon behind the key
  are taken for the scheme, and the scheme for the value.
\<close>

theorem json_authorization_keeps_token:
  "redact_credentials (dquote # ''Authorization'' @ dquote # '': '' @ dquote # ''Bearer SECRET'' @ [dquote])
   = dquote # ''Authorization'' @ dquote # '': [redacted] SECRET'' @ [dquote]"
  by code_simp

definition rate_limit_reasons :: "string list" where
  "rate_limit_reasons = [''rateLimitExceeded'', ''userRateLimitExceeded'']"

lemma classify_from_reason_retryable:
  "classify_from_reason r = RATE_LIMIT \<longleftrightarrow> r \<in> set rate_limit_reasons"
  "classify_from_reason r \<noteq> TRANSIENT"
  "classify_from_reason [] = UNKNOWN"
  by (auto simp: classify_from_reason_def rate_limit_reasons_def)

lemma classify_from_status_retryable:
  "classify_from_status s = RATE_LIMIT \<longleftrightarrow> s = 429"
  "classify_from_status s = TRANSIENT \<longleftrightarrow> 500 \<le> s \<and> s < 600"
  by (auto simp: classify_from_status_def)

text \<open>
  A failed call counts as retryable exactly when the token has the Drive scope and the failure is
  a 429, carries a rate-limit reason, or is a server error whose reason is none the table knows.
\<close>

theorem retryable_characterised:
  "is_retryable (classify_drive_error parse status body hdr) \<longleftrightarrow>
     (let b = parse_error_body parse body in
      pb_detail_reason b \<noteq> ''ACCESS_TOKEN_SCOPE_INSUFFICIENT'' \<and>
      (status = 429 \<or> pb_reason b \<in> set rate_limit_reasons \<or>
       classify_from_reason (pb_reason b) = UNKNOWN \<and> 500 \<le> status \<and> status < 600))"
proof -
  let ?b = "parse_error_body parse body"
  show ?thesis
  proof (cases "classify_from_reason (pb_reason ?b) = UNKNOWN")
    case True
    then have "pb_reason ?b \<notin> set rate_limit_reasons"
      using classify_from_reason_retryable(1) by (metis error_kind.distinct(77))
    with True show ?thesis
      by (auto simp: classify_drive_error_def is_retryable_def Let_def classify_from_status_retryable)
  next
    case False
    then show ?thesis
      using classify_from_reason_retryable(2) [of "pb_reason ?b"] classify_from_reason_retryable(3)
      by (auto simp: classify_drive_error_def is_retryable_def Let_def classify_from_reason_retryable(1))
  qed
qed

lemma int32_of_small [simp]: "0 \<le> v \<Longrightarrow> v < 2 ^ 31 \<Longrightarrow> int32_of v = v"
  by (simp add: int32_of_def Let_def)

lemma int32_of_bounds: "- (2 ^ 31) \<le> int32_of v \<and> int32_of v < 2 ^ 31"
proof -
  have "v mod 4294967296 < 4294967296" "0 \<le> v mod 4294967296" by simp_all
  then have "v mod 4294967296 < 6442450944" "- 2147483648 \<le> v mod 4294967296" by linarith+
  then show ?thesis by (simp add: int32_of_def Let_def)
qed

lemma digit_not_blank: "is_digit c \<Longrightarrow> \<not> (c = CHR '' '' \<or> c = tab)"
  by (auto simp: is_digit_def byte_of_def)

lemma strip_blanks:
  assumes "list_all P a" "list_all P b" "s \<noteq> []" "\<not> P (hd s)" "\<not> P (last s)"
  shows "rstrip P (dropWhile P (a @ s @ b)) = s"
proof -
  have "dropWhile P (a @ s @ b) = s @ b"
    using assms by (cases s) (auto simp: list_all_iff dropWhile_append2)
  moreover have "rstrip P (s @ b) = s"
    using assms(2)
  proof (induction b rule: rev_induct)
    case Nil
    then show ?case using assms(3,5) by (cases s rule: rev_cases) auto
  next
    case (snoc x xs)
    then show ?case by (simp add: rstrip_snoc [of P "s @ xs" x, simplified])
  qed
  ultimately show ?thesis by simp
qed

text \<open>
  A Retry-After header of seconds below \<open>2^31\<close>, with any blanks around it, is read exactly.
\<close>

theorem retry_after_exact:
  assumes "n < 2 ^ 31" and "list_all is_blank a" and "list_all is_blank b"
  shows "parse_retry_after_seconds (a @ decimal n @ b) = int n"
proof -
  have d: "list_all is_digit (decimal n)" using decimal_digits by (auto simp: list_all_iff)
  then have "\<not> is_blank (hd (decimal n))" "\<not> is_blank (last (decimal n))"
    using digit_not_blank by (auto simp: list_all_iff is_blank_def)
  then have "rstrip is_blank (dropWhile is_blank (a @ decimal n @ b)) = decimal n"
    using assms by (intro strip_blanks) auto
  moreover have "is_blank = (\<lambda>c. c = CHR '' '' \<or> c = tab)" by (rule ext) (simp add: is_blank_def)
  ultimately show ?thesis
    using assms(1) d by (simp add: parse_retry_after_seconds_def Let_def)
qed

theorem retry_after_exact_witness:
  "parse_retry_after_seconds ('' '' @ decimal 120 @ ''  '') = 120"
  using retry_after_exact [of 120 "'' ''" "''  ''"] by (simp add: is_blank_def)

text \<open>
  A Retry-After header of \<open>2^31\<close> seconds or more is truncated to 32 bits and can become a negative
  wait: three thousand million seconds are read as a negative number.
\<close>

theorem retry_after_overflow:
  "parse_retry_after_seconds ''3000000000'' = - 1294967296"
proof -
  have "digits_value ''3000000000'' = 3000000000" by (simp add: digits_value_def byte_of_def)
  moreover have "list_all is_digit ''3000000000''" by (simp add: is_digit_def byte_of_def)
  ultimately show ?thesis
    by (simp add: parse_retry_after_seconds_def Let_def int32_of_def rstrip_def)
qed

end
