(* ===== verification/DriveApi.thy ===== *)
theory DriveApi
  imports Errors
begin

text \<open>
  The pure part of \<open>src/gdrive_client.cpp\<close> and the data types of \<open>src/include/gdrive_client.hpp\<close>: file
  metadata and its parsing, the call counters, URL and JSON encoding, and the request texts.
\<close>

section \<open>Metadata and counters\<close>

record drive_file_meta =
  meta_id :: string
  meta_name :: string
  mime_type :: string
  meta_size :: int
  modified_time :: string
  head_revision_id :: string

definition no_meta :: drive_file_meta where
  "no_meta = \<lparr>meta_id = [], meta_name = [], mime_type = [], meta_size = -1, modified_time = [], head_revision_id = []\<rparr>"

definition native_google_apps_prefix :: string where
  "native_google_apps_prefix = ''application/vnd.google-apps.''"

definition folder_mime_type :: string where
  "folder_mime_type = ''application/vnd.google-apps.folder''"

definition is_folder :: "drive_file_meta \<Rightarrow> bool" where
  "is_folder m \<longleftrightarrow> mime_type m = folder_mime_type"

definition is_native_google_format :: "drive_file_meta \<Rightarrow> bool" where
  "is_native_google_format m \<longleftrightarrow>
     starts_with (mime_type m) native_google_apps_prefix \<and> mime_type m \<noteq> folder_mime_type"

record drive_call_stats =
  files_get :: nat
  files_list :: nat
  files_media :: nat
  files_export :: nat
  files_create :: nat
  files_update :: nat
  files_delete :: nat
  cache_hits :: nat
  cache_misses :: nat
  retries :: nat
  auth_refresh :: nat
  token_request :: nat
  upload_chunks :: nat
  upload_status_queries :: nat
  upload_aborts :: nat
  upload_buffer_peak_bytes :: nat

definition no_calls :: drive_call_stats where
  "no_calls = \<lparr>files_get = 0, files_list = 0, files_media = 0, files_export = 0, files_create = 0,
     files_update = 0, files_delete = 0, cache_hits = 0, cache_misses = 0, retries = 0, auth_refresh = 0,
     token_request = 0, upload_chunks = 0, upload_status_queries = 0, upload_aborts = 0,
     upload_buffer_peak_bytes = 0\<rparr>"

definition total_calls :: "drive_call_stats \<Rightarrow> nat" where
  "total_calls s = files_get s + files_list s + files_media s + files_export s + files_create s +
     files_update s + files_delete s + upload_chunks s + upload_status_queries s + upload_aborts s"

text \<open>The counter a call is counted in: the pointer to member of the source.\<close>

datatype counter =
    FilesGet | FilesList | FilesMedia | FilesExport | FilesCreate | FilesUpdate | FilesDelete
  | UploadChunks | UploadStatusQueries | UploadAborts

fun record_call :: "counter \<Rightarrow> drive_call_stats \<Rightarrow> drive_call_stats" where
  "record_call FilesGet s = s\<lparr>files_get := Suc (files_get s)\<rparr>"
| "record_call FilesList s = s\<lparr>files_list := Suc (files_list s)\<rparr>"
| "record_call FilesMedia s = s\<lparr>files_media := Suc (files_media s)\<rparr>"
| "record_call FilesExport s = s\<lparr>files_export := Suc (files_export s)\<rparr>"
| "record_call FilesCreate s = s\<lparr>files_create := Suc (files_create s)\<rparr>"
| "record_call FilesUpdate s = s\<lparr>files_update := Suc (files_update s)\<rparr>"
| "record_call FilesDelete s = s\<lparr>files_delete := Suc (files_delete s)\<rparr>"
| "record_call UploadChunks s = s\<lparr>upload_chunks := Suc (upload_chunks s)\<rparr>"
| "record_call UploadStatusQueries s = s\<lparr>upload_status_queries := Suc (upload_status_queries s)\<rparr>"
| "record_call UploadAborts s = s\<lparr>upload_aborts := Suc (upload_aborts s)\<rparr>"

fun trace_kind :: "counter \<Rightarrow> string" where
  "trace_kind FilesGet = ''files.get''"
| "trace_kind FilesList = ''files.list''"
| "trace_kind FilesMedia = ''files.media''"
| "trace_kind FilesExport = ''files.export''"
| "trace_kind FilesCreate = ''files.create''"
| "trace_kind FilesUpdate = ''files.update''"
| "trace_kind FilesDelete = ''files.delete''"
| "trace_kind UploadChunks = ''upload.chunk''"
| "trace_kind UploadAborts = ''upload.cancel''"
| "trace_kind UploadStatusQueries = ''upload.status''"

definition record_upload_buffer_peak :: "nat \<Rightarrow> drive_call_stats \<Rightarrow> drive_call_stats" where
  "record_upload_buffer_peak bytes s =
     (if bytes > upload_buffer_peak_bytes s then s\<lparr>upload_buffer_peak_bytes := bytes\<rparr> else s)"

section \<open>Encoding\<close>

definition is_unreserved :: "char \<Rightarrow> bool" where
  "is_unreserved c \<longleftrightarrow> is_alnum c \<or> c = CHR ''-'' \<or> c = CHR ''_'' \<or> c = CHR ''.'' \<or> c = CHR 0x7E"

definition hex_upper :: "nat \<Rightarrow> char" where
  "hex_upper d = ''0123456789ABCDEF'' ! d"

definition hex_lower :: "nat \<Rightarrow> char" where
  "hex_lower d = ''0123456789abcdef'' ! d"

definition url_encode_char :: "char \<Rightarrow> string" where
  "url_encode_char c =
     (if is_unreserved c then [c]
      else [CHR ''%'', hex_upper (byte_of c div 16 mod 16), hex_upper (byte_of c mod 16)])"

definition url_encode :: "string \<Rightarrow> string" where
  "url_encode value = concat (map url_encode_char value)"

definition file_fields_mask :: string where
  "file_fields_mask = ''id,name,mimeType,size,modifiedTime,headRevisionId''"

definition list_fields_mask :: string where
  "list_fields_mask = ''nextPageToken,files('' @ file_fields_mask @ '')''"

definition build_range_header :: "int \<Rightarrow> int \<Rightarrow> string" where
  "build_range_header start end' =
     ''bytes='' @ decimal_int start @ ''-'' @ (if end' \<ge> 0 then decimal_int end' else [])"

definition all_drives_params :: string where
  "all_drives_params = ''supportsAllDrives=true&includeItemsFromAllDrives=true''"

text \<open>\<open>JsonEscape\<close>; the \<open>%04x\<close> of a control character prints four lower-case digits.\<close>

definition json_escape_char :: "char \<Rightarrow> string" where
  "json_escape_char c =
     (if c = dquote then [backslash, dquote]
      else if c = backslash then [backslash, backslash]
      else if c = newline then [backslash, CHR ''n'']
      else if c = creturn then [backslash, CHR ''r'']
      else if c = tab then [backslash, CHR ''t'']
      else if byte_of c < 32 then
        [backslash, CHR ''u'', CHR ''0'', CHR ''0'', hex_lower (byte_of c div 16), hex_lower (byte_of c mod 16)]
      else [c])"

definition json_escape :: "string \<Rightarrow> string" where
  "json_escape s = concat (map json_escape_char s)"

definition crlf :: string where "crlf = [creturn, newline]"

definition octet_stream :: string where "octet_stream = ''application/octet-stream''"

definition build_multipart_body :: "string \<Rightarrow> string \<Rightarrow> string \<Rightarrow> string \<Rightarrow> string" where
  "build_multipart_body boundary metadata_json content_type data =
     ''--'' @ boundary @ crlf @
     ''Content-Type: application/json; charset=UTF-8'' @ crlf @ crlf @
     metadata_json @ crlf @
     ''--'' @ boundary @ crlf @
     ''Content-Type: '' @ (if content_type = [] then octet_stream else content_type) @ crlf @ crlf @
     data @ crlf @
     ''--'' @ boundary @ ''--'' @ crlf"

section \<open>Parsing the answers\<close>

definition get_string :: "json_object \<Rightarrow> string \<Rightarrow> string \<Rightarrow> string" where
  "get_string obj key dflt = (case string_member obj key of Some s \<Rightarrow> s | None \<Rightarrow> dflt)"

text \<open>\<open>strtoll\<close>: leading blanks, a sign, digits; \<open>None\<close> when there is no digit or the value overflows.\<close>

definition strtoll :: "string \<Rightarrow> int option" where
  "strtoll s =
     (let t = dropWhile is_space s;
          neg = (t \<noteq> [] \<and> hd t = CHR ''-'');
          u = (if t \<noteq> [] \<and> (hd t = CHR ''-'' \<or> hd t = CHR ''+'') then tl t else t);
          ds = takeWhile is_digit u;
          v = (if neg then - int (digits_value ds) else int (digits_value ds)) in
      if ds = [] \<or> v < - (2 ^ 63) \<or> v > 2 ^ 63 - 1 then None else Some v)"

definition get_int64_from_string :: "json_object \<Rightarrow> string \<Rightarrow> int option" where
  "get_int64_from_string obj key =
     (case string_member obj key of
        None \<Rightarrow> None
      | Some s \<Rightarrow> if s = [] then None else strtoll s)"

definition parse_file_meta_object :: "json_object \<Rightarrow> drive_file_meta option" where
  "parse_file_meta_object obj =
     (case string_member obj ''id'' of
        None \<Rightarrow> None
      | Some i \<Rightarrow> Some
          \<lparr>meta_id = i,
           meta_name = get_string obj ''name'' [],
           mime_type = get_string obj ''mimeType'' [],
           meta_size = (case get_int64_from_string obj ''size'' of Some v \<Rightarrow> v | None \<Rightarrow> -1),
           modified_time = get_string obj ''modifiedTime'' [],
           head_revision_id = get_string obj ''headRevisionId'' []\<rparr>)"

definition parse_generated_file_id :: "json_parser \<Rightarrow> string \<Rightarrow> string option" where
  "parse_generated_file_id parse body =
     (case parse_object parse body of
        None \<Rightarrow> None
      | Some obj \<Rightarrow>
          (case array_member obj ''ids'' of
             Some (JString i # _) \<Rightarrow> if i = [] then None else Some i
           | _ \<Rightarrow> None))"

definition parse_file_meta :: "json_parser \<Rightarrow> string \<Rightarrow> drive_file_meta option" where
  "parse_file_meta parse body =
     (case parse_object parse body of None \<Rightarrow> None | Some obj \<Rightarrow> parse_file_meta_object obj)"

fun parse_file_entries :: "json list \<Rightarrow> drive_file_meta list" where
  "parse_file_entries [] = []"
| "parse_file_entries (JObject obj # rest) =
     (case parse_file_meta_object obj of
        Some m \<Rightarrow> m # parse_file_entries rest | None \<Rightarrow> parse_file_entries rest)"
| "parse_file_entries (_ # rest) = parse_file_entries rest"

text \<open>The files and the next page token; a body without \<open>files\<close> is an empty listing.\<close>

definition parse_file_list :: "json_parser \<Rightarrow> string \<Rightarrow> (drive_file_meta list \<times> string) option" where
  "parse_file_list parse body =
     (case parse_object parse body of
        None \<Rightarrow> None
      | Some obj \<Rightarrow>
          let next_page = get_string obj ''nextPageToken'' [] in
          (case map_of obj ''files'' of
             None \<Rightarrow> Some ([], next_page)
           | Some (JArray arr) \<Rightarrow> Some (parse_file_entries arr, next_page)
           | Some _ \<Rightarrow> None))"

text \<open>The listing \<open>List\<close> serialises again after following every page.\<close>

definition meta_to_json :: "drive_file_meta \<Rightarrow> json" where
  "meta_to_json f = JObject
     ([(''id'', JString (meta_id f)), (''name'', JString (meta_name f)), (''mimeType'', JString (mime_type f))] @
      (if meta_size f \<ge> 0 then [(''size'', JString (decimal_int (meta_size f)))] else []) @
      [(''modifiedTime'', JString (modified_time f)), (''headRevisionId'', JString (head_revision_id f))])"

definition listing_to_json :: "drive_file_meta list \<Rightarrow> json" where
  "listing_to_json fs = JObject [(''files'', JArray (map meta_to_json fs))]"

section \<open>Reference decoders\<close>

definition hex_value :: "char \<Rightarrow> nat" where
  "hex_value c = (if is_digit c then byte_of c - 48 else if is_upper c then byte_of c - 55 else byte_of c - 87)"

fun url_decode :: "string \<Rightarrow> string" where
  "url_decode [] = []"
| "url_decode (c # s) =
     (if c = CHR ''%'' then
        (case s of a # b # r \<Rightarrow> char_of (16 * hex_value a + hex_value b) # url_decode r | _ \<Rightarrow> [])
      else c # url_decode s)"

text \<open>The value of a JSON string and the text behind its closing quote.\<close>

fun json_read :: "string \<Rightarrow> (string \<times> string) option" where
  "json_read [] = None"
| "json_read (c # s) =
     (if c = dquote then Some ([], s)
      else if byte_of c < 32 then None
      else if c \<noteq> backslash then map_option (\<lambda>(v, r). (c # v, r)) (json_read s)
      else case s of
        [] \<Rightarrow> None
      | e # t \<Rightarrow>
          if e = CHR ''u'' then
            (case t of
               a # b # x # y # r \<Rightarrow>
                 if a = CHR ''0'' \<and> b = CHR ''0'' then
                   map_option (\<lambda>(v, r). (char_of (16 * hex_value x + hex_value y) # v, r)) (json_read r)
                 else None
             | _ \<Rightarrow> None)
          else
            let d = (if e = CHR ''n'' then newline else if e = CHR ''r'' then creturn
                     else if e = CHR ''t'' then tab else if e = CHR ''b'' then CHR 0x08
                     else if e = CHR ''f'' then CHR 0x0C else e) in
            map_option (\<lambda>(v, r). (d # v, r)) (json_read t))"

lemma hex_value_upper [simp]: "d < 16 \<Longrightarrow> hex_value (hex_upper d) = d"
  by (auto simp: numeral_eq_Suc less_Suc_eq hex_upper_def hex_value_def is_digit_def is_upper_def byte_of_def)

lemma hex_value_lower [simp]: "d < 16 \<Longrightarrow> hex_value (hex_lower d) = d"
  by (auto simp: numeral_eq_Suc less_Suc_eq hex_lower_def hex_value_def is_digit_def is_upper_def byte_of_def)

lemma hex_upper_unreserved: "d < 16 \<Longrightarrow> is_unreserved (hex_upper d)"
  by (auto simp: numeral_eq_Suc less_Suc_eq hex_upper_def is_unreserved_def is_alnum_def is_digit_def
      is_upper_def byte_of_def)

lemma char_of_byte_of [simp]: "char_of (byte_of c) = c"
  by (simp add: byte_of_def)

lemma char_of_nibbles: "16 * (byte_of c div 16 mod 16) + byte_of c mod 16 = byte_of c"
proof -
  have "byte_of c div 16 < 16" using byte_of_less [of c] by linarith
  then have "byte_of c div 16 mod 16 = byte_of c div 16" by (rule mod_less)
  then show ?thesis by (simp only: mult_div_mod_eq)
qed

lemma percent_not_unreserved: "is_unreserved c \<Longrightarrow> c \<noteq> CHR ''%''"
  by (auto simp: is_unreserved_def is_alnum_def is_digit_def is_upper_def is_lower_def byte_of_def)

lemma url_decode_encode_char: "url_decode (url_encode_char c @ r) = c # url_decode r"
  using percent_not_unreserved [of c] by (simp add: url_encode_char_def char_of_nibbles)

lemma json_read_escape_char:
  "json_read (json_escape_char c @ r) = map_option (\<lambda>(v, t). (c # v, t)) (json_read r)"
proof -
  have n: "16 * (byte_of c div 16) + byte_of c mod 16 = byte_of c" by (simp only: mult_div_mod_eq)
  have "byte_of newline = 10" "byte_of creturn = 13" "byte_of tab = 9" "byte_of backslash = 92"
    by (simp_all add: byte_of_def)
  with n show ?thesis
    by (simp add: json_escape_char_def Let_def)
qed

lemma url_decode_encode: "url_decode (url_encode s) = s"
  by (induction s) (simp_all add: url_encode_def url_decode_encode_char)

lemma url_encode_inject: "url_encode s = url_encode t \<longleftrightarrow> s = t"
  by (metis url_decode_encode)

text \<open>
  A value put into a URL decodes to itself and consists of unreserved characters and percent
  escapes only, so that no file name or query changes the structure of a request.
\<close>

theorem url_encode_roundtrip:
  "url_decode (url_encode s) = s \<and> list_all (\<lambda>c. is_unreserved c \<or> c = CHR ''%'') (url_encode s)"
proof (induction s)
  case (Cons c s)
  have "list_all (\<lambda>c. is_unreserved c \<or> c = CHR ''%'') (url_encode_char c)"
    by (simp add: url_encode_char_def hex_upper_unreserved)
  with Cons show ?case by (simp add: url_encode_def url_decode_encode_char)
qed (simp add: url_encode_def)

text \<open>
  A name or id put into a JSON request body is read back as itself, and the string ends where the
  request closes it: no name can add a member to the request.
\<close>

theorem json_escape_roundtrip:
  "json_read (json_escape s @ dquote # rest) = Some (s, rest)"
proof (induction s)
  case (Cons c s)
  then show ?case by (simp add: json_escape_def json_read_escape_char)
qed (simp add: json_escape_def)

section \<open>Listings survive being serialised again\<close>

lemma strtoll_decimal: "0 \<le> v \<Longrightarrow> v < 2 ^ 63 \<Longrightarrow> strtoll (decimal_int v) = Some v"
proof -
  assume v: "0 \<le> v" "v < 2 ^ 63"
  let ?d = "decimal (nat v)"
  have d: "\<forall>c\<in>set ?d. is_digit c" using decimal_digits by blast
  obtain c s where cs: "?d = c # s" by (meson decimal_not_Nil neq_Nil_conv)
  with d have c: "is_digit c" by simp
  then have "\<not> is_space c" "c \<noteq> CHR ''-''" "c \<noteq> CHR ''+''"
    by (auto simp: is_digit_def is_space_def byte_of_def)
  moreover have "takeWhile is_digit ?d = ?d" using d by (simp add: takeWhile_eq_all_conv)
  ultimately show ?thesis using v cs digits_value_decimal [of "nat v"]
    by (simp add: strtoll_def decimal_int_def Let_def)
qed

definition wf_meta :: "drive_file_meta \<Rightarrow> bool" where
  "wf_meta m \<longleftrightarrow> -1 \<le> meta_size m \<and> meta_size m < 2 ^ 63"

lemma parse_meta_to_json:
  assumes "wf_meta m"
  shows "\<exists>obj. meta_to_json m = JObject obj \<and> parse_file_meta_object obj = Some m"
proof -
  have "decimal_int (meta_size m) \<noteq> []" by (simp add: decimal_int_def)
  then show ?thesis using assms strtoll_decimal [of "meta_size m"]
    by (auto simp: meta_to_json_def parse_file_meta_object_def get_string_def string_member_def
        get_int64_from_string_def wf_meta_def split: option.splits)
qed

lemma parse_file_entries_json:
  "list_all wf_meta fs \<Longrightarrow> parse_file_entries (map meta_to_json fs) = fs"
proof (induction fs)
  case (Cons f fs)
  with parse_meta_to_json [of f] show ?case by auto
qed simp

lemma parse_file_list_listing:
  assumes "list_all wf_meta fs" and "parse body = Some (listing_to_json fs)"
  shows "parse_file_list parse body = Some (fs, [])"
  using assms parse_file_entries_json [of fs]
  by (simp add: parse_file_list_def parse_object_def listing_to_json_def get_string_def string_member_def)

end
