(* ===== verification/TokenPolicy.thy ===== *)
theory TokenPolicy
  imports Prelude "HOL-Library.Word"
begin

text \<open>
  \<open>src/gdrive_token_policy.cpp\<close>: when a cached access token is used, what happens after Drive
  rejects one, and whether the rejected request is sent again. Times are \<open>int64_t\<close> Unix seconds and
  are kept as 64-bit words; \<open>+\<close> and \<open>-\<close> wrap and the comparisons are the signed ones.
\<close>

type_synonym int64 = "64 word"

definition int64_max :: int64 where "int64_max = 0x7FFFFFFFFFFFFFFF"

definition token_refresh_slack_seconds :: int64 where "token_refresh_slack_seconds = 60"

definition unknown_expiry :: int64 where "unknown_expiry = int64_max"

record cached_token_state =
  access_token :: string
  expires_at_unix :: int64
  minted_at_unix :: int64

definition saturating_add :: "int64 \<Rightarrow> int64 \<Rightarrow> int64" where
  "saturating_add a b = (if int64_max - b <s a then int64_max else a + b)"

definition token_is_fresh :: "cached_token_state \<Rightarrow> int64 \<Rightarrow> int64 \<Rightarrow> bool" where
  "token_is_fresh token now_unix max_age_seconds =
     (let horizon = saturating_add now_unix token_refresh_slack_seconds in
      if expires_at_unix token \<le>s horizon then False
      else max_age_seconds \<le>s 0 \<or> horizon <s saturating_add (minted_at_unix token) max_age_seconds)"

definition normalize_max_age_seconds :: "int64 \<Rightarrow> int64 option" where
  "normalize_max_age_seconds requested =
     (if requested <s 0 then None
      else Some (if 0 <s requested \<and> requested \<le>s token_refresh_slack_seconds
                 then token_refresh_slack_seconds + 1 else requested))"

datatype rejection_action = REUSE_CACHED | MINT | GIVE_UP

text \<open>The pair \<open>has_cached\<close>, \<open>cached\<close> of the source is an option.\<close>

definition decide_after_rejection ::
    "cached_token_state option \<Rightarrow> string \<Rightarrow> int64 \<Rightarrow> int64 \<Rightarrow> bool \<Rightarrow> rejection_action" where
  "decide_after_rejection cached rejected now_unix max_age_seconds can_mint =
     (let mint = (if can_mint then MINT else GIVE_UP) in
      case cached of
        None \<Rightarrow> mint
      | Some t \<Rightarrow>
          if access_token t \<noteq> rejected \<and> token_is_fresh t now_unix max_age_seconds then REUSE_CACHED
          else mint)"

definition should_resend_after_401 :: "bool \<Rightarrow> string \<Rightarrow> string \<Rightarrow> bool" where
  "should_resend_after_401 already_refreshed rejected replacement \<longleftrightarrow>
     \<not> already_refreshed \<and> replacement \<noteq> [] \<and> replacement \<noteq> rejected"

section \<open>Signed arithmetic\<close>

lemma sint_range64: "- (2 ^ 63) \<le> sint (x :: int64)" "sint (x :: int64) < 2 ^ 63"
  using sint_ge [of x] sint_lt [of x] by simp_all

lemma sint_int64_max [simp]: "sint int64_max = 2 ^ 63 - 1"
  by (simp add: int64_max_def)

lemma sint_slack [simp]: "sint token_refresh_slack_seconds = 60"
  by (simp add: token_refresh_slack_seconds_def)

lemma sint_in_range64: "- (2 ^ 63) \<le> v \<Longrightarrow> v < 2 ^ 63 \<Longrightarrow> sint (word_of_int v :: int64) = v"
  by (simp add: sint_sbintrunc' signed_take_bit_int_eq_self)

lemma sint_add64:
  "- (2 ^ 63) \<le> sint a + sint b \<Longrightarrow> sint a + sint b < 2 ^ 63 \<Longrightarrow> sint (a + b :: int64) = sint a + sint b"
  using sint_in_range64 [of "sint a + sint b"] by (simp add: of_int_sint)

lemma sint_sub64:
  "- (2 ^ 63) \<le> sint a - sint b \<Longrightarrow> sint a - sint b < 2 ^ 63 \<Longrightarrow> sint (a - b :: int64) = sint a - sint b"
  using sint_in_range64 [of "sint a - sint b"] by (simp add: of_int_sint)

lemma sint_saturating_add:
  assumes "0 \<le> sint b"
  shows "sint (saturating_add a b) = min (2 ^ 63 - 1) (sint a + sint b)"
proof -
  have m: "sint (int64_max - b) = 2 ^ 63 - 1 - sint b"
    using assms sint_range64 [of b] by (subst sint_sub64) simp_all
  show ?thesis
  proof (cases "int64_max - b <s a")
    case True
    then show ?thesis using m by (simp add: saturating_add_def word_sless_alt)
  next
    case False
    then have "sint a + sint b < 2 ^ 63" using m by (simp add: word_sless_alt)
    then have "sint (a + b) = sint a + sint b"
      using assms sint_range64 [of a] by (intro sint_add64) simp_all
    with False \<open>sint a + sint b < 2 ^ 63\<close> show ?thesis by (simp add: saturating_add_def)
  qed
qed

text \<open>The instant until which a token has to last, and its freshness, over the integers.\<close>

definition horizon_of :: "int64 \<Rightarrow> int" where
  "horizon_of now_unix = min (2 ^ 63 - 1) (sint now_unix + 60)"

lemma token_is_fresh_iff:
  "token_is_fresh token now_unix cap \<longleftrightarrow>
     horizon_of now_unix < sint (expires_at_unix token) \<and>
     (sint cap \<le> 0 \<or> horizon_of now_unix < min (2 ^ 63 - 1) (sint (minted_at_unix token) + sint cap))"
proof -
  have h: "sint (saturating_add now_unix token_refresh_slack_seconds) = horizon_of now_unix"
    by (subst sint_saturating_add) (simp_all add: horizon_of_def)
  show ?thesis
    by (cases "sint cap \<le> 0")
       (auto simp: token_is_fresh_def Let_def h word_sle_eq word_sless_alt sint_saturating_add)
qed

section \<open>Properties\<close>

text \<open>
  Adding a non-negative number of seconds never wraps into the past: the result is the
  mathematical sum, cut off at the largest \<open>int64_t\<close>.
\<close>

theorem saturating_add_exact:
  assumes "0 \<le>s b"
  shows "sint (saturating_add a b) = min (2 ^ 63 - 1) (sint a + sint b)"
  using assms by (intro sint_saturating_add) (simp add: word_sle_eq)

theorem saturating_add_exact_witness:
  "sint (saturating_add int64_max 5) = 2 ^ 63 - 1"
  using saturating_add_exact [of 5 int64_max] by (simp add: word_sle_eq)

text \<open>
  A cap that the setting accepts never makes a token stale at the moment it is minted: such a
  token is fresh exactly when its own lifetime exceeds the refresh slack.
\<close>

theorem minted_token_is_fresh:
  assumes "normalize_max_age_seconds requested = Some cap" and "minted_at_unix t = now_unix"
  shows "token_is_fresh t now_unix cap \<longleftrightarrow> sint now_unix + 60 < sint (expires_at_unix t)"
proof -
  have "sint cap = (if 0 < sint requested \<and> sint requested \<le> 60 then 61 else sint requested) \<and> 0 \<le> sint requested"
    using assms(1)
    by (auto simp: normalize_max_age_seconds_def word_sle_eq word_sless_alt split: if_splits)
       (simp_all add: token_refresh_slack_seconds_def)
  then have "sint cap \<le> 0 \<or> 61 \<le> sint cap" by (auto split: if_splits)
  then show ?thesis
    using assms(2) sint_range64 [of "expires_at_unix t"]
    by (auto simp: token_is_fresh_iff horizon_of_def min_def)
qed

theorem minted_token_is_fresh_witness:
  "token_is_fresh \<lparr>access_token = ''t'', expires_at_unix = 4600, minted_at_unix = 1000\<rparr> 1000 61"
  using minted_token_is_fresh
    [of 30 61 "\<lparr>access_token = ''t'', expires_at_unix = 4600, minted_at_unix = 1000\<rparr>" 1000]
  by (simp add: normalize_max_age_seconds_def word_sle_eq word_sless_alt token_refresh_slack_seconds_def)

text \<open>
  After a rejection the client never goes on with the token that was rejected and never with one
  that lasts less than the slack; without a way to mint it gives up rather than try again.
\<close>

theorem rejection_never_reuses_rejected:
  "case decide_after_rejection cached rejected now_unix cap can_mint of
     REUSE_CACHED \<Rightarrow> (\<exists>t. cached = Some t \<and> access_token t \<noteq> rejected \<and> token_is_fresh t now_unix cap
                       \<and> horizon_of now_unix < sint (expires_at_unix t))
   | MINT \<Rightarrow> can_mint
   | GIVE_UP \<Rightarrow> \<not> can_mint"
  by (auto simp: decide_after_rejection_def Let_def token_is_fresh_iff split: option.splits)

end
