(* ===== verification/UploadPlan.thy ===== *)
theory UploadPlan
  imports Prelude
begin

text \<open>
  \<open>src/gdrive_upload_plan.cpp\<close>: the chunk buffer of a streaming write, the headers of the
  resumable-upload protocol and the state machine that decides, reply by reply, how one chunk goes
  on. Sizes and offsets are \<open>uint64_t\<close> values, kept as \<open>nat\<close> with the additions of the source wrapping.
\<close>

definition drive_upload_chunk_multiple :: nat where "drive_upload_chunk_multiple = 262144"
definition drive_upload_chunk_max :: nat where "drive_upload_chunk_max = 4096 * drive_upload_chunk_multiple"
definition max_chunk_attempts :: nat where "max_chunk_attempts = 5"

definition normalize_drive_chunk_size :: "nat \<Rightarrow> nat" where
  "normalize_drive_chunk_size requested =
     (if requested > drive_upload_chunk_max then drive_upload_chunk_max
      else let rounded = (requested div drive_upload_chunk_multiple) * drive_upload_chunk_multiple in
           if rounded = 0 then drive_upload_chunk_multiple else rounded)"

text \<open>
  \<open>ParseDigits\<close>: at most 19 digits; \<open>k\<close> counts the digits read. The result carries the text behind the
  digits.
\<close>

fun parse_digits :: "nat \<Rightarrow> nat \<Rightarrow> string \<Rightarrow> (nat \<times> string) option" where
  "parse_digits k v [] = (if k = 0 then None else Some (v, []))"
| "parse_digits k v (c # cs) =
     (if is_digit c then
        (if k \<ge> 19 then None else parse_digits (Suc k) ((v * 10 + (byte_of c - 48)) mod 2 ^ 64) cs)
      else if k = 0 then None else Some (v, c # cs))"

definition parse_drive_range_next :: "string \<Rightarrow> nat option" where
  "parse_drive_range_next range_header =
     (if range_header = [] then Some 0
      else if \<not> starts_with range_header ''bytes='' then None
      else case parse_digits 0 0 (drop 6 range_header) of
        Some (first, c # rest) \<Rightarrow>
          if c \<noteq> CHR ''-'' then None
          else (case parse_digits 0 0 rest of
             Some (last_byte, []) \<Rightarrow>
               if last_byte < first then None
               else if first \<noteq> 0 \<or> last_byte = u64_max then None
               else Some (last_byte + 1)
           | _ \<Rightarrow> None)
      | _ \<Rightarrow> None)"

definition drive_origin :: string where "drive_origin = ''https://www.googleapis.com/''"

definition drive_session_path :: "string \<Rightarrow> string option" where
  "drive_session_path session_uri =
     (if length session_uri \<le> length drive_origin \<or> \<not> starts_with session_uri drive_origin then None
      else Some (drop (length drive_origin - 1) session_uri))"

section \<open>\<open>ChunkedUploadBuffer\<close>\<close>

record upload_buffer =
  chunk :: nat
  pending :: string
  offset :: nat
  peak :: nat
  sent_any :: bool

definition new_upload_buffer :: "nat \<Rightarrow> upload_buffer" where
  "new_upload_buffer chunk_bytes =
     \<lparr>chunk = normalize_drive_chunk_size chunk_bytes, pending = [], offset = 0, peak = 0, sent_any = False\<rparr>"

definition buf_full :: "upload_buffer \<Rightarrow> bool" where
  "buf_full b \<longleftrightarrow> length (pending b) \<ge> chunk b"

definition buf_total :: "upload_buffer \<Rightarrow> nat" where
  "buf_total b = u64_add (offset b) (length (pending b))"

text \<open>\<open>Fill\<close>: the number of bytes taken and the new buffer.\<close>

definition buf_fill :: "upload_buffer \<Rightarrow> string \<Rightarrow> nat \<times> upload_buffer" where
  "buf_fill b data =
     (let room = chunk b - min (chunk b) (length (pending b));
          taken = min room (length data) in
      (taken,
       if taken > 0 then
         b\<lparr>pending := pending b @ take taken data,
           peak := max (peak b) (length (pending b @ take taken data))\<rparr>
       else b))"

definition mark_chunk_sent :: "upload_buffer \<Rightarrow> upload_buffer" where
  "mark_chunk_sent b =
     b\<lparr>offset := u64_add (offset b) (length (pending b)), pending := [], sent_any := True\<rparr>"

datatype close_action = SINGLE_REQUEST | FINAL_CHUNK

definition on_close :: "upload_buffer \<Rightarrow> close_action" where
  "on_close b = (if sent_any b then FINAL_CHUNK else SINGLE_REQUEST)"

definition content_range :: "upload_buffer \<Rightarrow> bool \<Rightarrow> nat \<Rightarrow> string" where
  "content_range b final skip =
     (let start = u64_add (offset b) skip;
          end' = u64_sub (u64_add (offset b) (length (pending b))) 1 in
      ''bytes '' @ decimal start @ ''-'' @ decimal end' @ ''/'' @
      (if final then decimal (buf_total b) else ''*''))"

definition resume_skip :: "upload_buffer \<Rightarrow> nat \<Rightarrow> nat option" where
  "resume_skip b next_expected =
     (if next_expected < offset b \<or> next_expected > buf_total b then None
      else Some (next_expected - offset b))"

section \<open>The per-chunk state machine\<close>

record upload_reply =
  reply_transport_ok :: bool
  reply_status :: int
  reply_range :: string
  reply_retryable :: bool

record chunk_state =
  skip :: nat
  stalls :: nat
  failures :: nat
  final_maybe_sent :: bool

definition fresh_chunk_state :: chunk_state where
  "fresh_chunk_state = \<lparr>skip = 0, stalls = 0, failures = 0, final_maybe_sent = False\<rparr>"

datatype step_kind = DONE | ACCEPTED | SEND | ASK_STATUS | FAIL

record upload_step =
  step_kind :: step_kind
  backoff :: bool
  ambiguous :: bool
  step_error :: string

definition first_step :: upload_step where
  "first_step = \<lparr>step_kind = SEND, backoff = False, ambiguous = False, step_error = []\<rparr>"

text \<open>The lambda \<open>fail\<close>; \<open>backoff\<close> keeps what the step has at that point.\<close>

definition fail_step :: "bool \<Rightarrow> bool \<Rightarrow> chunk_state \<Rightarrow> string \<Rightarrow> upload_step" where
  "fail_step bo final st why =
     \<lparr>step_kind = FAIL, backoff = bo, ambiguous = final \<and> final_maybe_sent st, step_error = why\<rparr>"

text \<open>A 308: the session says what it holds.\<close>

definition on_resume_incomplete ::
    "upload_buffer \<Rightarrow> bool \<Rightarrow> chunk_state \<Rightarrow> string \<Rightarrow> upload_step \<times> chunk_state" where
  "on_resume_incomplete buf final st range_header =
     (let held = length (pending buf) in
      case parse_drive_range_next range_header of
        None \<Rightarrow> (fail_step False final st
          ''resumable upload: Drive answered with a Range header that is not \"bytes=0-N\"'', st)
      | Some next \<Rightarrow>
      (case resume_skip buf next of
        None \<Rightarrow> (fail_step False final st
          (''resumable upload: Drive reports holding bytes outside the chunk still in memory; the '' @
           ''upload cannot be resumed''), st)
      | Some sk \<Rightarrow>
          let progress = (sk > skip st \<or> sk = held \<and> \<not> final);
              st = (if progress then st\<lparr>stalls := 0\<rparr> else st\<lparr>stalls := Suc (stalls st)\<rparr>) in
          if \<not> progress \<and> stalls st > max_chunk_attempts then
            (fail_step False final st ''resumable upload made no progress after repeated attempts'', st)
          else
            let bo = (stalls st > 0); st = st\<lparr>skip := sk\<rparr> in
            if sk = held \<and> \<not> final then
              (\<lparr>step_kind = ACCEPTED, backoff = bo, ambiguous = False, step_error = []\<rparr>, st)
            else if \<not> final \<and> sk < held \<and> (u64_add (offset buf) sk) mod drive_upload_chunk_multiple \<noteq> 0 then
              (fail_step bo final st
                (''resumable upload: Drive acknowledged a non-final chunk up to a byte that is not a '' @
                 ''multiple of 256 KiB; the rest cannot be sent as a valid chunk''), st)
            else (\<lparr>step_kind = SEND, backoff = bo, ambiguous = False, step_error = []\<rparr>, st)))"

definition next_upload_step ::
    "upload_buffer \<Rightarrow> bool \<Rightarrow> chunk_state \<Rightarrow> upload_reply \<Rightarrow> upload_step \<times> chunk_state" where
  "next_upload_step buf final st reply =
     (if reply_transport_ok reply \<and> (reply_status reply = 200 \<or> reply_status reply = 201) then
        (if \<not> final then
           (fail_step False final st
              ''resumable upload: Drive completed the upload before its final chunk'', st)
         else (\<lparr>step_kind = DONE, backoff = False, ambiguous = False, step_error = []\<rparr>, st))
      else if reply_transport_ok reply \<and> reply_status reply = 308 then
        on_resume_incomplete buf final st (reply_range reply)
      else
        let retryable = (\<not> reply_transport_ok reply \<or> reply_retryable reply);
            st = (if final \<and> (\<not> reply_transport_ok reply \<or> reply_status reply \<ge> 500)
                  then st\<lparr>final_maybe_sent := True\<rparr> else st);
            st = (if retryable then st\<lparr>failures := Suc (failures st)\<rparr> else st) in
        if retryable \<and> failures st \<le> max_chunk_attempts then
          (\<lparr>step_kind = ASK_STATUS, backoff = True, ambiguous = False, step_error = []\<rparr>, st)
        else if \<not> reply_transport_ok reply then
          (fail_step False final st
             ''network transport failure uploading a chunk (no response from Drive)'', st)
        else
          (fail_step False final st
             (''resumable upload chunk rejected with HTTP '' @ decimal_int (reply_status reply)), st))"

section \<open>The write loop\<close>

text \<open>
  The loop of \<open>GDriveFileSystem::Write\<close>: a full chunk is sent only once more bytes arrive. \<open>send\<close> is
  \<open>SendUploadChunk\<close> on the pending chunk; a chunk that was accepted is then marked as sent. The result
  is the buffer, the state of the outside and the exception, if any. A buffer with chunk size zero,
  on which the loop of the source would not end, is never constructed (\<open>normalize_drive_chunk_size\<close>).
\<close>

function write_loop ::
    "(upload_buffer \<Rightarrow> 's \<Rightarrow> unit outcome \<times> 's) \<Rightarrow> upload_buffer \<Rightarrow> 's \<Rightarrow> string \<Rightarrow>
     unit outcome \<times> upload_buffer \<times> 's" where
  "write_loop send buf s data =
     (if data = [] \<or> chunk buf = 0 then (Inr (), buf, s)
      else if buf_full buf then
        (case send buf s of
           (Inl e, s') \<Rightarrow> (Inl e, buf, s')
         | (Inr _, s') \<Rightarrow>
             let filled = buf_fill (mark_chunk_sent buf) data in
             write_loop send (snd filled) s' (drop (fst filled) data))
      else
        let filled = buf_fill buf data in
        write_loop send (snd filled) s (drop (fst filled) data))"
  by pat_completeness auto
termination
  by (relation "measure (\<lambda>(send, buf, s, data). length data)")
     (auto simp: buf_fill_def mark_chunk_sent_def buf_full_def Let_def)

declare write_loop.simps [simp del]

section \<open>Lemmas\<close>

lemma byte_of_is_digit: "is_digit c \<Longrightarrow> byte_of c - 48 < 10"
  by (auto simp: is_digit_def)

lemma pow10_19: "k \<le> 19 \<Longrightarrow> (10::nat) ^ k < 2 ^ 64"
  using power_increasing [of k 19 "10::nat"] by simp

lemma parse_digits_append:
  assumes "list_all is_digit ds" "k + length ds \<le> 19" "v < 10 ^ k" "0 < k + length ds"
    "rest = [] \<or> \<not> is_digit (hd rest)"
  shows "parse_digits k v (ds @ rest) = Some (foldl (\<lambda>v c. v * 10 + (byte_of c - 48)) v ds, rest)"
  using assms
proof (induction ds arbitrary: k v)
  case Nil
  then show ?case by (cases rest) auto
next
  case (Cons c ds)
  have b: "v * 10 + (byte_of c - 48) < 10 ^ Suc k"
    using Cons.prems byte_of_is_digit [of c] by simp
  moreover have "(10::nat) ^ Suc k < 2 ^ 64" using Cons.prems by (intro pow10_19) simp
  ultimately have "(v * 10 + (byte_of c - 48)) mod 2 ^ 64 = v * 10 + (byte_of c - 48)"
    by (intro mod_less) linarith
  with Cons b show ?case by simp
qed

lemma parse_digits_decimal:
  assumes "n < 10 ^ 19" "rest = [] \<or> \<not> is_digit (hd rest)"
  shows "parse_digits 0 0 (decimal n @ rest) = Some (n, rest)"
proof -
  have "length (decimal n) \<le> 19" using assms by (intro length_decimal) simp_all
  then show ?thesis
    using parse_digits_append [of "decimal n" 0 0 rest] assms decimal_digits digits_value_decimal [of n]
    by (auto simp: list_all_iff digits_value_def)
qed

lemma parse_digits_bound:
  "parse_digits k v s = Some (w, r) \<Longrightarrow> v < 10 ^ k \<Longrightarrow> k \<le> 19 \<Longrightarrow> w < 10 ^ 19"
proof (induction k v s arbitrary: w r rule: parse_digits.induct)
  case (1 k v)
  then show ?case
    using power_increasing [of k 19 "10::nat"] by (auto split: if_splits)
next
  case (2 k v c cs)
  show ?case
  proof (cases "is_digit c")
    case True
    then have "v * 10 + (byte_of c - 48) < 10 ^ Suc k"
      using 2 byte_of_is_digit [of c] by simp
    then have "(v * 10 + (byte_of c - 48)) mod 2 ^ 64 < 10 ^ Suc k"
      by (metis mod_less_eq_dividend le_less_trans)
    with 2 True show ?thesis by (auto split: if_splits)
  next
    case False
    with 2 power_increasing [of k 19 "10::nat"] show ?thesis by (auto split: if_splits)
  qed
qed

lemma resume_skip_Some:
  "resume_skip b n = Some sk \<Longrightarrow> offset b + length (pending b) < 2 ^ 64 \<Longrightarrow>
   n = offset b + sk \<and> sk \<le> length (pending b)"
  by (auto simp: resume_skip_def buf_total_def u64_add_exact split: if_splits)

section \<open>Properties\<close>

text \<open>
  Whatever chunk size is asked for, the one used is a positive multiple of 256 KiB of at most
  1 GiB, and it is the greatest such multiple not above the request where there is one.
\<close>

theorem normalize_chunk_size_spec:
  "let c = normalize_drive_chunk_size requested in
   262144 dvd c \<and> 0 < c \<and> c \<le> 2 ^ 30 \<and>
   c = max 262144 (min (2 ^ 30) (requested - requested mod 262144))"
proof -
  have "requested div 262144 * 262144 = requested - requested mod 262144"
    by (metis minus_mod_eq_div_mult)
  moreover from this have "requested \<le> requested mod 262144 \<or> 262144 \<le> requested - requested mod 262144"
    by (cases "requested div 262144") auto
  moreover have "(requested div 262144) * 262144 \<ge> 2 ^ 30" if "requested > 1073741824"
    using that div_le_mono [of 1073741824 requested 262144] by simp
  ultimately show ?thesis
    by (auto simp: normalize_drive_chunk_size_def drive_upload_chunk_max_def Let_def
        drive_upload_chunk_multiple_def max_def min_def div_eq_0_iff)
qed

text \<open>
  A Range header that a session reports for the bytes up to \<open>n\<close> is read back as \<open>n + 1\<close>, the
  next byte it expects.
\<close>

theorem range_roundtrip:
  assumes "n < 10 ^ 19"
  shows "parse_drive_range_next (''bytes=0-'' @ decimal n) = Some (n + 1)"
proof -
  have "parse_digits 0 0 (drop 6 (''bytes=0-'' @ decimal n)) = Some (0, CHR ''-'' # decimal n)"
    by (simp add: is_digit_def byte_of_def)
  moreover have "parse_digits 0 0 (decimal n) = Some (n, [])"
    using parse_digits_decimal [OF assms, of "[]"] by simp
  moreover have "n \<noteq> u64_max" using assms by (simp add: u64_max_def)
  ultimately show ?thesis by (simp add: parse_drive_range_next_def)
qed

theorem range_roundtrip_witness:
  "parse_drive_range_next (''bytes=0-'' @ decimal 262143) = Some 262144"
  using range_roundtrip [of 262143] by simp

text \<open>
  The next byte read from a Range header never wraps: it is at most \<open>10^19\<close>, and it is zero only
  for an absent header.
\<close>

theorem range_next_bounded:
  assumes "parse_drive_range_next h = Some n"
  shows "n \<le> 10 ^ 19 \<and> (n = 0 \<longleftrightarrow> h = [])"
  using assms parse_digits_bound
  by (fastforce simp: parse_drive_range_next_def split: if_splits option.splits list.splits)

theorem range_next_bounded_witness:
  "(5::nat) \<le> 10 ^ 19 \<and> ((5::nat) = 0 \<longleftrightarrow> ''bytes=0-4'' = ([] :: string))"
proof (rule range_next_bounded)
  show "parse_drive_range_next ''bytes=0-4'' = Some 5"
    by (simp add: parse_drive_range_next_def is_digit_def byte_of_def u64_max_def)
qed

section \<open>The stream of chunks\<close>

text \<open>A server that accepts every chunk, recorded in the order of the sends.\<close>

definition log_send :: "upload_buffer \<Rightarrow> string list \<Rightarrow> unit outcome \<times> string list" where
  "log_send b sent = (Inr (), sent @ [pending b])"

fun write_all :: "upload_buffer \<Rightarrow> string list \<Rightarrow> string list \<Rightarrow> upload_buffer \<times> string list" where
  "write_all buf sent [] = (buf, sent)"
| "write_all buf sent (w # ws) =
     (case write_loop log_send buf sent w of (_, buf', sent') \<Rightarrow> write_all buf' sent' ws)"

definition stream_inv :: "nat \<Rightarrow> string \<Rightarrow> upload_buffer \<Rightarrow> string list \<Rightarrow> bool" where
  "stream_inv c data b sent \<longleftrightarrow>
     chunk b = c \<and> 0 < c \<and> concat sent @ pending b = data \<and> (\<forall>x\<in>set sent. length x = c) \<and>
     length (pending b) \<le> c \<and> peak b \<le> c \<and> offset b = length (concat sent) \<and>
     (sent_any b \<longleftrightarrow> sent \<noteq> []) \<and> (data \<noteq> [] \<longrightarrow> pending b \<noteq> [])"

lemma stream_inv_fill:
  assumes "stream_inv c d b sent" "\<not> buf_full b" "data \<noteq> []"
  shows "stream_inv c (d @ take (fst (buf_fill b data)) data) (snd (buf_fill b data)) sent"
  using assms by (auto simp: stream_inv_def buf_fill_def buf_full_def Let_def)

lemma stream_inv_send_fill:
  assumes "stream_inv c d b sent" "buf_full b" "data \<noteq> []" "length d < 2 ^ 64"
  shows "stream_inv c (d @ take (fst (buf_fill (mark_chunk_sent b) data)) data)
           (snd (buf_fill (mark_chunk_sent b) data)) (sent @ [pending b])"
proof -
  have "offset b + length (pending b) < 2 ^ 64" using assms by (auto simp: stream_inv_def)
  with assms show ?thesis
    by (auto simp: stream_inv_def buf_fill_def buf_full_def mark_chunk_sent_def Let_def u64_add_exact)
qed

lemma write_loop_stream:
  assumes "stream_inv c d buf sent" "length (d @ data) < 2 ^ 64"
  shows "case write_loop log_send buf sent data of (r, buf', sent') \<Rightarrow>
           r = Inr () \<and> stream_inv c (d @ data) buf' sent'"
  using assms
proof (induction "length data" arbitrary: d buf sent data rule: less_induct)
  case less
  show ?case
  proof (cases "data = []")
    case True
    with less.prems show ?thesis by (subst write_loop.simps) simp
  next
    case False
    have c: "chunk buf \<noteq> 0" using less.prems by (simp add: stream_inv_def)
    define b where "b = (if buf_full buf then mark_chunk_sent buf else buf)"
    define st where "st = (if buf_full buf then sent @ [pending buf] else sent)"
    let ?n = "fst (buf_fill b data)"
    have n: "0 < ?n" "?n \<le> length data"
      using False c by (auto simp: b_def buf_fill_def mark_chunk_sent_def buf_full_def Let_def)
    have inv: "stream_inv c (d @ take ?n data) (snd (buf_fill b data)) st"
      using stream_inv_fill stream_inv_send_fill less.prems False by (auto simp: b_def st_def)
    have "length (drop ?n data) < length data" using n False by simp
    from less.hyps [OF this inv] less.prems(2)
    have "case write_loop log_send (snd (buf_fill b data)) st (drop ?n data) of (r, buf', sent') \<Rightarrow>
        r = Inr () \<and> stream_inv c (d @ data) buf' sent'"
      by simp
    moreover have "write_loop log_send buf sent data =
        write_loop log_send (snd (buf_fill b data)) st (drop ?n data)"
      using False c by (subst write_loop.simps) (simp add: b_def st_def log_send_def Let_def)
    ultimately show ?thesis by simp
  qed
qed

lemma write_all_stream:
  "stream_inv c d buf sent \<Longrightarrow> length (d @ concat ws) < 2 ^ 64 \<Longrightarrow>
   case write_all buf sent ws of (buf', sent') \<Rightarrow> stream_inv c (d @ concat ws) buf' sent'"
proof (induction ws arbitrary: d buf sent)
  case (Cons w ws)
  obtain r buf' sent' where w: "write_loop log_send buf sent w = (r, buf', sent')" by (metis prod_cases3)
  with write_loop_stream [OF Cons.prems(1), of w] Cons.prems(2) have "stream_inv c (d @ w) buf' sent'" by simp
  from Cons.IH [OF this] Cons.prems(2) w show ?case by simp
qed simp

lemma normalize_chunk_size_props:
  "0 < normalize_drive_chunk_size r" "262144 dvd normalize_drive_chunk_size r"
  by (auto simp: normalize_drive_chunk_size_def drive_upload_chunk_max_def Let_def
      drive_upload_chunk_multiple_def)

lemma stream_inv_new: "stream_inv (normalize_drive_chunk_size r) [] (new_upload_buffer r) []"
  by (simp add: stream_inv_def new_upload_buffer_def normalize_chunk_size_props)

text \<open>
  C22. A streaming write loses, repeats and reorders nothing: for any sequence of writes the chunks
  sent followed by the bytes pending are exactly the bytes written. Every chunk sent is one full
  chunk, a multiple of 256 KiB; at most one chunk is ever held; and a file that was not empty has a
  non-empty last chunk, so that a session is closed with data and a file of one chunk opens none.
\<close>

theorem streaming_write_correct:
  assumes "length (concat ws) < 2 ^ 64"
  shows "case write_all (new_upload_buffer requested) [] ws of (buf, sent) \<Rightarrow>
           concat sent @ pending buf = concat ws \<and>
           list_all (\<lambda>x. length x = chunk buf) sent \<and> 262144 dvd chunk buf \<and>
           length (pending buf) \<le> chunk buf \<and> peak buf \<le> chunk buf \<and>
           offset buf = length (concat sent) \<and>
           (on_close buf = FINAL_CHUNK \<longleftrightarrow> sent \<noteq> []) \<and>
           (pending buf = [] \<longleftrightarrow> concat ws = [])"
proof -
  obtain buf sent where w: "write_all (new_upload_buffer requested) [] ws = (buf, sent)" by fastforce
  have "stream_inv (normalize_drive_chunk_size requested) (concat ws) buf sent"
    using write_all_stream [OF stream_inv_new, of ws requested] assms w by simp
  moreover from this have "pending buf = [] \<longleftrightarrow> concat ws = []"
    unfolding stream_inv_def by (metis append_is_Nil_conv)
  ultimately show ?thesis
    using w normalize_chunk_size_props [of requested]
    by (simp add: stream_inv_def on_close_def list_all_iff)
qed

theorem streaming_write_correct_witness:
  "case write_all (new_upload_buffer 300000) [] [''abc'', [], ''de''] of (buf, sent) \<Rightarrow>
     concat sent @ pending buf = ''abcde''"
  using streaming_write_correct [of "[''abc'', [], ''de'']" 300000] by (auto split: prod.splits)

section \<open>The state machine of one chunk\<close>

definition hold_one :: upload_reply where
  "hold_one = \<lparr>reply_transport_ok = True, reply_status = 308, reply_range = ''bytes=0-0'',
               reply_retryable = False\<rparr>"

definition hold_none :: upload_reply where
  "hold_none = \<lparr>reply_transport_ok = True, reply_status = 308, reply_range = [], reply_retryable = False\<rparr>"

text \<open>
  Each decision about a chunk is backed by the reply: a chunk counts as accepted only when the
  session reports holding all of it, an upload as done only for the final chunk and a 200 or 201; what is
  sent next is the part the session does not hold, on a 256 KiB boundary unless it is final; and a
  failed request is followed by a status query at most five times.
\<close>

theorem next_upload_step_safe:
  assumes "offset buf + length (pending buf) < 2 ^ 64"
  shows "case next_upload_step buf final st reply of (s, st') \<Rightarrow>
    (case step_kind s of
       DONE \<Rightarrow> final \<and> reply_transport_ok reply \<and> reply_status reply \<in> {200, 201}
     | ACCEPTED \<Rightarrow> \<not> final \<and> reply_status reply = 308 \<and>
         parse_drive_range_next (reply_range reply) = Some (offset buf + length (pending buf))
     | SEND \<Rightarrow> reply_status reply = 308 \<and> skip st' \<le> length (pending buf) \<and>
         parse_drive_range_next (reply_range reply) = Some (offset buf + skip st') \<and>
         stalls st' \<le> max_chunk_attempts \<and>
         (final \<or> skip st' < length (pending buf) \<and> 262144 dvd offset buf + skip st')
     | ASK_STATUS \<Rightarrow> backoff s \<and> failures st' = Suc (failures st) \<and> failures st' \<le> max_chunk_attempts
     | FAIL \<Rightarrow> ambiguous s = (final \<and> final_maybe_sent st'))"
proof (cases "reply_transport_ok reply \<and> reply_status reply = 308")
  case False
  then show ?thesis
    by (auto simp: next_upload_step_def Let_def fail_step_def)
next
  case True
  then have n: "next_upload_step buf final st reply = on_resume_incomplete buf final st (reply_range reply)"
    by (simp add: next_upload_step_def)
  show ?thesis
  proof (cases "parse_drive_range_next (reply_range reply)")
    case None
    then show ?thesis by (simp add: n on_resume_incomplete_def fail_step_def)
  next
    case (Some nx)
    note r = Some
    show ?thesis
    proof (cases "resume_skip buf nx")
      case None
      then show ?thesis by (simp add: n r on_resume_incomplete_def fail_step_def)
    next
      case (Some sk)
      with assms have k: "nx = offset buf + sk" "sk \<le> length (pending buf)"
        using resume_skip_Some by blast+
      then have "u64_add (offset buf) sk = offset buf + sk" using assms by (intro u64_add_exact) simp
      then show ?thesis
        using k(2) True
        by (auto simp: n r [unfolded k(1)] Some [unfolded k(1)] on_resume_incomplete_def fail_step_def Let_def
            dvd_eq_mod_eq_0 drive_upload_chunk_multiple_def)
    qed
  qed
qed

theorem next_upload_step_safe_witness:
  "step_kind (fst (next_upload_step ((new_upload_buffer 1)\<lparr>pending := ''ab''\<rparr>) True fresh_chunk_state
     hold_one)) = SEND
   \<and> skip (snd (next_upload_step ((new_upload_buffer 1)\<lparr>pending := ''ab''\<rparr>) True fresh_chunk_state
     hold_one)) \<le> 2"
proof -
  let ?b = "(new_upload_buffer 1)\<lparr>pending := ''ab''\<rparr>"
  have s: "step_kind (fst (next_upload_step ?b True fresh_chunk_state hold_one)) = SEND"
    by (simp add: hold_one_def next_upload_step_def on_resume_incomplete_def parse_drive_range_next_def is_digit_def
        byte_of_def u64_max_def resume_skip_def buf_total_def u64_add_def new_upload_buffer_def
        fresh_chunk_state_def Let_def)
  with next_upload_step_safe [where buf = ?b and final = True and st = fresh_chunk_state and reply = hold_one] show ?thesis
    by (auto simp: new_upload_buffer_def split: prod.splits)
qed

section \<open>How long one chunk can take\<close>

text \<open>
  The loop of \<open>GDriveClientImpl::UploadChunk\<close> on a given sequence of replies: \<open>None\<close> while the state
  machine still asks for another request.
\<close>

fun run_chunk ::
    "upload_buffer \<Rightarrow> bool \<Rightarrow> chunk_state \<Rightarrow> upload_reply list \<Rightarrow> (upload_step \<times> chunk_state) option" where
  "run_chunk buf final st [] = None"
| "run_chunk buf final st (r # rs) =
     (case next_upload_step buf final st r of (s, st') \<Rightarrow>
        if step_kind s = SEND \<or> step_kind s = ASK_STATUS then run_chunk buf final st' rs
        else Some (s, st'))"

text \<open>A session that never reports less than it did before: \<open>n\<close> is the last report.\<close>

fun monotone_session :: "nat \<Rightarrow> upload_reply list \<Rightarrow> bool" where
  "monotone_session n [] \<longleftrightarrow> True"
| "monotone_session n (r # rs) \<longleftrightarrow>
     (if reply_transport_ok r \<and> reply_status r = 308 then
        (case parse_drive_range_next (reply_range r) of
           None \<Rightarrow> monotone_session n rs
         | Some m \<Rightarrow> n \<le> m \<and> monotone_session m rs)
      else monotone_session n rs)"

definition chunk_budget :: "upload_buffer \<Rightarrow> chunk_state \<Rightarrow> nat" where
  "chunk_budget buf st =
     (length (pending buf) - skip st) * 6 + (max_chunk_attempts - stalls st) + (max_chunk_attempts - failures st)"

lemma on_resume_incomplete_budget:
  assumes "on_resume_incomplete buf final st h = (s, st')" "step_kind s = SEND \<or> step_kind s = ASK_STATUS"
    "parse_drive_range_next h = Some m" "offset buf + skip st \<le> m" "skip st \<le> length (pending buf)"
    "offset buf + length (pending buf) < 2 ^ 64"
  shows "chunk_budget buf st' < chunk_budget buf st \<and> m = offset buf + skip st' \<and> skip st' \<le> length (pending buf)"
proof -
  obtain sk where sk: "resume_skip buf m = Some sk"
    using assms(1,2,3) by (cases "resume_skip buf m") (auto simp: on_resume_incomplete_def fail_step_def)
  with assms have k: "m = offset buf + sk" "sk \<le> length (pending buf)" using resume_skip_Some by blast+
  with assms(4) have ge: "skip st \<le> sk" by simp
  from assms(1,2) have cases: "skip st' = sk \<and> failures st' = failures st \<and>
      (sk > skip st \<and> stalls st' = 0 \<or> stalls st' = Suc (stalls st) \<and> stalls st' \<le> max_chunk_attempts)"
    unfolding on_resume_incomplete_def Let_def assms(3) option.case sk
    by (auto simp: fail_step_def split: if_splits)
  then show ?thesis
  proof (elim conjE disjE)
    assume a: "skip st' = sk" "failures st' = failures st" "sk > skip st" "stalls st' = 0"
    have "Suc (length (pending buf) - sk) \<le> length (pending buf) - skip st" using a k by linarith
    then have "Suc (length (pending buf) - sk) * 6 \<le> (length (pending buf) - skip st) * 6" by simp
    with a k show ?thesis by (simp add: chunk_budget_def max_chunk_attempts_def)
  next
    assume a: "skip st' = sk" "failures st' = failures st" "stalls st' = Suc (stalls st)"
      "stalls st' \<le> max_chunk_attempts"
    have "length (pending buf) - sk \<le> length (pending buf) - skip st" using ge by simp
    then have "(length (pending buf) - sk) * 6 \<le> (length (pending buf) - skip st) * 6" by simp
    with a k show ?thesis by (simp add: chunk_budget_def)
  qed
qed

lemma next_upload_step_budget:
  assumes "next_upload_step buf final st r = (s, st')" "step_kind s = SEND \<or> step_kind s = ASK_STATUS"
    "monotone_session (offset buf + skip st) (r # rs)" "skip st \<le> length (pending buf)"
    "offset buf + length (pending buf) < 2 ^ 64"
  shows "chunk_budget buf st' < chunk_budget buf st \<and> monotone_session (offset buf + skip st') rs
    \<and> skip st' \<le> length (pending buf)"
proof (cases "reply_transport_ok r \<and> reply_status r = 308")
  case True
  with assms(1) have o: "on_resume_incomplete buf final st (reply_range r) = (s, st')"
    by (simp add: next_upload_step_def)
  with assms(2) obtain m where m: "parse_drive_range_next (reply_range r) = Some m"
    by (cases "parse_drive_range_next (reply_range r)") (auto simp: on_resume_incomplete_def fail_step_def)
  with True assms(3) have "offset buf + skip st \<le> m" "monotone_session m rs" by simp_all
  with on_resume_incomplete_budget [OF o assms(2) m _ assms(4,5)] show ?thesis by auto
next
  case False
  with assms show ?thesis
    by (auto simp: next_upload_step_def fail_step_def Let_def chunk_budget_def split: if_splits)
qed

lemma run_chunk_terminates:
  "monotone_session (offset buf + skip st) rs \<Longrightarrow> skip st \<le> length (pending buf) \<Longrightarrow>
   offset buf + length (pending buf) < 2 ^ 64 \<Longrightarrow> chunk_budget buf st < length rs \<Longrightarrow>
   run_chunk buf final st rs \<noteq> None"
proof (induction rs arbitrary: st)
  case (Cons r rs)
  obtain s st' where n: "next_upload_step buf final st r = (s, st')" by fastforce
  show ?case
  proof (cases "step_kind s = SEND \<or> step_kind s = ASK_STATUS")
    case True
    from next_upload_step_budget [OF n True Cons.prems(1,2,3)] Cons.prems(3,4)
    have "run_chunk buf final st' rs \<noteq> None" by (intro Cons.IH) auto
    with n True show ?thesis by auto
  qed (use n in auto)
qed simp

text \<open>
  With a session that never takes back what it acknowledged, one chunk of \<open>n\<close> bytes is decided after
  at most \<open>6 n + 11\<close> replies, whatever mixture of errors, lost replies and stalls they are.
\<close>

theorem chunk_decided:
  assumes "monotone_session (offset buf) replies" and "offset buf + length (pending buf) < 2 ^ 64"
    and "6 * length (pending buf) + 11 \<le> length replies"
  shows "\<exists>s st. run_chunk buf final fresh_chunk_state replies = Some (s, st)"
  using run_chunk_terminates [of buf fresh_chunk_state replies final] assms
  by (auto simp: fresh_chunk_state_def chunk_budget_def max_chunk_attempts_def)

theorem chunk_decided_witness:
  "\<exists>s st. run_chunk ((new_upload_buffer 1)\<lparr>pending := ''ab''\<rparr>) True fresh_chunk_state
     (replicate 23 hold_none) = Some (s, st)"
proof (rule chunk_decided)
  have "monotone_session 0 (replicate n hold_none)" for n
    by (induction n) (simp_all add: hold_none_def parse_drive_range_next_def)
  then show "monotone_session (offset ((new_upload_buffer 1)\<lparr>pending := ''ab''\<rparr>)) (replicate 23 hold_none)"
    by (simp add: new_upload_buffer_def)
qed (simp_all add: new_upload_buffer_def)

text \<open>
  The bound on attempts needs that assumption: a session that reports one byte, then none, then one
  again is asked forever, because every higher report resets the count of stalls.
\<close>

theorem oscillating_session_never_decided:
  "run_chunk ((new_upload_buffer 1)\<lparr>pending := ''ab''\<rparr>) True fresh_chunk_state
     (concat (replicate n [hold_one, hold_none])) = None"
proof -
  let ?b = "(new_upload_buffer 1)\<lparr>pending := ''ab''\<rparr>"
  have one: "next_upload_step ?b True \<lparr>skip = 0, stalls = k, failures = 0, final_maybe_sent = False\<rparr> hold_one
      = (\<lparr>step_kind = SEND, backoff = False, ambiguous = False, step_error = []\<rparr>,
         \<lparr>skip = 1, stalls = 0, failures = 0, final_maybe_sent = False\<rparr>)" for k
    by (simp add: hold_one_def next_upload_step_def on_resume_incomplete_def parse_drive_range_next_def
        is_digit_def byte_of_def u64_max_def resume_skip_def buf_total_def u64_add_def new_upload_buffer_def
        Let_def)
  have none: "next_upload_step ?b True \<lparr>skip = 1, stalls = 0, failures = 0, final_maybe_sent = False\<rparr> hold_none
      = (\<lparr>step_kind = SEND, backoff = True, ambiguous = False, step_error = []\<rparr>,
         \<lparr>skip = 0, stalls = 1, failures = 0, final_maybe_sent = False\<rparr>)"
    by (simp add: hold_none_def next_upload_step_def on_resume_incomplete_def parse_drive_range_next_def
        resume_skip_def buf_total_def u64_add_def new_upload_buffer_def Let_def max_chunk_attempts_def)
  have "run_chunk ?b True \<lparr>skip = 0, stalls = k, failures = 0, final_maybe_sent = False\<rparr>
      (concat (replicate n [hold_one, hold_none])) = None" for k
  proof (induction n arbitrary: k)
    case (Suc n)
    from Suc.IH [of 1] show ?case by (simp add: one [simplified] none [simplified])
  qed simp
  then show ?thesis by (simp add: fresh_chunk_state_def)
qed

end
