(* ===== verification/Client.thy ===== *)
theory Client
  imports DriveApi TokenPolicy UploadPlan
begin

text \<open>
  The transport half of \<open>src/gdrive_client.cpp\<close>: \<open>GDriveClientImpl\<close> with its retry loop, every Drive
  call it offers and the resumable-upload loop.

  What the code calls and does not define is in \<open>drive_env\<close>: one HTTP exchange (httplib), the token
  source (\<open>gdrive_auth.cpp\<close>), the JSON parser and serialiser (picojson) and the random boundary. The
  state is a \<open>world\<close>: the call counters, the requests sent so far and the back-offs slept, in order,
  and the state of everything outside, on which the parameters act.
\<close>

section \<open>The outside\<close>

datatype http_method = GET | POST | PATCH | DELETE | PUT

record http_request =
  rq_method :: http_method
  rq_path :: string
  rq_headers :: "(string \<times> string) list"
  rq_body :: string
  rq_content_type :: string

record raw_result =
  transport_ok :: bool
  status :: int
  body :: string
  retry_after :: string
  location :: string
  held_range :: string

record 'w world =
  calls :: drive_call_stats
  sent :: "http_request list"
  slept :: "(nat \<times> int) list"
  net :: 'w

record 'w drive_env =
  exchange :: "http_request \<Rightarrow> 'w \<Rightarrow> raw_result \<times> 'w"
  token_of :: "'w \<Rightarrow> string outcome \<times> 'w"
  refresh_of :: "string \<Rightarrow> 'w \<Rightarrow> string outcome \<times> 'w"
  parse_json :: json_parser
  serialize_json :: "json \<Rightarrow> string"
  boundary_of :: "'w \<Rightarrow> string \<times> 'w"
  env_drive_id :: string
  env_quota_project :: string

type_synonym ('a, 'w) io = "'w world \<Rightarrow> 'a outcome \<times> 'w world"

definition ret :: "'a \<Rightarrow> ('a, 'w) io" where "ret x w = (Inr x, w)"

definition throw :: "exn \<Rightarrow> ('a, 'w) io" where "throw e w = (Inl e, w)"

definition bind :: "('a, 'w) io \<Rightarrow> ('a \<Rightarrow> ('b, 'w) io) \<Rightarrow> ('b, 'w) io" where
  "bind m f w = (case m w of (Inl e, w') \<Rightarrow> (Inl e, w') | (Inr x, w') \<Rightarrow> f x w')"

definition count_call :: "counter \<Rightarrow> 'w world \<Rightarrow> 'w world" where
  "count_call c w = w\<lparr>calls := record_call c (calls w)\<rparr>"

definition count_retry :: "'w world \<Rightarrow> 'w world" where
  "count_retry w = w\<lparr>calls := (calls w)\<lparr>retries := Suc (retries (calls w))\<rparr>\<rparr>"

definition count_auth_refresh :: "'w world \<Rightarrow> 'w world" where
  "count_auth_refresh w = w\<lparr>calls := (calls w)\<lparr>auth_refresh := Suc (auth_refresh (calls w))\<rparr>\<rparr>"

section \<open>Back-off\<close>

definition max_attempts :: nat where "max_attempts = 5"
definition initial_backoff_ms :: int where "initial_backoff_ms = 500"
definition max_backoff_ms :: int where "max_backoff_ms = 20000"

text \<open>
  The delay of \<open>SleepBackoff\<close>, with the jitter, a uniform draw from $[0.75, 1.25)$, given in permille.
  The shift of a \<open>long long\<close> is exact below \<open>2^63\<close>; beyond, the source takes the cap, as it does here.
\<close>

definition backoff_delay_ms :: "nat \<Rightarrow> int \<Rightarrow> int \<Rightarrow> int" where
  "backoff_delay_ms attempt_number server_wait jitter_permille =
     (let base = initial_backoff_ms * 2 ^ (attempt_number - 1);
          base = (if base > max_backoff_ms \<or> base \<le> 0 then max_backoff_ms else base) in
      max 0 (max (base * jitter_permille div 1000) (server_wait * 1000)))"

definition sleep_backoff :: "nat \<Rightarrow> int \<Rightarrow> 'w world \<Rightarrow> 'w world" where
  "sleep_backoff attempt_number server_wait w =
     w\<lparr>slept := slept w @ [(attempt_number, server_wait)]\<rparr>"

section \<open>One exchange\<close>

definition request_headers ::
    "'w drive_env \<Rightarrow> string option \<Rightarrow> (string \<times> string) list \<Rightarrow> (string \<times> string) list" where
  "request_headers env bearer extra =
     (case bearer of
        None \<Rightarrow> []
      | Some token \<Rightarrow>
          [(''Authorization'', ''Bearer '' @ token)] @
          (if env_quota_project env \<noteq> [] then [(''x-goog-user-project'', env_quota_project env)] else [])) @
     extra"

text \<open>\<open>DoHttp\<close>; \<open>bearer\<close> is \<open>None\<close> for \<open>with_auth = false\<close>.\<close>

definition do_http ::
    "'w drive_env \<Rightarrow> http_method \<Rightarrow> string option \<Rightarrow> string \<Rightarrow> (string \<times> string) list \<Rightarrow> string \<Rightarrow> string \<Rightarrow>
     'w world \<Rightarrow> raw_result \<times> 'w world" where
  "do_http env meth bearer path extra content content_type w =
     (let rq = \<lparr>rq_method = meth, rq_path = path, rq_headers = request_headers env bearer extra,
                rq_body = content, rq_content_type = content_type\<rparr>;
          (raw, n) = exchange env rq (net w) in
      (raw, w\<lparr>sent := sent w @ [rq], net := n\<rparr>))"

record drive_response =
  resp_ok :: bool
  resp_status :: int
  resp_body :: string
  resp_error :: gdrive_error
  resp_location :: string

definition no_response :: drive_response where
  "no_response = \<lparr>resp_ok = False, resp_status = 0, resp_body = [], resp_error = no_error, resp_location = []\<rparr>"

definition is_idempotent :: "http_method \<Rightarrow> bool" where
  "is_idempotent m \<longleftrightarrow> m = GET \<or> m = DELETE"

section \<open>The retry loop\<close>

text \<open>The arguments of \<open>ExecuteWithRetry\<close>.\<close>

record drive_call =
  c_method :: http_method
  c_path :: string
  c_headers :: "(string \<times> string) list"
  c_body :: string
  c_content_type :: string
  c_counter :: counter
  c_success :: "int list"
  c_retry_non_idempotent :: bool

definition may_retry :: "drive_call \<Rightarrow> bool" where
  "may_retry c \<longleftrightarrow> c_retry_non_idempotent c \<or> is_idempotent (c_method c)"

definition transport_failure :: "drive_call \<Rightarrow> drive_response" where
  "transport_failure c = no_response\<lparr>resp_error := no_error\<lparr>err_kind := TRANSIENT,
     message :=
       (if may_retry c then ''network transport failure (no response from Drive)''
        else ''network transport failure with no response from Drive; the change may or may '' @
             ''not have been applied. It was NOT retried automatically, because repeating a '' @
             ''write whose outcome is unknown can create a second file with the same name '' @
             ''(a path with duplicate names cannot be addressed). Check the destination '' @
             ''before retrying.'')\<rparr>\<rparr>"

text \<open>
  The refresh after an authentication failure: \<open>Some\<close> is the token to send the request again with.
\<close>

definition try_refresh ::
    "'w drive_env \<Rightarrow> gdrive_error \<Rightarrow> bool \<Rightarrow> string \<Rightarrow> (string option, 'w) io" where
  "try_refresh env err refreshed tok w =
     (if err_kind err = UNAUTHENTICATED \<and> \<not> refreshed then
        let w = count_auth_refresh w in
        (case refresh_of env tok (net w) of
           (Inl e, n) \<Rightarrow> (Inl e, w\<lparr>net := n\<rparr>)
         | (Inr replacement, n) \<Rightarrow>
             (Inr (if should_resend_after_401 refreshed tok replacement then Some replacement else None),
              w\<lparr>net := n\<rparr>))
      else (Inr None, w))"

lemma try_refresh_Some: "try_refresh env err refreshed tok w = (Inr (Some r), w') \<Longrightarrow> \<not> refreshed"
  by (auto simp: try_refresh_def split: if_splits)

text \<open>The loop; \<open>attempt\<close> counts the attempts made before.\<close>

function execute_loop ::
    "'w drive_env \<Rightarrow> drive_call \<Rightarrow> nat \<Rightarrow> string \<Rightarrow> bool \<Rightarrow> 'w world \<Rightarrow> drive_response outcome \<times> 'w world" where
  "execute_loop env c attempt0 tok refreshed w0 =
     (let attempt = Suc attempt0 in
      case do_http env (c_method c) (Some tok) (c_path c) (c_headers c) (c_body c) (c_content_type c)
             (count_call (c_counter c) w0) of (raw, w) \<Rightarrow>
      if \<not> transport_ok raw then
        (if may_retry c \<and> attempt < max_attempts then
           execute_loop env c attempt tok refreshed (sleep_backoff attempt 0 (count_retry w))
         else (Inr (transport_failure c), w))
      else if status raw \<in> set (c_success c) then
        (Inr \<lparr>resp_ok = True, resp_status = status raw, resp_body = body raw, resp_error = no_error,
              resp_location = location raw\<rparr>, w)
      else
        let err = classify_drive_error (parse_json env) (status raw) (body raw) (retry_after raw) in
        case try_refresh env err refreshed tok w of
          (Inl e, w) \<Rightarrow> (Inl e, w)
        | (Inr (Some replacement), w) \<Rightarrow> execute_loop env c attempt0 replacement True w
        | (Inr None, w) \<Rightarrow>
            let refreshed = (refreshed \<or> err_kind err = UNAUTHENTICATED) in
            if is_retryable err \<and> attempt < max_attempts \<and> may_retry c then
              execute_loop env c attempt tok refreshed
                (sleep_backoff attempt (retry_after_seconds err) (count_retry w))
            else
              (Inr \<lparr>resp_ok = False, resp_status = status raw, resp_body = body raw, resp_error = err,
                    resp_location = []\<rparr>, w))"
  by pat_completeness auto
termination
  by (relation "measure (\<lambda>(env, c, attempt, tok, refreshed, w).
        (max_attempts - attempt) + (if refreshed then 0 else 1))")
     (auto dest: try_refresh_Some [OF sym] split: if_splits)

declare execute_loop.simps [simp del]

definition execute_with_retry :: "'w drive_env \<Rightarrow> drive_call \<Rightarrow> (drive_response, 'w) io" where
  "execute_with_retry env c w =
     (case token_of env (net w) of
        (Inl e, n) \<Rightarrow> (Inl e, w\<lparr>net := n\<rparr>)
      | (Inr token, n) \<Rightarrow> execute_loop env c 0 token False (w\<lparr>net := n\<rparr>))"

section \<open>What the loop sends\<close>

lemma sent_count [simp]: "sent (count_call k w) = sent w" "sent (count_retry w) = sent w"
  "sent (sleep_backoff n r w) = sent w" "sent (count_auth_refresh w) = sent w"
  by (simp_all add: count_call_def count_retry_def sleep_backoff_def count_auth_refresh_def)

definition request_of :: "'w drive_env \<Rightarrow> drive_call \<Rightarrow> string \<Rightarrow> http_request" where
  "request_of env c tok =
     \<lparr>rq_method = c_method c, rq_path = c_path c, rq_headers = request_headers env (Some tok) (c_headers c),
      rq_body = c_body c, rq_content_type = c_content_type c\<rparr>"

lemma do_http_sent:
  "do_http env m b p x ct t w = (raw, w') \<Longrightarrow>
   sent w' = sent w @ [\<lparr>rq_method = m, rq_path = p, rq_headers = request_headers env b x,
     rq_body = ct, rq_content_type = t\<rparr>]"
  by (auto simp: do_http_def Let_def split: prod.splits)

lemma try_refresh_sent: "try_refresh env err refreshed tok w = (r, w') \<Longrightarrow> sent w' = sent w"
  by (auto simp: try_refresh_def Let_def split: if_splits prod.splits sum.splits)

lemma try_refresh_token: "try_refresh env err refreshed tok w = (Inr (Some r), w') \<Longrightarrow> r \<noteq> tok"
  by (auto simp: try_refresh_def Let_def should_resend_after_401_def split: if_splits prod.splits sum.splits)

lemma try_refresh_Some_kind:
  "try_refresh env err refreshed tok w = (Inr (Some r), w') \<Longrightarrow> err_kind err = UNAUTHENTICATED"
  by (auto simp: try_refresh_def split: if_splits)

text \<open>
  One round of the loop, for the proofs: it ends with a result, or the loop goes on with the next attempt, or
  with the same attempt and another token.
\<close>

definition execute_round ::
    "'w drive_env \<Rightarrow> drive_call \<Rightarrow> nat \<Rightarrow> string \<Rightarrow> bool \<Rightarrow> 'w world \<Rightarrow>
     drive_response outcome \<times> 'w world + nat \<times> string \<times> bool \<times> 'w world" where
  "execute_round env c n tok refreshed w0 =
     (case do_http env (c_method c) (Some tok) (c_path c) (c_headers c) (c_body c) (c_content_type c)
             (count_call (c_counter c) w0) of (raw, w) \<Rightarrow>
      if \<not> transport_ok raw then
        (if may_retry c \<and> Suc n < max_attempts then Inr (Suc n, tok, refreshed, sleep_backoff (Suc n) 0 (count_retry w))
         else Inl (Inr (transport_failure c), w))
      else if status raw \<in> set (c_success c) then
        Inl (Inr \<lparr>resp_ok = True, resp_status = status raw, resp_body = body raw, resp_error = no_error,
              resp_location = location raw\<rparr>, w)
      else
        let err = classify_drive_error (parse_json env) (status raw) (body raw) (retry_after raw) in
        case try_refresh env err refreshed tok w of
          (Inl e, w) \<Rightarrow> Inl (Inl e, w)
        | (Inr (Some replacement), w) \<Rightarrow> Inr (n, replacement, True, w)
        | (Inr None, w) \<Rightarrow>
            if is_retryable err \<and> Suc n < max_attempts \<and> may_retry c then
              Inr (Suc n, tok, refreshed \<or> err_kind err = UNAUTHENTICATED,
                sleep_backoff (Suc n) (retry_after_seconds err) (count_retry w))
            else
              Inl (Inr \<lparr>resp_ok = False, resp_status = status raw, resp_body = body raw, resp_error = err,
                    resp_location = []\<rparr>, w))"

lemma execute_loop_round:
  "execute_loop env c n tok refreshed w =
     (case execute_round env c n tok refreshed w of
        Inl out \<Rightarrow> out
      | Inr (n', tok', refreshed', w') \<Rightarrow> execute_loop env c n' tok' refreshed' w')"
proof -
  obtain raw w1 where h: "do_http env (c_method c) (Some tok) (c_path c) (c_headers c) (c_body c) (c_content_type c)
      (count_call (c_counter c) w) = (raw, w1)" by fastforce
  let ?err = "classify_drive_error (parse_json env) (status raw) (body raw) (retry_after raw)"
  obtain x w2 where t: "try_refresh env ?err refreshed tok w1 = (x, w2)" by fastforce
  show ?thesis
    by (cases x) (auto simp: execute_loop.simps [of env c n] execute_round_def Let_def h t split: option.split)
qed

lemma execute_round_sent:
  "case execute_round env c n tok refreshed w of
     Inl (_, w') \<Rightarrow> sent w' = sent w @ [request_of env c tok]
   | Inr (_, _, _, w') \<Rightarrow> sent w' = sent w @ [request_of env c tok]"
proof -
  obtain raw w1 where h: "do_http env (c_method c) (Some tok) (c_path c) (c_headers c) (c_body c) (c_content_type c)
      (count_call (c_counter c) w) = (raw, w1)" by fastforce
  let ?err = "classify_drive_error (parse_json env) (status raw) (body raw) (retry_after raw)"
  obtain x w2 where t: "try_refresh env ?err refreshed tok w1 = (x, w2)" by fastforce
  have "sent w1 = sent w @ [request_of env c tok]" using do_http_sent [OF h] by (simp add: request_of_def)
  with try_refresh_sent [OF t] h t show ?thesis
    by (auto simp: execute_round_def Let_def split: sum.split option.split)
qed

lemma execute_round_next:
  assumes "execute_round env c n tok refreshed w = Inr (n', tok', refreshed', w')"
  shows "may_retry c \<and> n' = Suc n \<and> n' < max_attempts \<and> tok' = tok \<and> (refreshed \<longrightarrow> refreshed') \<or>
     n' = n \<and> \<not> refreshed \<and> refreshed' \<and> tok' \<noteq> tok"
proof -
  obtain raw w1 where h: "do_http env (c_method c) (Some tok) (c_path c) (c_headers c) (c_body c) (c_content_type c)
      (count_call (c_counter c) w) = (raw, w1)" by fastforce
  let ?err = "classify_drive_error (parse_json env) (status raw) (body raw) (retry_after raw)"
  obtain x w2 where t: "try_refresh env ?err refreshed tok w1 = (x, w2)" by fastforce
  have "x = Inr (Some repl) \<Longrightarrow> \<not> refreshed \<and> repl \<noteq> tok" for repl
    using t try_refresh_Some try_refresh_token by blast
  with assms h t show ?thesis
    by (cases x) (auto simp: execute_round_def Let_def split: option.splits if_splits)
qed

lemma execute_round_less:
  assumes "execute_round env c n tok refreshed w = Inr (n', tok', refreshed', w')"
  shows "(max_attempts - n') + (if refreshed' then 0 else 1) < (max_attempts - n) + (if refreshed then 0 else 1)"
  using execute_round_next [OF assms] by auto

text \<open>What every step of a round keeps, the loop keeps; it may speak of whether the token was refreshed.\<close>

lemma execute_loop_keeps:
  assumes request: "\<And>r w raw w1 t. I r w \<Longrightarrow> do_http env (c_method c) (Some t) (c_path c) (c_headers c) (c_body c)
      (c_content_type c) (count_call (c_counter c) w) = (raw, w1) \<Longrightarrow> I r w1"
    and delay: "\<And>r w a s. I r w \<Longrightarrow> I r (sleep_backoff a s (count_retry w))"
    and refresh: "\<And>r w err t x w1. I r w \<Longrightarrow> try_refresh env err r t w = (x, w1) \<Longrightarrow>
      I (r \<or> err_kind err = UNAUTHENTICATED) w1"
  shows "execute_loop env c n tok refreshed w = (res, w') \<Longrightarrow> I refreshed w \<Longrightarrow> \<exists>r. I r w'"
proof (induction "(max_attempts - n) + (if refreshed then 0 else 1)" arbitrary: n tok refreshed w rule: less_induct)
  case less
  obtain raw w1 where h: "do_http env (c_method c) (Some tok) (c_path c) (c_headers c) (c_body c) (c_content_type c)
      (count_call (c_counter c) w) = (raw, w1)" by fastforce
  let ?err = "classify_drive_error (parse_json env) (status raw) (body raw) (retry_after raw)"
  obtain x w2 where t: "try_refresh env ?err refreshed tok w1 = (x, w2)" by fastforce
  have I1: "I refreshed w1" by (rule request [OF less.prems(2) h])
  have I2: "I (refreshed \<or> err_kind ?err = UNAUTHENTICATED) w2" by (rule refresh [OF I1 t])
  have "x = Inr (Some repl) \<Longrightarrow> I True w2" for repl using I2 t by (auto dest: try_refresh_Some_kind)
  then have keeps: "case execute_round env c n tok refreshed w of
      Inl (_, w') \<Rightarrow> \<exists>r. I r w' | Inr (_, _, r, w') \<Rightarrow> I r w'"
    using I1 I2 t h delay [OF I1] delay [OF I2]
    by (auto simp: execute_round_def Let_def split: sum.split option.split)
  show ?case
  proof (cases "execute_round env c n tok refreshed w")
    case (Inl out)
    with less.prems(1) keeps show ?thesis by (simp add: execute_loop_round [of env c n] split: prod.splits)
  next
    case (Inr step)
    obtain n' tok' r' w1 where x: "step = (n', tok', r', w1)" by (cases step) auto
    from less.hyps [OF execute_round_less [OF Inr [unfolded x]]] less.prems(1) keeps Inr x
    show ?thesis by (simp add: execute_loop_round [of env c n])
  qed
qed

lemma execute_loop_cases:
  obtains (stop) res w' where "execute_loop env c n tok refreshed w = (res, w')"
      "sent w' = sent w @ [request_of env c tok]"
  | (again) w' r where "may_retry c" "Suc n < max_attempts" "refreshed \<longrightarrow> r"
      "sent w' = sent w @ [request_of env c tok]"
      "execute_loop env c n tok refreshed w = execute_loop env c (Suc n) tok r w'"
  | (resend) w' repl where "\<not> refreshed" "repl \<noteq> tok" "sent w' = sent w @ [request_of env c tok]"
      "execute_loop env c n tok refreshed w = execute_loop env c n repl True w'"
proof (cases "execute_round env c n tok refreshed w")
  case (Inl out)
  then show thesis using execute_round_sent [where env = env and c = c and n = n and tok = tok and refreshed = refreshed and w = w]
    by (intro stop [of "fst out" "snd out"]) (simp_all add: execute_loop_round [of env c n] split_beta)
next
  case (Inr step)
  obtain n' tok' r' w1 where x: "execute_round env c n tok refreshed w = Inr (n', tok', r', w1)"
    using Inr by (cases step) auto
  then have e: "execute_loop env c n tok refreshed w = execute_loop env c n' tok' r' w1"
    by (simp add: execute_loop_round [of env c n])
  from execute_round_next [OF x] show thesis
    using again [where w' = w1 and r = r'] resend [where w' = w1 and repl = tok'] execute_round_sent [where env = env and c = c and n = n and tok = tok and refreshed = refreshed and w = w] x e by auto
qed

text \<open>The requests the loop adds, and the bound on their number.\<close>

definition sent_since :: "'w world \<Rightarrow> 'w world \<Rightarrow> http_request list" where
  "sent_since w w' = drop (length (sent w)) (sent w')"

definition same_request :: "drive_call \<Rightarrow> http_request \<Rightarrow> bool" where
  "same_request c rq \<longleftrightarrow>
     rq_method rq = c_method c \<and> rq_path rq = c_path c \<and> rq_body rq = c_body c \<and>
     rq_content_type rq = c_content_type c"

lemma same_request_of [simp]: "same_request c (request_of env c tok)"
  by (simp add: same_request_def request_of_def)

lemma request_of_inject: "request_of env c a = request_of env c b \<Longrightarrow> a = b"
  by (simp add: request_of_def request_headers_def)

lemma execute_loop_sent:
  assumes "n < max_attempts" "execute_loop env c n tok refreshed w = (res, w')"
  shows "\<exists>rqs. sent w' = sent w @ request_of env c tok # rqs \<and> list_all (same_request c) rqs \<and>
    Suc (length rqs) \<le> (max_attempts - n) + (if refreshed then 0 else 1) \<and>
    (\<not> may_retry c \<longrightarrow> rqs = [] \<or> (\<exists>repl. \<not> refreshed \<and> repl \<noteq> tok \<and> rqs = [request_of env c repl]))"
  using assms
proof (induction "(max_attempts - n) + (if refreshed then 0 else 1)" arbitrary: n tok refreshed w rule: less_induct)
  case less
  show ?case
  proof (cases rule: execute_loop_cases [of env c n tok refreshed w])
    case (stop res' w1)
    with less.prems show ?thesis by (intro exI [of _ "[]"]) (auto simp: max_attempts_def)
  next
    case (again w1 r)
    have m: "(max_attempts - Suc n) + (if r then 0 else 1) < (max_attempts - n) + (if refreshed then 0 else 1)"
      using again by (auto simp: max_attempts_def)
    from less.hyps [OF m again(2), of tok w1] again less.prems(2) obtain rqs where
      "sent w' = sent w1 @ request_of env c tok # rqs" "list_all (same_request c) rqs"
      "Suc (length rqs) \<le> (max_attempts - Suc n) + (if r then 0 else 1)" by auto
    with again m show ?thesis by (intro exI [of _ "request_of env c tok # rqs"]) auto
  next
    case (resend w1 repl)
    have m: "(max_attempts - n) + (if True then 0 else 1) < (max_attempts - n) + (if refreshed then 0 else 1)"
      using resend by simp
    from less.hyps [OF m less.prems(1), of repl w1] resend less.prems(2) obtain rqs where
      "sent w' = sent w1 @ request_of env c repl # rqs" "list_all (same_request c) rqs"
      "Suc (length rqs) \<le> max_attempts - n" "\<not> may_retry c \<longrightarrow> rqs = []" by auto
    with resend m show ?thesis by (intro exI [of _ "request_of env c repl # rqs"]) auto
  qed
qed

lemma execute_with_retry_sent:
  assumes "execute_with_retry env c w = (res, w')"
  shows "\<exists>rqs. sent w' = sent w @ rqs \<and> list_all (same_request c) rqs \<and> length rqs \<le> 6 \<and>
    (\<not> may_retry c \<longrightarrow> length rqs \<le> 2 \<and> distinct rqs)"
proof (cases "token_of env (net w)")
  case (Pair t n)
  show ?thesis
  proof (cases t)
    case (Inl e)
    with assms Pair show ?thesis by (intro exI [of _ "[]"]) (auto simp: execute_with_retry_def)
  next
    case (Inr tok)
    with assms Pair have "execute_loop env c 0 tok False (w\<lparr>net := n\<rparr>) = (res, w')"
      by (simp add: execute_with_retry_def)
    from execute_loop_sent [OF _ this] obtain rqs where
      r: "sent w' = sent w @ request_of env c tok # rqs" "list_all (same_request c) rqs"
      "Suc (length rqs) \<le> max_attempts + 1"
      "\<not> may_retry c \<longrightarrow> rqs = [] \<or> (\<exists>repl. repl \<noteq> tok \<and> rqs = [request_of env c repl])"
      by (auto simp: max_attempts_def)
    then have "\<not> may_retry c \<longrightarrow> length (request_of env c tok # rqs) \<le> 2 \<and> distinct (request_of env c tok # rqs)"
      using request_of_inject by fastforce
    with r show ?thesis by (intro exI [of _ "request_of env c tok # rqs"]) (auto simp: max_attempts_def)
  qed
qed

text \<open>
  One logical Drive call sends at most six HTTP requests, five attempts and one re-send after a
  rejected token, and all of them are the same request: method, path and body.
\<close>

theorem call_request_bound:
  "case execute_with_retry env c w of (_, w') \<Rightarrow>
     sent w' = sent w @ sent_since w w' \<and> length (sent_since w w') \<le> 6 \<and>
     list_all (same_request c) (sent_since w w')"
  using execute_with_retry_sent [of env c w] by (fastforce simp: sent_since_def split: prod.splits)


text \<open>A network that loses every answer, and an empty history.\<close>

definition lost_env :: "unit drive_env" where
  "lost_env =
     \<lparr>exchange = (\<lambda>rq n. (\<lparr>transport_ok = False, status = 0, body = [], retry_after = [], location = [],
        held_range = []\<rparr>, n)),
      token_of = (\<lambda>n. (Inr ''tok'', n)), refresh_of = (\<lambda>t n. (Inr [], n)),
      parse_json = (\<lambda>s. None), serialize_json = (\<lambda>j. []), boundary_of = (\<lambda>n. (''b'', n)),
      env_drive_id = [], env_quota_project = []\<rparr>"

definition start_world :: "unit world" where
  "start_world = \<lparr>calls = no_calls, sent = [], slept = [], net = ()\<rparr>"

definition trash_call :: drive_call where
  "trash_call = \<lparr>c_method = PATCH, c_path = ''/f'', c_headers = [], c_body = ''{}'', c_content_type = [],
     c_counter = FilesDelete, c_success = [200], c_retry_non_idempotent = False\<rparr>"


end
