(* ===== verification/DriveCalls.thy ===== *)
theory DriveCalls
  imports Client
begin

text \<open>
  The operations of \<open>GDriveClientImpl\<close> (\<open>src/gdrive_client.cpp\<close>): every Drive call as the request it
  sends through the retry loop, the paginated listing and the resumable-upload loop. The two loops
  whose end depends on the server are \<open>partial_function (option)\<close>: \<open>None\<close> means they never return.
\<close>

section \<open>Single calls\<close>

definition api :: string where "api = ''/drive/v3/files''"
definition upload_api :: string where "upload_api = ''/upload/drive/v3/files''"
definition json_content_type :: string where "json_content_type = ''application/json; charset=UTF-8''"

definition get_metadata :: "'w drive_env \<Rightarrow> string \<Rightarrow> (drive_response, 'w) io" where
  "get_metadata env file_id = execute_with_retry env
     \<lparr>c_method = GET,
      c_path = api @ ''/'' @ url_encode file_id @ ''?fields='' @ url_encode file_fields_mask @ ''&'' @ all_drives_params,
      c_headers = [], c_body = [], c_content_type = [], c_counter = FilesGet, c_success = [200],
      c_retry_non_idempotent = False\<rparr>"

definition download :: "'w drive_env \<Rightarrow> string \<Rightarrow> int \<Rightarrow> int \<Rightarrow> (drive_response, 'w) io" where
  "download env file_id start end' = execute_with_retry env
     \<lparr>c_method = GET,
      c_path = api @ ''/'' @ url_encode file_id @ ''?alt=media&'' @ all_drives_params,
      c_headers = [(''Range'', build_range_header start end')], c_body = [], c_content_type = [],
      c_counter = FilesMedia, c_success = [200, 206], c_retry_non_idempotent = False\<rparr>"

definition export_file :: "'w drive_env \<Rightarrow> string \<Rightarrow> string \<Rightarrow> (drive_response, 'w) io" where
  "export_file env file_id export_mime = execute_with_retry env
     \<lparr>c_method = GET,
      c_path = api @ ''/'' @ url_encode file_id @ ''/export?mimeType='' @ url_encode export_mime @ ''&'' @ all_drives_params,
      c_headers = [], c_body = [], c_content_type = [], c_counter = FilesExport, c_success = [200],
      c_retry_non_idempotent = False\<rparr>"

definition generate_file_id :: "'w drive_env \<Rightarrow> (drive_response, 'w) io" where
  "generate_file_id env = execute_with_retry env
     \<lparr>c_method = GET, c_path = api @ ''/generateIds?count=1&space=drive&'' @ all_drives_params,
      c_headers = [], c_body = [], c_content_type = [], c_counter = FilesGet, c_success = [200],
      c_retry_non_idempotent = False\<rparr>"

definition quoted :: "string \<Rightarrow> string" where "quoted s = dquote # s @ [dquote]"

text \<open>The metadata part of an upload; members are separated by commas as they are added.\<close>

definition comma_after :: "string \<Rightarrow> string" where
  "comma_after so_far = (if so_far = [] then [] else '','')"

definition upload_metadata :: "string \<Rightarrow> string \<Rightarrow> string \<Rightarrow> string \<Rightarrow> string \<Rightarrow> string" where
  "upload_metadata file_id parent_id nm content_type reserved_id =
     (let m = (if nm \<noteq> [] then quoted ''name'' @ '':'' @ quoted (json_escape nm) else []);
          m = (if parent_id \<noteq> [] \<and> file_id = []
               then m @ comma_after m @ quoted ''parents'' @ '':['' @ quoted (json_escape parent_id) @ '']'' else m);
          m = (if content_type = folder_mime_type
               then m @ comma_after m @ quoted ''mimeType'' @ '':'' @ quoted (json_escape content_type) else m);
          m = (if reserved_id \<noteq> [] \<and> file_id = []
               then m @ comma_after m @ quoted ''id'' @ '':'' @ quoted (json_escape reserved_id) else m) in
      ''{'' @ m @ ''}'')"

definition upload_path :: "string \<Rightarrow> string \<Rightarrow> string" where
  "upload_path upload_type file_id =
     upload_api @ (if file_id = [] then [] else ''/'' @ url_encode file_id) @ ''?uploadType='' @ upload_type @
     ''&fields='' @ url_encode file_fields_mask @ ''&'' @ all_drives_params"

definition upload ::
    "'w drive_env \<Rightarrow> string \<Rightarrow> string \<Rightarrow> string \<Rightarrow> string \<Rightarrow> string \<Rightarrow> string \<Rightarrow> (drive_response, 'w) io" where
  "upload env file_id parent_id nm content_type data reserved_id w =
     (let metadata = upload_metadata file_id parent_id nm content_type reserved_id in
      if content_type = folder_mime_type then
        execute_with_retry env
          \<lparr>c_method = POST,
           c_path = api @ ''?fields='' @ url_encode file_fields_mask @ ''&'' @ all_drives_params,
           c_headers = [], c_body = metadata, c_content_type = json_content_type, c_counter = FilesCreate,
           c_success = [200], c_retry_non_idempotent = False\<rparr> w
      else
        case boundary_of env (net w) of (boundary, n) \<Rightarrow>
        let w = w\<lparr>net := n\<rparr>;
            content = build_multipart_body boundary metadata content_type data;
            content_type_header = ''multipart/related; boundary='' @ boundary in
        if file_id = [] then
          let create = \<lparr>c_method = POST, c_path = upload_path ''multipart'' [], c_headers = [],
                        c_body = content, c_content_type = content_type_header, c_counter = FilesCreate,
                        c_success = [200], c_retry_non_idempotent = reserved_id \<noteq> []\<rparr> in
          (case execute_with_retry env create w of
             (Inl e, w) \<Rightarrow> (Inl e, w)
           | (Inr resp, w) \<Rightarrow>
               if reserved_id \<noteq> [] \<and> \<not> resp_ok resp \<and> resp_status resp = 409 then get_metadata env reserved_id w
               else (Inr resp, w))
        else
          execute_with_retry env
            \<lparr>c_method = PATCH, c_path = upload_path ''multipart'' file_id, c_headers = [],
             c_body = content, c_content_type = content_type_header, c_counter = FilesUpdate,
             c_success = [200], c_retry_non_idempotent = False\<rparr> w)"

definition start_resumable_upload ::
    "'w drive_env \<Rightarrow> string \<Rightarrow> string \<Rightarrow> string \<Rightarrow> string \<Rightarrow> (drive_response, 'w) io" where
  "start_resumable_upload env file_id parent_id nm content_type =
     bind (execute_with_retry env
        \<lparr>c_method = (if file_id = [] then POST else PATCH), c_path = upload_path ''resumable'' file_id,
         c_headers = [(''X-Upload-Content-Type'', if content_type = [] then octet_stream else content_type)],
         c_body = upload_metadata file_id parent_id nm [] [], c_content_type = json_content_type,
         c_counter = (if file_id = [] then FilesCreate else FilesUpdate), c_success = [200],
         c_retry_non_idempotent = True\<rparr>)
      (\<lambda>resp.
        if resp_ok resp \<and> drive_session_path (resp_location resp) = None then
          ret (resp\<lparr>resp_ok := False, resp_error := (resp_error resp)
            \<lparr>err_kind := UNKNOWN,
             message := ''Drive returned no usable resumable-session URI (expected an https Location on '' @
                        ''www.googleapis.com)''\<rparr>\<rparr>)
        else ret resp)"

definition delete_file :: "'w drive_env \<Rightarrow> string \<Rightarrow> bool \<Rightarrow> (drive_response, 'w) io" where
  "delete_file env file_id permanent =
     (let path = api @ ''/'' @ url_encode file_id @ ''?'' @ all_drives_params in
      if permanent then
        execute_with_retry env
          \<lparr>c_method = DELETE, c_path = path, c_headers = [], c_body = [], c_content_type = [],
           c_counter = FilesDelete, c_success = [204], c_retry_non_idempotent = False\<rparr>
      else
        execute_with_retry env
          \<lparr>c_method = PATCH, c_path = path @ ''&fields='' @ url_encode file_fields_mask, c_headers = [],
           c_body = ''{'' @ quoted ''trashed'' @ '':true}'', c_content_type = ''application/json'',
           c_counter = FilesDelete, c_success = [200], c_retry_non_idempotent = False\<rparr>)"

definition move :: "'w drive_env \<Rightarrow> string \<Rightarrow> string \<Rightarrow> string \<Rightarrow> string \<Rightarrow> (drive_response, 'w) io" where
  "move env file_id new_parent_id new_name old_parent_id = execute_with_retry env
     \<lparr>c_method = PATCH,
      c_path = api @ ''/'' @ url_encode file_id @ ''?fields='' @ url_encode file_fields_mask @ ''&'' @ all_drives_params @
        (if new_parent_id \<noteq> [] then ''&addParents='' @ url_encode new_parent_id else []) @
        (if old_parent_id \<noteq> [] then ''&removeParents='' @ url_encode old_parent_id else []),
      c_headers = [],
      c_body = (if new_name \<noteq> [] then ''{'' @ quoted ''name'' @ '':'' @ quoted (json_escape new_name) @ ''}'' else ''{}''),
      c_content_type = ''application/json'', c_counter = FilesUpdate, c_success = [200],
      c_retry_non_idempotent = False\<rparr>"

section \<open>The paginated listing\<close>

definition list_call :: "'w drive_env \<Rightarrow> string \<Rightarrow> string \<Rightarrow> drive_call" where
  "list_call env query page_token =
     \<lparr>c_method = GET,
      c_path = api @ ''?q='' @ url_encode query @ ''&pageSize=1000&fields='' @ url_encode list_fields_mask @ ''&'' @
        all_drives_params @
        (if env_drive_id env \<noteq> [] then ''&corpora=drive&driveId='' @ url_encode (env_drive_id env) else []) @
        (if page_token \<noteq> [] then ''&pageToken='' @ url_encode page_token else []),
      c_headers = [], c_body = [], c_content_type = [], c_counter = FilesList, c_success = [200],
      c_retry_non_idempotent = False\<rparr>"

definition malformed_listing :: "int \<Rightarrow> drive_response" where
  "malformed_listing st = no_response\<lparr>resp_status := st,
     resp_error := no_error\<lparr>err_kind := UNKNOWN, message := ''malformed files.list response body''\<rparr>\<rparr>"

definition whole_listing :: "'w drive_env \<Rightarrow> drive_file_meta list \<Rightarrow> drive_response" where
  "whole_listing env fs = no_response\<lparr>resp_ok := True, resp_status := 200,
     resp_body := serialize_json env (listing_to_json fs)\<rparr>"

partial_function (option) list_loop ::
    "'w drive_env \<Rightarrow> string \<Rightarrow> drive_file_meta list \<Rightarrow> string \<Rightarrow> 'w world \<Rightarrow>
     (drive_response outcome \<times> 'w world) option" where
  "list_loop env query all_files token w =
     (case execute_with_retry env (list_call env query token) w of
        (Inl e, w) \<Rightarrow> Some (Inl e, w)
      | (Inr resp, w) \<Rightarrow>
          if \<not> resp_ok resp then Some (Inr resp, w)
          else (case parse_file_list (parse_json env) (resp_body resp) of
              None \<Rightarrow> Some (Inr (malformed_listing (resp_status resp)), w)
            | Some (page_files, next_token) \<Rightarrow>
                if next_token = [] then Some (Inr (whole_listing env (all_files @ page_files)), w)
                else list_loop env query (all_files @ page_files) next_token w))"

definition list_files ::
    "'w drive_env \<Rightarrow> string \<Rightarrow> 'w world \<Rightarrow> (drive_response outcome \<times> 'w world) option" where
  "list_files env query w = list_loop env query [] [] w"

section \<open>The upload of one chunk\<close>

definition session_request ::
    "'w drive_env \<Rightarrow> string \<Rightarrow> string \<Rightarrow> string \<Rightarrow> counter \<Rightarrow> 'w world \<Rightarrow> raw_result \<times> 'w world" where
  "session_request env path range_text data k w =
     do_http env PUT None path [(''Content-Range'', range_text)] data octet_stream (count_call k w)"

definition bad_status :: "raw_result \<Rightarrow> bool" where
  "bad_status raw \<longleftrightarrow> transport_ok raw \<and> status raw \<noteq> 308 \<and> (status raw < 200 \<or> status raw \<ge> 300)"

definition chunk_error :: "'w drive_env \<Rightarrow> raw_result \<Rightarrow> gdrive_error" where
  "chunk_error env raw =
     (if bad_status raw then classify_drive_error (parse_json env) (status raw) (body raw) (retry_after raw)
      else no_error)"

definition reply_of :: "'w drive_env \<Rightarrow> raw_result \<Rightarrow> upload_reply" where
  "reply_of env raw =
     \<lparr>reply_transport_ok = transport_ok raw, reply_status = status raw, reply_range = held_range raw,
      reply_retryable = is_retryable (chunk_error env raw)\<rparr>"

definition chunk_request ::
    "'w drive_env \<Rightarrow> string \<Rightarrow> upload_buffer \<Rightarrow> bool \<Rightarrow> chunk_state \<Rightarrow> upload_step \<Rightarrow> 'w world \<Rightarrow>
     raw_result \<times> 'w world" where
  "chunk_request env path buf final st step w =
     (if step_kind step = SEND \<and> skip st < length (pending buf) then
        session_request env path (content_range buf final (skip st)) (drop (skip st) (pending buf)) UploadChunks w
      else
        session_request env path (''bytes */'' @ (if final then decimal (buf_total buf) else ''*'')) []
          UploadStatusQueries w)"

definition chunk_failure :: "'w drive_env \<Rightarrow> raw_result \<Rightarrow> upload_step \<Rightarrow> drive_response" where
  "chunk_failure env raw step =
     no_response\<lparr>resp_status := (if transport_ok raw then status raw else 0), resp_body := body raw,
       resp_error :=
         (if ambiguous step then no_error\<lparr>err_kind := TRANSIENT,
            message := ''the final chunk of a resumable upload got no usable answer from Drive; the change may or '' @
                       ''may not have been applied. Check the destination before retrying.''\<rparr>
          else if bad_status raw then chunk_error env raw
          else no_error\<lparr>err_kind := (if transport_ok raw then UNKNOWN else TRANSIENT),
                        message := step_error step\<rparr>)\<rparr>"

partial_function (option) chunk_loop ::
    "'w drive_env \<Rightarrow> string \<Rightarrow> upload_buffer \<Rightarrow> bool \<Rightarrow> chunk_state \<Rightarrow> upload_step \<Rightarrow> 'w world \<Rightarrow>
     (drive_response outcome \<times> 'w world) option" where
  "chunk_loop env path buf final st step w =
     (case chunk_request env path buf final st step w of (raw, w) \<Rightarrow>
      case next_upload_step buf final st (reply_of env raw) of (step, st) \<Rightarrow>
      case step_kind step of
        DONE \<Rightarrow> Some (Inr (no_response\<lparr>resp_ok := True, resp_status := status raw, resp_body := body raw\<rparr>), w)
      | ACCEPTED \<Rightarrow> Some (Inr (no_response\<lparr>resp_ok := True, resp_status := 308\<rparr>), w)
      | SEND \<Rightarrow> chunk_loop env path buf final st step
          (if backoff step
           then sleep_backoff (max 1 (max (failures st) (stalls st)))
                  (if transport_ok raw then retry_after_seconds (chunk_error env raw) else 0) (count_retry w)
           else w)
      | ASK_STATUS \<Rightarrow> chunk_loop env path buf final st step
          (if backoff step
           then sleep_backoff (max 1 (max (failures st) (stalls st)))
                  (if transport_ok raw then retry_after_seconds (chunk_error env raw) else 0) (count_retry w)
           else w)
      | FAIL \<Rightarrow> Some (Inr (chunk_failure env raw step), w))"

definition upload_chunk ::
    "'w drive_env \<Rightarrow> string \<Rightarrow> upload_buffer \<Rightarrow> bool \<Rightarrow> 'w world \<Rightarrow>
     (drive_response outcome \<times> 'w world) option" where
  "upload_chunk env session_uri buf final w =
     (case drive_session_path session_uri of
        None \<Rightarrow> Some (Inr (no_response\<lparr>resp_error := no_error\<lparr>err_kind := UNKNOWN,
          message := ''refusing to upload to a resumable-session URI that is not https on '' @
                     ''www.googleapis.com''\<rparr>\<rparr>), w)
      | Some path \<Rightarrow> chunk_loop env path buf final fresh_chunk_state first_step w)"

text \<open>\<open>CancelUpload\<close>: one DELETE on a connection of its own, the answer ignored.\<close>

definition cancel_upload :: "'w drive_env \<Rightarrow> string \<Rightarrow> 'w world \<Rightarrow> 'w world" where
  "cancel_upload env session_uri w =
     (case drive_session_path session_uri of
        None \<Rightarrow> w
      | Some path \<Rightarrow> snd (do_http env DELETE None path [] [] [] (count_call UploadAborts w)))"

section \<open>A listing is complete or an error\<close>

text \<open>
  The pages of a listing as the server gives them: every page was fetched and parsed, the last one has
  no next token.
\<close>

inductive pages ::
    "'w drive_env \<Rightarrow> string \<Rightarrow> string \<Rightarrow> 'w world \<Rightarrow> drive_file_meta list \<Rightarrow> 'w world \<Rightarrow> bool"
  for env query where
  last_page: "execute_with_retry env (list_call env query tok) w = (Inr resp, w') \<Longrightarrow> resp_ok resp \<Longrightarrow>
     parse_file_list (parse_json env) (resp_body resp) = Some (fs, []) \<Longrightarrow>
     pages env query tok w fs w'"
| next_page: "execute_with_retry env (list_call env query tok) w = (Inr resp, w') \<Longrightarrow> resp_ok resp \<Longrightarrow>
     parse_file_list (parse_json env) (resp_body resp) = Some (fs, next_tok) \<Longrightarrow> next_tok \<noteq> [] \<Longrightarrow>
     pages env query next_tok w' gs w'' \<Longrightarrow> pages env query tok w (fs @ gs) w''"

lemma pages_list_loop:
  "pages env query tok w fs w' \<Longrightarrow>
   list_loop env query acc tok w = Some (Inr (whole_listing env (acc @ fs)), w')"
proof (induction arbitrary: acc rule: pages.induct)
  case (last_page tok w resp w' fs)
  then show ?case by (subst list_loop.simps) simp
next
  case (next_page tok w resp w' fs next_tok gs w'')
  then show ?case by (subst list_loop.simps) simp
qed

lemma list_loop_pages:
  "list_loop env query acc tok w = Some y \<Longrightarrow>
   (\<exists>fs. pages env query tok w fs (snd y) \<and> fst y = Inr (whole_listing env (acc @ fs))) \<or>
   (\<forall>resp. fst y = Inr resp \<longrightarrow> \<not> resp_ok resp)"
proof (induction rule: list_loop.raw_induct [rotated, consumes 1, case_names step])
  case (step loop env query acc tok w y)
  obtain a b where y: "y = (a, b)" by fastforce
  note 1 = step [unfolded y]
  obtain r1 w1 where e: "execute_with_retry env (list_call env query tok) w = (r1, w1)" by fastforce
  show ?case
  proof (cases r1)
    case (Inl x)
    with 1 e show ?thesis by (auto simp: y)
  next
    case (Inr resp)
    show ?thesis
    proof (cases "resp_ok resp")
      case False
      with 1 e Inr show ?thesis by (auto simp: y)
    next
      case ok: True
      show ?thesis
      proof (cases "parse_file_list (parse_json env) (resp_body resp)")
        case None
        with 1 e Inr ok show ?thesis by (auto simp: y malformed_listing_def no_response_def)
      next
        case (Some p)
        obtain fs nt where p: "p = (fs, nt)" by fastforce
        show ?thesis
        proof (cases "nt = []")
          case True
          with 1 e Inr ok Some p have "a = Inr (whole_listing env (acc @ fs)) \<and> b = w1" by simp
          moreover have "pages env query tok w fs w1"
            using last_page e Inr ok Some p True by blast
          ultimately show ?thesis unfolding y by auto
        next
          case False
          with 1(2) e Inr ok Some p have "loop env query (acc @ fs) nt w1 = Some (a, b)" by simp
          from 1(1) [OF this] consider
              "\<exists>gs. pages env query nt w1 gs b \<and> a = Inr (whole_listing env ((acc @ fs) @ gs))"
            | "\<forall>resp. a = Inr resp \<longrightarrow> \<not> resp_ok resp" by auto
          then show ?thesis
          proof cases
            case 1
            then obtain gs where g: "pages env query nt w1 gs b" "a = Inr (whole_listing env ((acc @ fs) @ gs))"
              by blast
            then have "pages env query tok w (fs @ gs) b"
              using next_page e Inr ok Some p False by blast
            with g show ?thesis by (auto simp: y)
          next
            case 2
            then show ?thesis by (simp add: y)
          qed
        qed
      qed
    qed
  qed
qed

lemma list_files_pages:
  assumes "pages env query [] w fs w'"
  shows "list_files env query w = Some (Inr (whole_listing env fs), w')"
  using pages_list_loop [OF assms, of "[]"] by (simp add: list_files_def)

text \<open>
  C27. A caller never sees a partial listing: a listing that succeeds is the concatenation of all the
  pages the server has for the query, down to the one without a next token, and every such sequence
  of pages is returned.
\<close>

theorem listing_complete:
  "list_files env query w = Some (Inr resp, w') \<and> resp_ok resp \<longleftrightarrow>
   (\<exists>fs. pages env query [] w fs w' \<and> resp = whole_listing env fs)"
proof
  assume r: "list_files env query w = Some (Inr resp, w') \<and> resp_ok resp"
  then have "list_loop env query [] [] w = Some (Inr resp, w')" by (simp add: list_files_def)
  from list_loop_pages [OF this] r show "\<exists>fs. pages env query [] w fs w' \<and> resp = whole_listing env fs"
    by auto
next
  assume "\<exists>fs. pages env query [] w fs w' \<and> resp = whole_listing env fs"
  then show "list_files env query w = Some (Inr resp, w') \<and> resp_ok resp"
    using list_files_pages [of env query w _ w'] by (auto simp: whole_listing_def)
qed

text \<open>
  The files of a finished sequence of pages reach the caller unchanged: listing them, serialising
  the whole and parsing it again gives exactly the files of all pages, in order, and no page token. The
  JSON library is only required to parse what it serialised.
\<close>

theorem listing_roundtrip:
  assumes "pages env query [] w fs w'" and "list_all wf_meta fs"
    and "parse_json env (serialize_json env (listing_to_json fs)) = Some (listing_to_json fs)"
  shows "\<exists>resp. list_files env query w = Some (Inr resp, w') \<and> resp_ok resp \<and>
    parse_file_list (parse_json env) (resp_body resp) = Some (fs, [])"
  using list_files_pages [OF assms(1)] parse_file_list_listing [OF assms(2), of "parse_json env", OF assms(3)]
  by (simp add: whole_listing_def)

definition sample_meta :: drive_file_meta where
  "sample_meta = \<lparr>meta_id = ''x1'', meta_name = ''a.csv'', mime_type = ''text/csv'', meta_size = 12,
     modified_time = [], head_revision_id = ''r''\<rparr>"

text \<open>A server with one page, and a JSON library that knows this one text.\<close>

definition page_env :: "unit drive_env" where
  "page_env = lost_env
     \<lparr>exchange := (\<lambda>rq n. (\<lparr>transport_ok = True, status = 200, body = ''p'', retry_after = [], location = [],
        held_range = []\<rparr>, n)),
      parse_json := (\<lambda>s. if s = ''p'' then Some (listing_to_json [sample_meta]) else None),
      serialize_json := (\<lambda>j. ''p'')\<rparr>"

theorem listing_roundtrip_witness:
  "\<exists>w' resp. list_files page_env ''q'' start_world = Some (Inr resp, w') \<and> resp_ok resp \<and>
    parse_file_list (parse_json page_env) (resp_body resp) = Some ([sample_meta], [])"
proof -
  have wf: "list_all wf_meta [sample_meta]" by (simp add: wf_meta_def sample_meta_def)
  have p: "parse_json page_env ''p'' = Some (listing_to_json [sample_meta])"
    by (simp add: page_env_def)
  obtain w' where e: "execute_with_retry page_env (list_call page_env ''q'' []) start_world =
      (Inr (no_response\<lparr>resp_ok := True, resp_status := 200, resp_body := ''p''\<rparr>), w')"
    by (simp add: execute_with_retry_def execute_loop.simps do_http_def page_env_def lost_env_def list_call_def
        no_response_def Let_def)
  have "pages page_env ''q'' [] start_world [sample_meta] w'"
    using last_page [OF e] parse_file_list_listing [OF wf, of "parse_json page_env", OF p] by simp
  moreover have "parse_json page_env (serialize_json page_env (listing_to_json [sample_meta])) =
      Some (listing_to_json [sample_meta])"
    by (simp add: page_env_def)
  ultimately show ?thesis using listing_roundtrip [OF _ wf] by blast
qed

section \<open>The chunk loop returns\<close>

text \<open>
  A session whose acknowledged offset, a function of the state of the outside, never decreases.
\<close>

definition keeps_acknowledged :: "'w drive_env \<Rightarrow> ('w \<Rightarrow> nat) \<Rightarrow> bool" where
  "keeps_acknowledged env held \<longleftrightarrow>
     (\<forall>rq n. case exchange env rq n of (raw, n') \<Rightarrow>
        held n \<le> held n' \<and>
        (transport_ok raw \<longrightarrow> status raw = 308 \<longrightarrow> parse_drive_range_next (held_range raw) \<noteq> None \<longrightarrow>
         parse_drive_range_next (held_range raw) = Some (held n')))"

lemma chunk_request_held:
  assumes "keeps_acknowledged env held" "chunk_request env path buf final st step w = (raw, w')"
  shows "length (sent w') = Suc (length (sent w)) \<and> held (net w) \<le> held (net w') \<and>
    (transport_ok raw \<longrightarrow> status raw = 308 \<longrightarrow> parse_drive_range_next (held_range raw) \<noteq> None \<longrightarrow>
     parse_drive_range_next (held_range raw) = Some (held (net w')))"
proof -
  have "length (sent w') = Suc (length (sent w)) \<and> (\<exists>rq. exchange env rq (net w) = (raw, net w'))"
    using assms(2)
    by (auto simp: chunk_request_def session_request_def do_http_def Let_def count_call_def
        split: if_splits prod.splits)
  with assms(1) show ?thesis unfolding keeps_acknowledged_def by (metis (mono_tags, lifting) case_prod_conv)
qed

lemma net_unchanged [simp]: "net (count_retry w) = net w" "net (sleep_backoff n r w) = net w"
  by (simp_all add: count_retry_def sleep_backoff_def)

lemma chunk_loop_returns:
  assumes "keeps_acknowledged env held" "offset buf + skip st \<le> held (net w)" "skip st \<le> length (pending buf)"
    "offset buf + length (pending buf) < 2 ^ 64"
  shows "\<exists>r w'. chunk_loop env path buf final st step w = Some (Inr r, w') \<and>
    length (sent w') \<le> length (sent w) + chunk_budget buf st + 1"
  using assms(2,3)
proof (induction "chunk_budget buf st" arbitrary: st step w rule: less_induct)
  case less
  obtain raw w1 where r: "chunk_request env path buf final st step w = (raw, w1)" by fastforce
  note held = chunk_request_held [OF assms(1) r]
  obtain s st' where n: "next_upload_step buf final st (reply_of env raw) = (s, st')" by fastforce
  show ?case
  proof (cases "step_kind s = SEND \<or> step_kind s = ASK_STATUS")
    case False
    with r n held show ?thesis
      by (subst chunk_loop.simps) (auto split: step_kind.split)
  next
    case True
    let ?w = "if backoff s then sleep_backoff (max 1 (max (failures st') (stalls st')))
        (if transport_ok raw then retry_after_seconds (chunk_error env raw) else 0) (count_retry w1) else w1"
    have step: "chunk_loop env path buf final st step w = chunk_loop env path buf final st' s ?w"
      using True r n by (subst chunk_loop.simps) auto
    have "monotone_session (offset buf + skip st) [reply_of env raw]"
      using held less.prems by (auto simp: reply_of_def split: option.splits)
    from next_upload_step_budget [OF n True this less.prems(2) assms(4)]
    have b: "chunk_budget buf st' < chunk_budget buf st" "skip st' \<le> length (pending buf)" by auto
    have "offset buf + skip st' \<le> held (net w1)"
    proof (cases "transport_ok raw \<and> status raw = 308")
      case True
      with n have "on_resume_incomplete buf final st (held_range raw) = (s, st')"
        by (simp add: next_upload_step_def reply_of_def)
      moreover from this \<open>step_kind s = SEND \<or> step_kind s = ASK_STATUS\<close>
      obtain m where m: "parse_drive_range_next (held_range raw) = Some m"
        by (cases "parse_drive_range_next (held_range raw)") (auto simp: on_resume_incomplete_def fail_step_def)
      moreover have "offset buf + skip st \<le> m" using held m True less.prems by auto
      ultimately have "m = offset buf + skip st'"
        using on_resume_incomplete_budget [OF _ \<open>step_kind s = SEND \<or> step_kind s = ASK_STATUS\<close> m]
          less.prems(2) assms(4) by blast
      with held m True show ?thesis by auto
    next
      case False
      with n have "skip st' = skip st"
        by (auto simp: next_upload_step_def reply_of_def fail_step_def Let_def split: if_splits)
      with held less.prems show ?thesis by auto
    qed
    then have "offset buf + skip st' \<le> held (net ?w)" by simp
    from less.hyps [OF b(1) this b(2), of s] step b held show ?thesis by auto
  qed
qed

text \<open>
  C28. Sending one chunk returns, whatever the network does, as long as the session keeps what it has
  acknowledged; for a chunk of \<open>n\<close> bytes it takes at most \<open>6 n + 11\<close> requests. It raises nothing: every
  failure is a response.
\<close>

theorem upload_chunk_returns:
  assumes "keeps_acknowledged env held" and "offset buf \<le> held (net w)"
    and "offset buf + length (pending buf) < 2 ^ 64"
  shows "\<exists>r w'. upload_chunk env session_uri buf final w = Some (Inr r, w') \<and>
    length (sent w') \<le> length (sent w) + 6 * length (pending buf) + 11"
proof (cases "drive_session_path session_uri")
  case None
  then show ?thesis by (simp add: upload_chunk_def)
next
  case (Some path)
  then show ?thesis
    using chunk_loop_returns [of env held buf fresh_chunk_state w path final first_step] assms
    by (auto simp: upload_chunk_def fresh_chunk_state_def chunk_budget_def max_chunk_attempts_def)
qed

theorem upload_chunk_returns_witness:
  "\<exists>r w'. upload_chunk lost_env ''https://www.googleapis.com/s'' ((new_upload_buffer 1)\<lparr>pending := ''ab''\<rparr>) True
     start_world = Some (Inr r, w') \<and> length (sent w') \<le> 23"
proof -
  have "keeps_acknowledged lost_env (\<lambda>_. 0)" by (simp add: keeps_acknowledged_def lost_env_def)
  from upload_chunk_returns [OF this, where buf = "(new_upload_buffer 1)\<lparr>pending := ''ab''\<rparr>"
      and w = start_world and session_uri = "''https://www.googleapis.com/s''" and final = True]
  show ?thesis by (simp add: new_upload_buffer_def start_world_def)
qed

end
