(* ===== verification/Lru.thy ===== *)
theory Lru
  imports Prelude "HOL-Library.AList"
begin

text \<open>
  Least-recently-used eviction, as both caches of the program do it: as long as the store is over its
  bound, the evictable entry with the oldest stamp is dropped. The locale states the contract of one
  such loop on a store of any shape; the block cache and the path cache interpret it on their own
  definitions.
\<close>

text \<open>The scan for the victim: the first entry with the smallest stamp among the evictable ones.\<close>

fun victim :: "('e \<Rightarrow> bool) \<Rightarrow> ('e \<Rightarrow> nat) \<Rightarrow> ('k \<times> 'e) list \<Rightarrow> ('k \<times> 'e) option" where
  "victim ok stamp [] = None"
| "victim ok stamp ((k, e) # rest) =
     (case victim ok stamp rest of
        None \<Rightarrow> if ok e then Some (k, e) else None
      | Some (k', e') \<Rightarrow> if ok e \<and> stamp e \<le> stamp e' then Some (k, e) else Some (k', e'))"

lemma victim_None: "victim ok stamp xs = None \<longleftrightarrow> (\<forall>(k, e)\<in>set xs. \<not> ok e)"
  by (induction ok stamp xs rule: victim.induct) (auto split: option.splits if_splits)

lemma victim_Some:
  "victim ok stamp xs = Some (k, e) \<Longrightarrow>
   (k, e) \<in> set xs \<and> ok e \<and> (\<forall>(k', e')\<in>set xs. ok e' \<longrightarrow> stamp e \<le> stamp e')"
proof (induction ok stamp xs arbitrary: k e rule: victim.induct)
  case (2 ok stamp k0 e0 rest)
  show ?case
  proof (cases "victim ok stamp rest")
    case None
    then have "\<forall>(k', e')\<in>set rest. \<not> ok e'" by (simp add: victim_None)
    with 2 None show ?thesis by (auto split: if_splits)
  next
    case (Some p)
    obtain k1 e1 where p: "p = (k1, e1)" by fastforce
    with 2 Some have "(k1, e1) \<in> set rest \<and> ok e1 \<and> (\<forall>(k', e')\<in>set rest. ok e' \<longrightarrow> stamp e1 \<le> stamp e')"
      by blast
    with 2 Some p show ?thesis by (auto split: if_splits)
  qed
qed simp

lemma victim_in: "victim ok stamp xs = Some (k, e) \<Longrightarrow> (k, e) \<in> set xs"
  using victim_Some by fast

lemma set_delete: "set (AList.delete k xs) = {(k', e) \<in> set xs. k' \<noteq> k}"
  by (auto simp: AList.delete_eq)

lemma length_delete_less: "(k, e) \<in> set xs \<Longrightarrow> length (AList.delete k xs) < length xs"
  by (auto simp: AList.delete_eq intro: length_filter_less)

lemma distinct_delete: "distinct (map fst xs) \<Longrightarrow> distinct (map fst (AList.delete k xs))"
  by (simp add: delete_keys distinct_removeAll)

lemma sum_list_delete:
  "distinct (map fst xs) \<Longrightarrow> (k, e) \<in> set xs \<Longrightarrow>
   (\<Sum>(k, e)\<leftarrow>xs. f e) = f e + (\<Sum>(k, e)\<leftarrow>AList.delete k xs. f e :: nat)"
proof (induction xs)
  case (Cons p xs)
  obtain k' e' where p: "p = (k', e')" by fastforce
  show ?case
  proof (cases "k' = k")
    case True
    with Cons.prems p have "e' = e" "k \<notin> fst ` set xs" by (auto simp: rev_image_eqI)
    with True p show ?thesis by simp
  next
    case False
    with Cons p show ?thesis by auto
  qed
qed simp

locale lru_store =
  fixes entries :: "'s \<Rightarrow> ('k \<times> 'e) list"
    and wf :: "'s \<Rightarrow> bool"
    and over :: "'s \<Rightarrow> bool"
    and evictable :: "'s \<Rightarrow> 'e \<Rightarrow> bool"
    and stamp :: "'e \<Rightarrow> nat"
    and drop_entry :: "'k \<Rightarrow> 's \<Rightarrow> 's"
    and evict :: "'s \<Rightarrow> 's"
  assumes stops: "wf s \<Longrightarrow> \<not> over s \<or> victim (evictable s) stamp (entries s) = None \<Longrightarrow> evict s = s"
    and drops: "wf s \<Longrightarrow> over s \<Longrightarrow> victim (evictable s) stamp (entries s) = Some (k, e) \<Longrightarrow>
      evict s = evict (drop_entry k s)"
    and drop_wf: "wf s \<Longrightarrow> (k, e) \<in> set (entries s) \<Longrightarrow> wf (drop_entry k s)"
    and drop_entries: "wf s \<Longrightarrow> (k, e) \<in> set (entries s) \<Longrightarrow> entries (drop_entry k s) = AList.delete k (entries s)"
    and drop_evictable: "wf s \<Longrightarrow> (k, e) \<in> set (entries s) \<Longrightarrow> evictable (drop_entry k s) = evictable s"
    and keys: "wf s \<Longrightarrow> distinct (map fst (entries s))"
begin

lemma evict_spec:
  assumes "wf s"
  shows "wf (evict s) \<and> set (entries (evict s)) \<subseteq> set (entries s) \<and> evictable (evict s) = evictable s \<and>
    (\<forall>(k, e)\<in>set (entries s). \<not> evictable s e \<longrightarrow> (k, e) \<in> set (entries (evict s))) \<and>
    (over (evict s) \<longrightarrow> (\<forall>(k, e)\<in>set (entries (evict s)). \<not> evictable s e)) \<and>
    (\<forall>(k, e)\<in>set (entries s) - set (entries (evict s)). \<forall>(k', e')\<in>set (entries (evict s)).
       evictable s e' \<longrightarrow> stamp e \<le> stamp e')"
  using assms
proof (induction "length (entries s)" arbitrary: s rule: less_induct)
  case less
  show ?case
  proof (cases "\<not> over s \<or> victim (evictable s) stamp (entries s) = None")
    case True
    with stops [OF less.prems this] less.prems show ?thesis by (auto simp: victim_None)
  next
    case False
    then obtain k e where v: "over s" "victim (evictable s) stamp (entries s) = Some (k, e)" by auto
    let ?d = "drop_entry k s"
    note mem = victim_in [OF v(2)]
    have ev: "evict s = evict ?d" using drops less.prems v by blast
    have ent: "entries ?d = AList.delete k (entries s)" using drop_entries less.prems mem by blast
    have evi: "evictable ?d = evictable s" using drop_evictable less.prems mem by blast
    have "length (entries ?d) < length (entries s)" using ent length_delete_less mem by metis
    note IH = less.hyps [OF this drop_wf [OF less.prems mem], unfolded evi]
    have only: "e' = e" if "(k, e') \<in> set (entries s)" for e'
      using keys [OF less.prems] mem that by (metis eq_key_imp_eq_value)
    have least: "evictable s e \<and> (\<forall>(k', e')\<in>set (entries s). evictable s e' \<longrightarrow> stamp e \<le> stamp e')"
      using victim_Some [OF v(2)] by blast
    have sub: "set (entries (evict s)) \<subseteq> set (entries s)" using IH ev ent set_delete by fastforce
    show ?thesis
    proof (intro conjI)
      show "\<forall>(k', e')\<in>set (entries s). \<not> evictable s e' \<longrightarrow> (k', e') \<in> set (entries (evict s))"
        using IH ev ent only least set_delete by fastforce
      show "\<forall>(k', e')\<in>set (entries s) - set (entries (evict s)). \<forall>(k'', e'')\<in>set (entries (evict s)).
          evictable s e'' \<longrightarrow> stamp e' \<le> stamp e''"
      proof clarify
        fix k' e' k'' e''
        assume a: "(k', e') \<in> set (entries s)" "(k', e') \<notin> set (entries (evict s))"
          "(k'', e'') \<in> set (entries (evict s))" "evictable s e''"
        show "stamp e' \<le> stamp e''"
        proof (cases "k' = k")
          case True
          with a only least sub show ?thesis by fastforce
        next
          case False
          with a(1) have "(k', e') \<in> set (entries ?d)" using ent set_delete by fastforce
          with a IH ev show ?thesis by fastforce
        qed
      qed
    qed (use IH ev sub in auto)
  qed
qed

lemma evict_wf: "wf s \<Longrightarrow> wf (evict s)"
  and evict_subset: "wf s \<Longrightarrow> set (entries (evict s)) \<subseteq> set (entries s)"
  using evict_spec by blast+

lemma evict_keeps_pinned:
  "wf s \<Longrightarrow> (k, e) \<in> set (entries s) \<Longrightarrow> \<not> evictable s e \<Longrightarrow> (k, e) \<in> set (entries (evict s))"
  using evict_spec by fast

lemma evict_within:
  "wf s \<Longrightarrow> over (evict s) \<Longrightarrow> (k, e) \<in> set (entries (evict s)) \<Longrightarrow> \<not> evictable s e"
  using evict_spec by fast

lemma evict_oldest_first:
  "wf s \<Longrightarrow> (k, e) \<in> set (entries s) \<Longrightarrow> (k, e) \<notin> set (entries (evict s)) \<Longrightarrow>
   (k', e') \<in> set (entries (evict s)) \<Longrightarrow> evictable s e' \<Longrightarrow> stamp e \<le> stamp e'"
  using evict_spec by fast

end

end
