(* ===== verification/BlockCache.thy ===== *)
theory BlockCache
  imports Lru
begin

text \<open>
  \<open>src/gdrive_blockcache.cpp\<close>: the shared cache of file blocks. A block that is being fetched is a
  future in the map; every thread that asks for it waits on that future. The sections of the source
  that hold the lock are one operation each; what a thread does between them, the fetch and the
  fulfilment of the promise, are steps of their own, so that every interleaving is a sequence of steps.

  A promise is named by the generation of the insertion that made it. The iteration order of the
  hash map is left open by the source and is the list order here; no property depends on it.
\<close>

section \<open>State\<close>

datatype 'x future = Pending | Ready string | Failed 'x

record block_entry =
  bytes :: nat
  used_at :: nat
  generation :: nat

record 'x block_cache =
  blocks :: "(string \<times> block_entry) list"
  capacity_bytes :: nat
  cached_bytes :: nat
  clock :: nat
  next_generation :: nat
  futures :: "nat \<Rightarrow> 'x future"

definition empty_block_cache :: "'x block_cache" where
  "empty_block_cache = \<lparr>blocks = [], capacity_bytes = 0, cached_bytes = 0, clock = 0, next_generation = 0,
     futures = (\<lambda>_. Pending)\<rparr>"

definition is_ready :: "'x block_cache \<Rightarrow> block_entry \<Rightarrow> bool" where
  "is_ready c e \<longleftrightarrow> futures c (generation e) \<noteq> Pending"

definition full_key :: "string \<Rightarrow> nat \<Rightarrow> nat \<Rightarrow> string" where
  "full_key key block_size block_index =
     key @ unit_sep # decimal block_size @ unit_sep # decimal block_index"

section \<open>Operations under the lock\<close>

definition drop_block :: "string \<Rightarrow> 'x block_cache \<Rightarrow> 'x block_cache" where
  "drop_block k c =
     (case map_of (blocks c) k of
        None \<Rightarrow> c
      | Some e \<Rightarrow> c\<lparr>cached_bytes := u64_sub (cached_bytes c) (bytes e), blocks := AList.delete k (blocks c)\<rparr>)"

lemma drop_block_shorter:
  "(k, e) \<in> set (blocks c) \<Longrightarrow> length (blocks (drop_block k c)) < length (blocks c)"
  by (force simp: drop_block_def length_delete_less map_of_eq_None_iff split: option.splits)

function evict_locked :: "'x block_cache \<Rightarrow> 'x block_cache" where
  "evict_locked c =
     (if capacity_bytes c = 0 then c\<lparr>blocks := [], cached_bytes := 0\<rparr>
      else if cached_bytes c > capacity_bytes c then
        (case victim (is_ready c) used_at (blocks c) of
           None \<Rightarrow> c
         | Some (k, _) \<Rightarrow> evict_locked (drop_block k c))
      else c)"
  by pat_completeness auto
termination
  by (relation "measure (\<lambda>c. length (blocks c))") (auto dest: victim_in intro: drop_block_shorter)

declare evict_locked.simps [simp del]

definition set_capacity :: "nat \<Rightarrow> 'x block_cache \<Rightarrow> 'x block_cache" where
  "set_capacity n c = evict_locked (c\<lparr>capacity_bytes := n\<rparr>)"

definition clear_blocks :: "'x block_cache \<Rightarrow> 'x block_cache" where
  "clear_blocks c = c\<lparr>blocks := [], cached_bytes := 0\<rparr>"

text \<open>
  The first locked section of \<open>GetBlock\<close>: the generation whose future the caller uses, and whether it
  is the one that fetches.
\<close>

definition lookup_or_insert :: "string \<Rightarrow> 'x block_cache \<Rightarrow> (nat \<times> bool) \<times> 'x block_cache" where
  "lookup_or_insert k c =
     (let now = Suc (clock c) in
      case map_of (blocks c) k of
        Some e \<Rightarrow>
          ((generation e, False),
           c\<lparr>clock := now, blocks := AList.update k (e\<lparr>used_at := now\<rparr>) (blocks c)\<rparr>)
      | None \<Rightarrow>
          let g = Suc (next_generation c) in
          ((g, True),
           c\<lparr>clock := now, next_generation := g,
             blocks := AList.update k \<lparr>bytes = 0, used_at = now, generation = g\<rparr> (blocks c)\<rparr>))"

text \<open>The range of the block that is fetched.\<close>

definition fetch_range :: "nat \<Rightarrow> nat \<Rightarrow> nat \<Rightarrow> nat \<times> nat" where
  "fetch_range block_index block_size file_size =
     (let start = (block_index * block_size) mod 2 ^ 64 in
      (start, min block_size (if file_size > start then file_size - start else 0)))"

text \<open>The second locked section, after a fetch that succeeded.\<close>

definition store_block :: "string \<Rightarrow> nat \<Rightarrow> string \<Rightarrow> 'x block_cache \<Rightarrow> 'x block_cache" where
  "store_block k g data c =
     (case map_of (blocks c) k of
        Some e \<Rightarrow>
          if generation e = g then
            evict_locked (c\<lparr>blocks := AList.update k (e\<lparr>bytes := length data\<rparr>) (blocks c),
                            cached_bytes := u64_add (cached_bytes c) (length data)\<rparr>)
          else evict_locked c
      | None \<Rightarrow> evict_locked c)"

text \<open>The locked section of the exception handler.\<close>

definition discard_block :: "string \<Rightarrow> nat \<Rightarrow> 'x block_cache \<Rightarrow> 'x block_cache" where
  "discard_block k g c =
     (case map_of (blocks c) k of
        Some e \<Rightarrow>
          if generation e = g then
            c\<lparr>cached_bytes := u64_sub (cached_bytes c) (bytes e), blocks := AList.delete k (blocks c)\<rparr>
          else c
      | None \<Rightarrow> c)"

definition fulfil :: "nat \<Rightarrow> 'x future \<Rightarrow> 'x block_cache \<Rightarrow> 'x block_cache" where
  "fulfil g v c = c\<lparr>futures := (futures c)(g := v)\<rparr>"

section \<open>Threads\<close>

text \<open>Where a thread stands in \<open>GetBlock\<close> for a full key, and with which generation.\<close>

datatype 'x thread =
    Idle
  | Fetching string nat
  | Stored string nat string
  | Discarded string nat 'x
  | Waiting string nat
  | Returned string "string + 'x"

record 'x cache_system =
  cache :: "'x block_cache"
  threads :: "nat \<Rightarrow> 'x thread"

definition set_thread :: "nat \<Rightarrow> 'x thread \<Rightarrow> 'x cache_system \<Rightarrow> 'x cache_system" where
  "set_thread t pc s = s\<lparr>threads := (threads s)(t := pc)\<rparr>"

text \<open>
  The steps. \<open>answer k v\<close> says that a fetch of the block with the full key \<open>k\<close> may give \<open>v\<close>, its bytes
  or an exception. The steps of \<open>SetCapacity(0)\<close> and \<open>Clear\<close>, which throw everything away, are taken only
  when \<open>resets\<close> allows them.
\<close>

inductive cache_step ::
    "(string \<Rightarrow> string + 'x \<Rightarrow> bool) \<Rightarrow> bool \<Rightarrow> 'x cache_system \<Rightarrow> 'x cache_system \<Rightarrow> bool"
  for answer resets where
  ask_miss: "threads s t = Idle \<or> threads s t = Returned k' v \<Longrightarrow>
     lookup_or_insert k (cache s) = ((g, True), c) \<Longrightarrow>
     cache_step answer resets s (set_thread t (Fetching k g) (s\<lparr>cache := c\<rparr>))"
| ask_hit: "threads s t = Idle \<or> threads s t = Returned k' v \<Longrightarrow>
     lookup_or_insert k (cache s) = ((g, False), c) \<Longrightarrow>
     cache_step answer resets s (set_thread t (Waiting k g) (s\<lparr>cache := c\<rparr>))"
| fetched: "threads s t = Fetching k g \<Longrightarrow> answer k (Inl data) \<Longrightarrow>
     cache_step answer resets s (set_thread t (Stored k g data) (s\<lparr>cache := store_block k g data (cache s)\<rparr>))"
| fetch_failed: "threads s t = Fetching k g \<Longrightarrow> answer k (Inr x) \<Longrightarrow>
     cache_step answer resets s (set_thread t (Discarded k g x) (s\<lparr>cache := discard_block k g (cache s)\<rparr>))"
| fulfilled: "threads s t = Stored k g data \<Longrightarrow>
     cache_step answer resets s
       (set_thread t (Returned k (Inl data)) (s\<lparr>cache := fulfil g (Ready data) (cache s)\<rparr>))"
| rejected: "threads s t = Discarded k g x \<Longrightarrow>
     cache_step answer resets s
       (set_thread t (Returned k (Inr x)) (s\<lparr>cache := fulfil g (Failed x) (cache s)\<rparr>))"
| got: "threads s t = Waiting k g \<Longrightarrow> futures (cache s) g = Ready data \<Longrightarrow>
     cache_step answer resets s (set_thread t (Returned k (Inl data)) s)"
| got_error: "threads s t = Waiting k g \<Longrightarrow> futures (cache s) g = Failed x \<Longrightarrow>
     cache_step answer resets s (set_thread t (Returned k (Inr x)) s)"
| set_bound: "0 < n \<or> resets \<Longrightarrow> cache_step answer resets s (s\<lparr>cache := set_capacity n (cache s)\<rparr>)"
| cleared: "resets \<Longrightarrow> cache_step answer resets s (s\<lparr>cache := clear_blocks (cache s)\<rparr>)"

inductive_cases cache_stepE [consumes 1, case_names ask_miss ask_hit fetched fetch_failed fulfilled rejected got
  got_error set_bound cleared]: "cache_step answer resets s s'"

definition initial_system :: "nat \<Rightarrow> 'x cache_system" where
  "initial_system n = \<lparr>cache = set_capacity n empty_block_cache, threads = (\<lambda>_. Idle)\<rparr>"

inductive cache_reachable :: "(string \<Rightarrow> string + 'x \<Rightarrow> bool) \<Rightarrow> bool \<Rightarrow> 'x cache_system \<Rightarrow> bool"
  for answer resets where
  initially: "0 < n \<or> resets \<Longrightarrow> cache_reachable answer resets (initial_system n)"
| stepped: "cache_reachable answer resets s \<Longrightarrow> cache_step answer resets s s' \<Longrightarrow>
     cache_reachable answer resets s'"

section \<open>Accounting\<close>

definition total_bytes :: "(string \<times> block_entry) list \<Rightarrow> nat" where
  "total_bytes bs = (\<Sum>(k, e)\<leftarrow>bs. bytes e)"

definition accounts :: "'x block_cache \<Rightarrow> bool" where
  "accounts c \<longleftrightarrow> distinct (map fst (blocks c)) \<and> cached_bytes c = total_bytes (blocks c) mod 2 ^ 64"

lemma total_bytes_delete:
  "distinct (map fst bs) \<Longrightarrow> map_of bs k = Some e \<Longrightarrow>
   total_bytes bs = bytes e + total_bytes (AList.delete k bs)"
  unfolding total_bytes_def by (rule sum_list_delete) (auto dest: map_of_SomeD)

lemma total_bytes_update:
  "distinct (map fst bs) \<Longrightarrow> map_of bs k = Some e \<Longrightarrow>
   total_bytes (AList.update k e' bs) + bytes e = total_bytes bs + bytes e'"
proof (induction bs)
  case (Cons p bs)
  obtain k' f where p: "p = (k', f)" by fastforce
  show ?case
  proof (cases "k' = k")
    case True
    with Cons.prems p show ?thesis by (simp add: total_bytes_def)
  next
    case False
    with Cons p show ?thesis by (simp add: total_bytes_def)
  qed
qed simp

lemma total_bytes_insert:
  "map_of bs k = None \<Longrightarrow> total_bytes (AList.update k e bs) = total_bytes bs + bytes e"
  by (induction bs) (auto simp: total_bytes_def)

lemma accounts_drop: "accounts c \<Longrightarrow> accounts (drop_block k c)"
  by (auto simp: accounts_def drop_block_def distinct_delete total_bytes_delete u64_mod_simps add.commute [of "bytes _"]
      split: option.splits)

lemma drop_block_other [simp]:
  "capacity_bytes (drop_block k c) = capacity_bytes c" "next_generation (drop_block k c) = next_generation c"
  "futures (drop_block k c) = futures c" "is_ready (drop_block k c) = is_ready c"
  "blocks (drop_block k c) = AList.delete k (blocks c)"
  by (auto simp: drop_block_def is_ready_def fun_eq_iff map_of_eq_None_iff split: option.splits)

text \<open>The eviction loop is the least-recently-used eviction of the locale, for a capacity above zero.\<close>

interpretation block_lru: lru_store blocks "\<lambda>c. distinct (map fst (blocks c)) \<and> 0 < capacity_bytes c"
  "\<lambda>c. cached_bytes c > capacity_bytes c" is_ready used_at drop_block evict_locked
proof unfold_locales
  fix c :: "'x block_cache"
  assume "distinct (map fst (blocks c)) \<and> 0 < capacity_bytes c"
    "\<not> cached_bytes c > capacity_bytes c \<or> victim (is_ready c) used_at (blocks c) = None"
  then show "evict_locked c = c" by (subst evict_locked.simps) auto
next
  fix c :: "'x block_cache" and k e
  assume "distinct (map fst (blocks c)) \<and> 0 < capacity_bytes c" "cached_bytes c > capacity_bytes c"
    "victim (is_ready c) used_at (blocks c) = Some (k, e)"
  then show "evict_locked c = evict_locked (drop_block k c)" by (subst evict_locked.simps) auto
qed (simp_all add: distinct_delete)

lemma accounts_empty: "accounts (c\<lparr>blocks := [], cached_bytes := 0\<rparr>)"
  by (simp add: accounts_def total_bytes_def)

lemma evict_locked_accounts: "accounts c \<Longrightarrow> accounts (evict_locked c)"
proof (induction c rule: evict_locked.induct)
  case (1 c)
  then show ?case
    by (subst evict_locked.simps)
       (auto simp: accounts_drop accounts_empty simp del: drop_block_other split: option.splits)
qed

lemma evict_locked_other [simp]:
  "capacity_bytes (evict_locked c) = capacity_bytes c" "next_generation (evict_locked c) = next_generation c"
  "futures (evict_locked c) = futures c"
proof (induction c rule: evict_locked.induct)
  case (1 c)
  { case 1 show ?case by (subst evict_locked.simps) (auto simp: "1.IH" split: option.splits) }
  { case 2 show ?case by (subst evict_locked.simps) (auto simp: "1.IH" split: option.splits) }
  { case 3 show ?case by (subst evict_locked.simps) (auto simp: "1.IH" split: option.splits) }
qed

text \<open>\<open>ent c k\<close>: the generation and the size of the entry of \<open>k\<close>.\<close>

definition ent :: "'x block_cache \<Rightarrow> string \<Rightarrow> (nat \<times> nat) option" where
  "ent c k = map_option (\<lambda>e. (generation e, bytes e)) (map_of (blocks c) k)"

lemma ent_iff_set:
  "distinct (map fst (blocks c)) \<Longrightarrow>
   ent c k = Some (g, b) \<longleftrightarrow> (\<exists>e. (k, e) \<in> set (blocks c) \<and> generation e = g \<and> bytes e = b)"
  by (auto simp: ent_def)

lemma evict_locked_zero: "capacity_bytes c = 0 \<Longrightarrow> blocks (evict_locked c) = []"
  by (subst evict_locked.simps) simp

lemma ent_evict:
  assumes "accounts c"
  shows "ent (evict_locked c) k = Some (g, b) \<Longrightarrow> ent c k = Some (g, b)"
    and "0 < capacity_bytes c \<Longrightarrow> ent c k = Some (g, b) \<Longrightarrow> futures c g = Pending \<Longrightarrow>
      ent (evict_locked c) k = Some (g, b)"
proof -
  have d: "distinct (map fst (blocks c))" "distinct (map fst (blocks (evict_locked c)))"
    using assms evict_locked_accounts by (auto simp: accounts_def)
  show "ent (evict_locked c) k = Some (g, b) \<Longrightarrow> ent c k = Some (g, b)"
  proof (cases "capacity_bytes c = 0")
    case False
    then have "set (blocks (evict_locked c)) \<subseteq> set (blocks c)"
      using d block_lru.evict_subset [of c] by simp
    then show "ent (evict_locked c) k = Some (g, b) \<Longrightarrow> ent c k = Some (g, b)" using d by (auto simp: ent_iff_set)
  qed (simp add: ent_def evict_locked_zero)
  show "0 < capacity_bytes c \<Longrightarrow> ent c k = Some (g, b) \<Longrightarrow> futures c g = Pending \<Longrightarrow>
      ent (evict_locked c) k = Some (g, b)"
    using d block_lru.evict_keeps_pinned [of c k] by (auto simp: ent_iff_set is_ready_def)
qed

lemma lookup_effect:
  assumes "accounts c" "lookup_or_insert k c = ((g, fresh), c')"
  shows "accounts c'" "capacity_bytes c' = capacity_bytes c" "futures c' = futures c"
    and "\<not> fresh \<Longrightarrow> next_generation c' = next_generation c \<and> ent c' = ent c \<and> (\<exists>b. ent c k = Some (g, b))"
    and "fresh \<Longrightarrow> g = Suc (next_generation c) \<and> next_generation c' = g \<and> ent c k = None \<and>
      ent c' = (ent c)(k \<mapsto> (g, 0))"
proof -
  consider (hit) e where "map_of (blocks c) k = Some e" "fresh = False" "g = generation e"
      "c' = c\<lparr>clock := Suc (clock c), blocks := AList.update k (e\<lparr>used_at := Suc (clock c)\<rparr>) (blocks c)\<rparr>"
    | (miss) "map_of (blocks c) k = None" "fresh = True" "g = Suc (next_generation c)"
      "c' = c\<lparr>clock := Suc (clock c), next_generation := g,
         blocks := AList.update k \<lparr>bytes = 0, used_at = Suc (clock c), generation = g\<rparr> (blocks c)\<rparr>"
    using assms(2) by (auto simp: lookup_or_insert_def Let_def split: option.splits)
  note cases = this
  show "accounts c'"
  proof (cases rule: cases)
    case hit
    with assms(1) show ?thesis
      using total_bytes_update [of "blocks c" k e "e\<lparr>used_at := Suc (clock c)\<rparr>"]
      by (auto simp: accounts_def distinct_update)
  next
    case miss
    with assms(1) show ?thesis by (auto simp: accounts_def distinct_update total_bytes_insert)
  qed
  show "capacity_bytes c' = capacity_bytes c" "futures c' = futures c"
    by (cases rule: cases; simp)+
  show "\<not> fresh \<Longrightarrow> next_generation c' = next_generation c \<and> ent c' = ent c \<and> (\<exists>b. ent c k = Some (g, b))"
    by (cases rule: cases) (auto simp: ent_def update_conv' fun_eq_iff)
  show "fresh \<Longrightarrow> g = Suc (next_generation c) \<and> next_generation c' = g \<and> ent c k = None \<and>
      ent c' = (ent c)(k \<mapsto> (g, 0))"
    by (cases rule: cases) (auto simp: ent_def update_conv' fun_eq_iff)
qed

lemma store_effect:
  assumes "accounts c" "\<forall>b. ent c k = Some (g, b) \<longrightarrow> b = 0"
  shows "accounts (store_block k g data c)" "capacity_bytes (store_block k g data c) = capacity_bytes c"
    "futures (store_block k g data c) = futures c"
    "next_generation (store_block k g data c) = next_generation c"
    and "ent (store_block k g data c) k' = Some (g', b') \<Longrightarrow>
      ent c k' = Some (g', b') \<or> k' = k \<and> g' = g \<and> ent c k = Some (g, 0)"
    and "0 < capacity_bytes c \<Longrightarrow> ent c k' = Some (g', b') \<Longrightarrow> futures c g' = Pending \<Longrightarrow>
      \<exists>b''. ent (store_block k g data c) k' = Some (g', b'')"
proof -
  let ?u = "\<lambda>e. c\<lparr>blocks := AList.update k (e\<lparr>bytes := length data\<rparr>) (blocks c),
    cached_bytes := u64_add (cached_bytes c) (length data)\<rparr>"
  obtain d where d: "store_block k g data c = evict_locked d" "accounts d" "capacity_bytes d = capacity_bytes c"
    "futures d = futures c" "next_generation d = next_generation c"
    "ent d = (if ent c k = Some (g, 0) then (ent c)(k \<mapsto> (g, length data)) else ent c)"
  proof (cases "\<exists>e. map_of (blocks c) k = Some e \<and> generation e = g")
    case True
    then obtain e where e: "map_of (blocks c) k = Some e" "generation e = g" by blast
    with assms(2) have "bytes e = 0" by (simp add: ent_def)
    then have "accounts (?u e)"
      using assms(1) total_bytes_update [of "blocks c" k e "e\<lparr>bytes := length data\<rparr>"] e
      by (auto simp: accounts_def distinct_update u64_mod_simps)
    then show ?thesis
      using e \<open>bytes e = 0\<close>
      by (intro that [of "?u e"]) (auto simp: store_block_def ent_def update_conv' fun_eq_iff)
  next
    case False
    then have "store_block k g data c = evict_locked c" by (auto simp: store_block_def split: option.splits)
    moreover have "ent c k \<noteq> Some (g, 0)" using False by (auto simp: ent_def)
    ultimately show ?thesis using assms(1) by (intro that [of c]) auto
  qed
  show "accounts (store_block k g data c)" using d evict_locked_accounts by simp
  show "capacity_bytes (store_block k g data c) = capacity_bytes c"
    "futures (store_block k g data c) = futures c"
    "next_generation (store_block k g data c) = next_generation c" using d by simp_all
  show "ent (store_block k g data c) k' = Some (g', b') \<Longrightarrow>
      ent c k' = Some (g', b') \<or> k' = k \<and> g' = g \<and> ent c k = Some (g, 0)"
    using d ent_evict(1) [OF d(2), of k' g' b'] by (auto split: if_splits)
  show "0 < capacity_bytes c \<Longrightarrow> ent c k' = Some (g', b') \<Longrightarrow> futures c g' = Pending \<Longrightarrow>
      \<exists>b''. ent (store_block k g data c) k' = Some (g', b'')"
    using d ent_evict(2) [OF d(2), of k' g'] by (cases "k' = k") (auto split: if_splits)
qed

lemma discard_effect:
  assumes "accounts c"
  shows "accounts (discard_block k g c)" "capacity_bytes (discard_block k g c) = capacity_bytes c"
    "futures (discard_block k g c) = futures c" "next_generation (discard_block k g c) = next_generation c"
    and "ent (discard_block k g c) k' =
      (if k' = k \<and> (\<exists>b. ent c k = Some (g, b)) then None else ent c k')"
proof -
  have "discard_block k g c = (if \<exists>b. ent c k = Some (g, b) then drop_block k c else c)"
    by (auto simp: discard_block_def drop_block_def ent_def split: option.splits)
  then show "accounts (discard_block k g c)" "capacity_bytes (discard_block k g c) = capacity_bytes c"
    "futures (discard_block k g c) = futures c" "next_generation (discard_block k g c) = next_generation c"
    "ent (discard_block k g c) k' = (if k' = k \<and> (\<exists>b. ent c k = Some (g, b)) then None else ent c k')"
    using assms accounts_drop by (auto simp: ent_def delete_conv')
qed

section \<open>The invariant of the system\<close>

text \<open>The key and generation a thread is responsible for, and whether its block is still in the map.\<close>

fun owns :: "'x thread \<Rightarrow> (string \<times> nat) option" where
  "owns (Fetching k g) = Some (k, g)"
| "owns (Stored k g d) = Some (k, g)"
| "owns (Discarded k g x) = Some (k, g)"
| "owns _ = None"

fun holds :: "'x thread \<Rightarrow> (string \<times> nat) option" where
  "holds (Fetching k g) = Some (k, g)"
| "holds (Stored k g d) = Some (k, g)"
| "holds _ = None"

lemma holds_owns: "holds pc = Some p \<Longrightarrow> owns pc = Some p"
  by (cases pc) auto

definition ents_ok where
  "ents_ok kf c th \<longleftrightarrow> (\<forall>k g b. ent c k = Some (g, b) \<longrightarrow>
     g \<le> next_generation c \<and> kf g = k \<and> (\<forall>x. futures c g \<noteq> Failed x) \<and>
     (futures c g = Pending \<longrightarrow> (\<exists>t. holds (th t) = Some (k, g))))"

lemma ents_okD:
  assumes "ents_ok kf c th" "ent c k = Some (g, b)"
  shows "g \<le> next_generation c \<and> kf g = k \<and> (\<forall>x. futures c g \<noteq> Failed x) \<and>
     (futures c g = Pending \<longrightarrow> (\<exists>t. holds (th t) = Some (k, g)))"
  using assms(1) [unfolded ents_ok_def, rule_format, OF assms(2)] by blast

definition owners_ok where
  "owners_ok kf c th \<longleftrightarrow> (\<forall>t k g. owns (th t) = Some (k, g) \<longrightarrow>
     g \<le> next_generation c \<and> kf g = k \<and> futures c g = Pending \<and>
     (\<forall>t' k'. owns (th t') = Some (k', g) \<longrightarrow> t' = t))"

definition waiters_ok where
  "waiters_ok kf c th \<longleftrightarrow> (\<forall>t k g. th t = Waiting k g \<longrightarrow>
     g \<le> next_generation c \<and> kf g = k \<and> (futures c g = Pending \<longrightarrow> (\<exists>t'. owns (th t') = Some (k, g))))"

definition futures_ok where
  "futures_ok kf answer c \<longleftrightarrow>
     (\<forall>g d. futures c g = Ready d \<longrightarrow> answer (kf g) (Inl d)) \<and>
     (\<forall>g x. futures c g = Failed x \<longrightarrow> answer (kf g) (Inr x)) \<and>
     (\<forall>g. next_generation c < g \<longrightarrow> futures c g = Pending)"

definition answers_ok where
  "answers_ok answer th \<longleftrightarrow>
     (\<forall>t k g d. th t = Stored k g d \<longrightarrow> answer k (Inl d)) \<and>
     (\<forall>t k g x. th t = Discarded k g x \<longrightarrow> answer k (Inr x)) \<and>
     (\<forall>t k v. th t = Returned k v \<longrightarrow> answer k v)"

definition sizes_ok where
  "sizes_ok c th \<longleftrightarrow>
     (\<forall>t k g b. th t = Fetching k g \<longrightarrow> ent c k = Some (g, b) \<longrightarrow> b = 0) \<and>
     (\<forall>t k g x b. th t = Discarded k g x \<longrightarrow> ent c k \<noteq> Some (g, b))"

lemma sizes_okD:
  assumes "sizes_ok c th"
  shows "th t = Fetching k g \<Longrightarrow> ent c k = Some (g, b) \<Longrightarrow> b = 0"
    and "th t = Discarded k g x \<Longrightarrow> ent c k = Some (g, b) \<Longrightarrow> False"
  using assms unfolding sizes_ok_def by blast+

definition pinned_ok where
  "pinned_ok c th \<longleftrightarrow> 0 < capacity_bytes c \<and> (\<forall>t k g. holds (th t) = Some (k, g) \<longrightarrow> (\<exists>b. ent c k = Some (g, b)))"

definition sys_inv where
  "sys_inv kf answer resets c th \<longleftrightarrow>
     accounts c \<and> ents_ok kf c th \<and> owners_ok kf c th \<and> waiters_ok kf c th \<and> futures_ok kf answer c \<and>
     answers_ok answer th \<and> sizes_ok c th \<and> (resets \<or> pinned_ok c th)"

lemmas sys_inv_defs = ents_ok_def owners_ok_def waiters_ok_def futures_ok_def answers_ok_def sizes_ok_def
  pinned_ok_def

lemma same_futures:
  assumes "futures c' = futures c" "next_generation c' = next_generation c"
  shows "owners_ok kf c' th \<longleftrightarrow> owners_ok kf c th" "waiters_ok kf c' th \<longleftrightarrow> waiters_ok kf c th"
    "futures_ok kf answer c' \<longleftrightarrow> futures_ok kf answer c"
  by (simp_all only: owners_ok_def waiters_ok_def futures_ok_def assms)

text \<open>Steps that only lose entries which are not pinned keep the invariant.\<close>

lemma sys_inv_shrink:
  assumes "sys_inv kf answer resets c th" "accounts c'" "next_generation c' = next_generation c" "futures c' = futures c"
    and "\<And>k g b. ent c' k = Some (g, b) \<Longrightarrow> ent c k = Some (g, b)"
    and "\<not> resets \<Longrightarrow> 0 < capacity_bytes c' \<and>
      (\<forall>k g b. ent c k = Some (g, b) \<longrightarrow> futures c g = Pending \<longrightarrow> ent c' k = Some (g, b))"
  shows "sys_inv kf answer resets c' th"
proof -
  have "resets \<or> pinned_ok c' th"
  proof (cases resets)
    case False
    with assms(1) have p: "pinned_ok c th" "owners_ok kf c th" by (simp_all add: sys_inv_def)
    have "\<exists>b. ent c' k = Some (g, b)" if "holds (th t) = Some (k, g)" for t k g
    proof -
      from that p obtain b where "ent c k = Some (g, b)" unfolding pinned_ok_def by blast
      moreover from that holds_owns p have "futures c g = Pending" unfolding owners_ok_def by blast
      ultimately show ?thesis using assms(6) [OF False] by blast
    qed
    with assms(6) [OF False] show ?thesis by (simp add: pinned_ok_def)
  qed simp
  moreover have "ents_ok kf c' th"
    using assms(1,5) unfolding sys_inv_def ents_ok_def assms(3,4) by blast
  moreover have "owners_ok kf c' th" "waiters_ok kf c' th" "futures_ok kf answer c'"
    using assms(1,3,4) by (simp_all add: sys_inv_def owners_ok_def waiters_ok_def futures_ok_def)
  moreover have "sizes_ok c' th" using assms(1,5) unfolding sys_inv_def sizes_ok_def by blast
  ultimately show ?thesis using assms(1,2) by (simp add: sys_inv_def)
qed

lemma ent_none_of_blocks: "blocks c = [] \<Longrightarrow> ent c k = None"
  by (simp add: ent_def)

lemma sys_inv_initial:
  assumes "0 < n \<or> resets"
  shows "sys_inv kf answer resets (set_capacity n (empty_block_cache :: 'x block_cache)) (\<lambda>_. Idle)"
proof -
  have b: "blocks (set_capacity n (empty_block_cache :: 'x block_cache)) = []"
    unfolding set_capacity_def by (subst evict_locked.simps) (simp add: empty_block_cache_def)
  have "accounts (set_capacity n (empty_block_cache :: 'x block_cache))"
    unfolding set_capacity_def
    by (rule evict_locked_accounts) (simp add: accounts_def empty_block_cache_def total_bytes_def)
  then show ?thesis
    using ent_none_of_blocks [OF b] assms
    by (auto simp: sys_inv_def sys_inv_defs set_capacity_def empty_block_cache_def)
qed

lemma owners_unique:
  "owners_ok kf c th \<Longrightarrow> owns (th t) = Some (k, g) \<Longrightarrow> owns (th t') = Some (k', g) \<Longrightarrow> t' = t"
  unfolding owners_ok_def by blast

text \<open>A thread without a block of its own moves on.\<close>

lemma sys_inv_bystander:
  assumes "sys_inv kf answer resets c th" "owns (th t) = None" "owns pc = None"
    and "\<And>k g. pc = Waiting k g \<Longrightarrow> g \<le> next_generation c \<and> kf g = k \<and>
      (futures c g = Pending \<longrightarrow> (\<exists>t'. owns (th t') = Some (k, g)))"
    and "\<And>k v. pc = Returned k v \<Longrightarrow> answer k v"
  shows "sys_inv kf answer resets c (th(t := pc))"
proof -
  let ?th = "th(t := pc)"
  have own: "owns (?th t') = owns (th t')" for t' using assms(2,3) by simp
  have hold: "holds (?th t') = holds (th t')" for t'
    using assms(2,3) holds_owns [of pc] holds_owns [of "th t"] by (cases "holds pc"; cases "holds (th t)") auto
  have pcs: "?th t' = Fetching k g \<longleftrightarrow> th t' = Fetching k g" "?th t' = Stored k g d \<longleftrightarrow> th t' = Stored k g d"
    "?th t' = Discarded k g x \<longleftrightarrow> th t' = Discarded k g x" for t' k g d x
    using assms(2,3) by auto
  have "ents_ok kf c ?th" "owners_ok kf c ?th" "resets \<or> pinned_ok c ?th" "sizes_ok c ?th"
    using assms(1) unfolding sys_inv_def ents_ok_def owners_ok_def pinned_ok_def sizes_ok_def own hold pcs
    by blast+
  moreover have "waiters_ok kf c ?th"
    using assms(1,4) unfolding sys_inv_def waiters_ok_def own by (simp add: fun_upd_def)
  moreover have "answers_ok answer ?th"
    using assms(1,5) unfolding sys_inv_def answers_ok_def pcs by (auto split: if_splits)
  ultimately show ?thesis using assms(1) by (simp add: sys_inv_def)
qed

text \<open>An owner goes on to the next phase of its block.\<close>

lemma sys_inv_same_owner:
  assumes "owns (th t) = Some (k, g)" "owns pc = Some (k, g)" "owners_ok kf c th" "waiters_ok kf c th"
  shows "owners_ok kf c (th(t := pc))" "waiters_ok kf c (th(t := pc))"
proof -
  let ?th = "th(t := pc)"
  have own: "owns (?th t') = owns (th t')" for t' using assms(1,2) by simp
  have wait: "?th t' = Waiting k' g' \<longleftrightarrow> th t' = Waiting k' g'" for t' k' g' using assms(1,2) by auto
  show "owners_ok kf c ?th" "waiters_ok kf c ?th"
    using assms(3,4) by (simp_all only: owners_ok_def waiters_ok_def own wait)
qed

lemma sys_inv_fetched:
  assumes "sys_inv kf answer resets c th" "th t = Fetching k g" "answer k (Inl data)"
  shows "sys_inv kf answer resets (store_block k g data c) (th(t := Stored k g data))"
proof -
  let ?c = "store_block k g data c" and ?th = "th(t := Stored k g data)"
  have inv: "accounts c" "ents_ok kf c th" "owners_ok kf c th" "waiters_ok kf c th" "futures_ok kf answer c"
    "answers_ok answer th" "sizes_ok c th" "resets \<or> pinned_ok c th"
    using assms(1) by (simp_all add: sys_inv_def)
  have z: "\<forall>b. ent c k = Some (g, b) \<longrightarrow> b = 0" using inv(7) assms(2) by (auto simp: sizes_ok_def)
  note eff = store_effect [OF inv(1) z, where data = data]
  have sub: "\<exists>b'. ent c k' = Some (g', b')" if "ent ?c k' = Some (g', b)" for k' g' b
    using eff(5) [OF that] by auto
  have sub0: "ent c k' = Some (g', b)" if "ent ?c k' = Some (g', b)" "g' \<noteq> g" for k' g' b
    using eff(5) [OF that(1)] that(2) by auto
  have hold: "holds (?th t') = holds (th t')" for t' using assms(2) by simp
  have own: "owns (th t) = Some (k, g)" using assms(2) by simp
  have "accounts ?c" using eff(1) by simp
  moreover have "ents_ok kf ?c ?th"
    unfolding ents_ok_def hold eff(3,4)
  proof (intro allI impI)
    fix k' g' b
    assume "ent ?c k' = Some (g', b)"
    then obtain b' where "ent c k' = Some (g', b')" using sub by blast
    from ents_okD [OF inv(2) this] show "g' \<le> next_generation c \<and> kf g' = k' \<and> (\<forall>x. futures c g' \<noteq> Failed x) \<and>
        (futures c g' = Pending \<longrightarrow> (\<exists>t. holds (th t) = Some (k', g')))" .
  qed
  moreover have "owners_ok kf ?c ?th" "waiters_ok kf ?c ?th" "futures_ok kf answer ?c"
    unfolding same_futures [OF eff(3,4)]
    by (rule sys_inv_same_owner [OF own _ inv(3,4)] inv(5), simp)+ (rule inv(5))
  moreover have "answers_ok answer ?th"
    using inv(6) assms(3) by (auto simp: answers_ok_def)
  moreover have "sizes_ok ?c ?th"
    unfolding sizes_ok_def
  proof (intro conjI allI impI)
    fix t' k' g' b
    assume a: "?th t' = Fetching k' g'" "ent ?c k' = Some (g', b)"
    then have "t' \<noteq> t" "th t' = Fetching k' g'" by (auto split: if_splits)
    moreover from this own have "g' \<noteq> g" using owners_unique [OF inv(3) own, of t' k'] by auto
    ultimately show "b = 0" using sub0 a(2) sizes_okD(1) [OF inv(7)] by blast
  next
    fix t' k' g' x b
    assume a: "?th t' = Discarded k' g' x"
    then have "th t' = Discarded k' g' x" by (auto split: if_splits)
    then show "ent ?c k' \<noteq> Some (g', b)" using sub sizes_okD(2) [OF inv(7)] by blast
  qed
  moreover have "resets \<or> pinned_ok ?c ?th"
  proof (cases resets)
    case False
    with inv(8) have p: "pinned_ok c th" by simp
    have "\<exists>b. ent ?c k' = Some (g', b)" if h: "holds (th t') = Some (k', g')" for t' k' g'
    proof -
      from h p obtain b where "ent c k' = Some (g', b)" unfolding pinned_ok_def by blast
      moreover have "futures c g' = Pending" using holds_owns [OF h] inv(3) unfolding owners_ok_def by blast
      ultimately show ?thesis using eff(6) p by (simp add: pinned_ok_def)
    qed
    then show ?thesis using p unfolding pinned_ok_def hold by (simp add: eff(2))
  qed simp
  ultimately show ?thesis using inv by (simp add: sys_inv_def)
qed

lemma sys_inv_fetch_failed:
  assumes "sys_inv kf answer resets c th" "th t = Fetching k g" "answer k (Inr x)"
  shows "sys_inv kf answer resets (discard_block k g c) (th(t := Discarded k g x))"
proof -
  let ?c = "discard_block k g c" and ?th = "th(t := Discarded k g x)"
  have inv: "accounts c" "ents_ok kf c th" "owners_ok kf c th" "waiters_ok kf c th" "futures_ok kf answer c"
    "answers_ok answer th" "sizes_ok c th" "resets \<or> pinned_ok c th"
    using assms(1) by (simp_all add: sys_inv_def)
  note eff = discard_effect [OF inv(1), of k g]
  have own: "owns (th t) = Some (k, g)" using assms(2) by simp
  have sub: "ent c k' = Some (g', b) \<and> (k', g') \<noteq> (k, g)" if "ent ?c k' = Some (g', b)" for k' g' b
    using that eff(5) [of k'] by (auto split: if_splits)
  have kept: "ent ?c k' = Some (g', b)" if "ent c k' = Some (g', b)" "(k', g') \<noteq> (k, g)" for k' g' b
    using that eff(5) [of k'] by (auto split: if_splits)
  have "ents_ok kf ?c ?th"
    unfolding ents_ok_def eff(3,4)
  proof (intro allI impI)
    fix k' g' b
    assume "ent ?c k' = Some (g', b)"
    from sub [OF this] have e: "ent c k' = Some (g', b)" "(k', g') \<noteq> (k, g)" by auto
    have "\<exists>t'. holds (?th t') = Some (k', g')" if "holds (th t') = Some (k', g')" for t'
      using that e(2) assms(2) by (intro exI [of _ t']) auto
    with ents_okD [OF inv(2) e(1)] show "g' \<le> next_generation c \<and> kf g' = k' \<and>
        (\<forall>x. futures c g' \<noteq> Failed x) \<and> (futures c g' = Pending \<longrightarrow> (\<exists>t'. holds (?th t') = Some (k', g')))"
      by blast
  qed
  moreover have "owners_ok kf ?c ?th" "waiters_ok kf ?c ?th" "futures_ok kf answer ?c"
    unfolding same_futures [OF eff(3,4)]
    by (rule sys_inv_same_owner [OF own _ inv(3,4)] inv(5), simp)+ (rule inv(5))
  moreover have "answers_ok answer ?th"
    using inv(6) assms(3) by (auto simp: answers_ok_def)
  moreover have "sizes_ok ?c ?th"
    unfolding sizes_ok_def
  proof (intro conjI allI impI)
    fix t' k' g' b
    assume a: "?th t' = Fetching k' g'" "ent ?c k' = Some (g', b)"
    then have "th t' = Fetching k' g'" by (auto split: if_splits)
    then show "b = 0" using sub a(2) sizes_okD(1) [OF inv(7)] by blast
  next
    fix t' k' g' y b
    assume a: "?th t' = Discarded k' g' y"
    then consider "k' = k" "g' = g" | "th t' = Discarded k' g' y" by (auto split: if_splits)
    then show "ent ?c k' \<noteq> Some (g', b)" using sub sizes_okD(2) [OF inv(7)] by cases blast+
  qed
  moreover have "resets \<or> pinned_ok ?c ?th"
  proof (cases resets)
    case False
    with inv(8) have p: "pinned_ok c th" by simp
    have "\<exists>b. ent ?c k' = Some (g', b)" if h: "holds (?th t') = Some (k', g')" for t' k' g'
    proof -
      from h have h': "holds (th t') = Some (k', g')" and ne: "t' \<noteq> t" by (auto split: if_splits)
      from h' p obtain b where b: "ent c k' = Some (g', b)" unfolding pinned_ok_def by blast
      have "g' \<noteq> g" using owners_unique [OF inv(3) own, of t' k'] holds_owns [OF h'] ne by blast
      with kept [OF b] show ?thesis by blast
    qed
    then show ?thesis using p unfolding pinned_ok_def by (simp add: eff(2))
  qed simp
  ultimately show ?thesis using eff(1) by (simp add: sys_inv_def)
qed

text \<open>The promise is fulfilled or broken, and its thread returns.\<close>

lemma owner_returns:
  assumes "owners_ok kf c th" "owns (th t) = Some (k, g)"
  shows "owns ((th(t := Returned k v)) t') = Some (k', g') \<Longrightarrow> owns (th t') = Some (k', g') \<and> g' \<noteq> g"
    and "owns (th t') = Some (k', g') \<Longrightarrow> g' \<noteq> g \<Longrightarrow> owns ((th(t := Returned k v)) t') = Some (k', g')"
    and "holds (th t') = Some (k', g') \<Longrightarrow> g' \<noteq> g \<Longrightarrow> holds ((th(t := Returned k v)) t') = Some (k', g')"
  using owners_unique [OF assms, of t' k'] assms(2) holds_owns [of "th t"] by (auto split: if_splits)

lemma futures_fulfil: "futures (fulfil g f c) g' = (if g' = g then f else futures c g')"
  by (simp add: fulfil_def)

lemma ents_resolve:
  assumes "ents_ok kf c th" "owners_ok kf c th" "owns (th t) = Some (k, g)"
    and "f = (case v of Inl d \<Rightarrow> Ready d | Inr x \<Rightarrow> Failed x)" "\<And>x b. v = Inr x \<Longrightarrow> ent c k \<noteq> Some (g, b)"
  shows "ents_ok kf (fulfil g f c) (th(t := Returned k v))"
  unfolding ents_ok_def
proof (intro allI impI)
  fix k' g' b
  assume "ent (fulfil g f c) k' = Some (g', b)"
  then have e: "ent c k' = Some (g', b)" by (simp add: fulfil_def ent_def)
  note o = ents_okD [OF assms(1) e]
  show "g' \<le> next_generation (fulfil g f c) \<and> kf g' = k' \<and> (\<forall>x. futures (fulfil g f c) g' \<noteq> Failed x) \<and>
      (futures (fulfil g f c) g' = Pending \<longrightarrow> (\<exists>t'. holds ((th(t := Returned k v)) t') = Some (k', g')))"
  proof (cases "g' = g")
    case True
    have "kf g = k" using assms(2,3) unfolding owners_ok_def by blast
    with True o e have "ent c k = Some (g, b)" by simp
    with assms(4,5) obtain d where "v = Inl d" "f = Ready d" by (cases v) auto
    with True o show ?thesis by (simp add: fulfil_def)
  next
    case False
    with o owner_returns(3) [OF assms(2,3)]
    have "futures c g' = Pending \<longrightarrow> (\<exists>t'. holds ((th(t := Returned k v)) t') = Some (k', g'))" by blast
    with o False show ?thesis by (simp add: fulfil_def del: fun_upd_apply) (simp add: fun_upd_other)
  qed
qed

lemma owners_resolve:
  assumes "owners_ok kf c th" "owns (th t) = Some (k, g)"
  shows "owners_ok kf (fulfil g f c) (th(t := Returned k v))"
  unfolding owners_ok_def
proof (intro allI impI)
  fix t' k' g'
  assume "owns ((th(t := Returned k v)) t') = Some (k', g')"
  from owner_returns(1) [OF assms this] have o: "owns (th t') = Some (k', g')" "g' \<noteq> g" by auto
  with assms(1) have "g' \<le> next_generation c \<and> kf g' = k' \<and> futures c g' = Pending"
    unfolding owners_ok_def by blast
  moreover have "\<forall>t'' k''. owns ((th(t := Returned k v)) t'') = Some (k'', g') \<longrightarrow> t'' = t'"
    using owner_returns(1) [OF assms] owners_unique [OF assms(1) o(1)] by blast
  ultimately show "g' \<le> next_generation (fulfil g f c) \<and> kf g' = k' \<and> futures (fulfil g f c) g' = Pending \<and>
      (\<forall>t'' k''. owns ((th(t := Returned k v)) t'') = Some (k'', g') \<longrightarrow> t'' = t')"
    using o(2) by (simp add: futures_fulfil del: fun_upd_apply) (simp add: fulfil_def)
qed

lemma waiters_resolve:
  assumes "waiters_ok kf c th" "owners_ok kf c th" "owns (th t) = Some (k, g)" "f \<noteq> Pending"
  shows "waiters_ok kf (fulfil g f c) (th(t := Returned k v))"
  unfolding waiters_ok_def
proof (intro allI impI)
  fix t' k' g'
  assume "(th(t := Returned k v)) t' = Waiting k' g'"
  then have "th t' = Waiting k' g'" by (auto split: if_splits)
  with assms(1) have w: "g' \<le> next_generation c" "kf g' = k'"
    "futures c g' = Pending \<longrightarrow> (\<exists>t''. owns (th t'') = Some (k', g'))"
    unfolding waiters_ok_def by blast+
  have "futures (fulfil g f c) g' = Pending \<longrightarrow> (\<exists>t''. owns ((th(t := Returned k v)) t'') = Some (k', g'))"
  proof (cases "g' = g")
    case False
    with w(3) owner_returns(2) [OF assms(2,3)] show ?thesis by (simp add: futures_fulfil del: fun_upd_apply) blast
  qed (simp add: futures_fulfil assms(4))
  with w(1,2) show "g' \<le> next_generation (fulfil g f c) \<and> kf g' = k' \<and>
      (futures (fulfil g f c) g' = Pending \<longrightarrow> (\<exists>t''. owns ((th(t := Returned k v)) t'') = Some (k', g')))"
    by (simp add: fulfil_def del: fun_upd_apply)
qed

lemma sys_inv_resolve:
  assumes "sys_inv kf answer resets c th" "owns (th t) = Some (k, g)" "answer k v"
    and "f = (case v of Inl d \<Rightarrow> Ready d | Inr x \<Rightarrow> Failed x)"
    and "\<And>x b. v = Inr x \<Longrightarrow> ent c k \<noteq> Some (g, b)"
  shows "sys_inv kf answer resets (fulfil g f c) (th(t := Returned k v))"
proof -
  let ?c = "fulfil g f c" and ?th = "th(t := Returned k v)"
  have inv: "accounts c" "ents_ok kf c th" "owners_ok kf c th" "waiters_ok kf c th" "futures_ok kf answer c"
    "answers_ok answer th" "sizes_ok c th" "resets \<or> pinned_ok c th"
    using assms(1) by (simp_all add: sys_inv_def)
  have same: "ent ?c = ent c" "capacity_bytes ?c = capacity_bytes c"
    by (simp_all add: fulfil_def ent_def fun_eq_iff)
  have f: "f \<noteq> Pending" using assms(4) by (cases v) auto
  have kg: "kf g = k" "g \<le> next_generation c" using inv(3) assms(2) unfolding owners_ok_def by blast+
  have "accounts ?c" using inv(1) by (simp add: accounts_def fulfil_def)
  moreover have "futures_ok kf answer ?c"
    using inv(5) assms(3,4) kg by (auto simp: futures_ok_def fulfil_def split: sum.splits if_splits)
  moreover have "answers_ok answer ?th" using inv(6) assms(3) by (auto simp: answers_ok_def)
  moreover have "sizes_ok ?c ?th" using inv(7) unfolding sizes_ok_def same by (auto split: if_splits)
  moreover have "resets \<or> pinned_ok ?c ?th" using inv(8) unfolding pinned_ok_def same by auto
  ultimately show ?thesis
    using ents_resolve [OF inv(2,3) assms(2,4,5)] owners_resolve [OF inv(3) assms(2), of f v]
      waiters_resolve [OF inv(4,3) assms(2) f, of v] by (simp add: sys_inv_def)
qed

text \<open>A miss inserts a future and makes the thread its owner.\<close>

lemma owner_asks:
  assumes "owns (th t) = None"
  shows "owns (th t') = Some p \<Longrightarrow> owns ((th(t := Fetching k g)) t') = Some p"
    and "holds (th t') = Some p \<Longrightarrow> holds ((th(t := Fetching k g)) t') = Some p"
    and "owns ((th(t := Fetching k g)) t') = Some (k', g') \<Longrightarrow>
      t' = t \<and> k' = k \<and> g' = g \<or> t' \<noteq> t \<and> owns (th t') = Some (k', g')"
proof -
  have "holds (th t) = None" using assms holds_owns [of "th t"] by (cases "holds (th t)") auto
  with assms show "owns (th t') = Some p \<Longrightarrow> owns ((th(t := Fetching k g)) t') = Some p"
    "holds (th t') = Some p \<Longrightarrow> holds ((th(t := Fetching k g)) t') = Some p" by auto
qed (auto split: if_splits)

text \<open>\<open>inserted k g c0 c\<close>: a miss left \<open>c\<close> from \<open>c0\<close>.\<close>

definition inserted :: "string \<Rightarrow> nat \<Rightarrow> 'x block_cache \<Rightarrow> 'x block_cache \<Rightarrow> bool" where
  "inserted k g c0 c \<longleftrightarrow> g = Suc (next_generation c0) \<and> next_generation c = g \<and> futures c = futures c0 \<and>
     ent c = (ent c0)(k \<mapsto> (g, 0)) \<and> ent c0 k = None \<and> futures c0 g = Pending"

lemma insertedD:
  assumes "inserted k g c0 c"
  shows "g = Suc (next_generation c0)" "next_generation c = g" "futures c = futures c0"
    "ent c = (ent c0)(k \<mapsto> (g, 0))" "ent c0 k = None" "futures c0 g = Pending"
    "g' \<le> next_generation c0 \<Longrightarrow> g' \<noteq> g \<and> g' \<le> g"
  using assms unfolding inserted_def by auto

lemma old_owner:
  "owners_ok kf c th \<Longrightarrow> owns (th t) = Some (k, g) \<Longrightarrow> g \<le> next_generation c \<and> kf g = k \<and> futures c g = Pending"
  unfolding owners_ok_def by blast

lemma ents_ask:
  assumes "ents_ok kf c0 th" "owns (th t) = None" "inserted k g c0 c"
  shows "ents_ok (kf(g := k)) c (th(t := Fetching k g))"
  unfolding ents_ok_def insertedD(3,4) [OF assms(3)]
proof (intro allI impI)
  fix k1 g1 b
  assume a: "((ent c0)(k \<mapsto> (g, 0))) k1 = Some (g1, b)"
  note i = insertedD [OF assms(3)]
  show "g1 \<le> next_generation c \<and> (kf(g := k)) g1 = k1 \<and> (\<forall>x. futures c0 g1 \<noteq> Failed x) \<and>
    (futures c0 g1 = Pending \<longrightarrow> (\<exists>t'. holds ((th(t := Fetching k g)) t') = Some (k1, g1)))"
  proof (cases "k1 = k")
    case True
    with a i(2,6) show ?thesis by auto
  next
    case False
    with a have "ent c0 k1 = Some (g1, b)" by simp
    note o = ents_okD [OF assms(1) this]
    with owner_asks(2) [where th = th and t = t, OF assms(2)]
    have "futures c0 g1 = Pending \<longrightarrow> (\<exists>t'. holds ((th(t := Fetching k g)) t') = Some (k1, g1))" by blast
    with o i(7) [of g1] i(2) show ?thesis by (simp del: fun_upd_apply add: fun_upd_other)
  qed
qed

lemma owners_ask:
  assumes "owners_ok kf c0 th" "owns (th t) = None" "inserted k g c0 c"
  shows "owners_ok (kf(g := k)) c (th(t := Fetching k g))"
  unfolding owners_ok_def insertedD(2,3) [OF assms(3)]
proof (intro allI impI)
  fix t' k' g'
  note i = insertedD [OF assms(3)] and own_cases = owner_asks(3) [where th = th and t = t, OF assms(2)]
  assume "owns ((th(t := Fetching k g)) t') = Some (k', g')"
  from own_cases [OF this] show "g' \<le> g \<and> (kf(g := k)) g' = k' \<and> futures c0 g' = Pending \<and>
      (\<forall>t'' k''. owns ((th(t := Fetching k g)) t'') = Some (k'', g') \<longrightarrow> t'' = t')"
  proof (elim disjE conjE)
    assume "t' = t" "k' = k" "g' = g"
    moreover have "owns (th t'') \<noteq> Some (k'', g)" for t'' k'' using old_owner [OF assms(1)] i(7) by blast
    ultimately show ?thesis using i(6) own_cases by auto
  next
    assume n: "t' \<noteq> t" and o: "owns (th t') = Some (k', g')"
    from old_owner [OF assms(1) o] i(7) [of g'] have "g' \<noteq> g" "g' \<le> g" by auto
    moreover have "t'' = t'" if "owns ((th(t := Fetching k g)) t'') = Some (k'', g')" for t'' k''
      using own_cases [OF that] \<open>g' \<noteq> g\<close> owners_unique [OF assms(1) o] by blast
    ultimately show ?thesis using old_owner [OF assms(1) o] by auto
  qed
qed

lemma waiters_ask:
  assumes "waiters_ok kf c0 th" "owns (th t) = None" "inserted k g c0 c"
  shows "waiters_ok (kf(g := k)) c (th(t := Fetching k g))"
  unfolding waiters_ok_def insertedD(2,3) [OF assms(3)]
proof (intro allI impI)
  fix t' k' g'
  assume "(th(t := Fetching k g)) t' = Waiting k' g'"
  then have "th t' = Waiting k' g'" by (auto split: if_splits)
  with assms(1) have w: "g' \<le> next_generation c0" "kf g' = k'"
    "futures c0 g' = Pending \<longrightarrow> (\<exists>t''. owns (th t'') = Some (k', g'))"
    unfolding waiters_ok_def by blast+
  with insertedD(7) [OF assms(3) w(1)] owner_asks(1) [where th = th and t = t, OF assms(2)] show "g' \<le> g \<and> (kf(g := k)) g' = k' \<and>
      (futures c0 g' = Pending \<longrightarrow> (\<exists>t''. owns ((th(t := Fetching k g)) t'') = Some (k', g')))"
    by (simp del: fun_upd_apply add: fun_upd_other) blast
qed

lemma sizes_ask:
  assumes "sizes_ok c0 th" "owners_ok kf c0 th" "inserted k g c0 c"
  shows "sizes_ok c (th(t := Fetching k g))"
  unfolding sizes_ok_def insertedD(4) [OF assms(3)]
proof (intro conjI allI impI)
  fix t' k' g' b
  assume a: "(th(t := Fetching k g)) t' = Fetching k' g'" "((ent c0)(k \<mapsto> (g, 0))) k' = Some (g', b)"
  show "b = 0"
  proof (cases "k' = k")
    case False
    with a have "th t' = Fetching k' g'" "ent c0 k' = Some (g', b)" by (auto split: if_splits)
    with sizes_okD(1) [OF assms(1)] show ?thesis by blast
  qed (use a(2) in simp)
next
  fix t' k' g' x b
  assume "(th(t := Fetching k g)) t' = Discarded k' g' x"
  then have d: "th t' = Discarded k' g' x" by (auto split: if_splits)
  with old_owner [OF assms(2), of t' k' g'] insertedD(7) [OF assms(3)] have "g' \<noteq> g" by simp
  with d sizes_okD(2) [OF assms(1)] show "((ent c0)(k \<mapsto> (g, 0))) k' \<noteq> Some (g', b)" by auto
qed

lemma pinned_ask:
  assumes "pinned_ok c0 th" "inserted k g c0 c" "capacity_bytes c = capacity_bytes c0"
  shows "pinned_ok c (th(t := Fetching k g))"
proof -
  have "\<exists>b. ent c k' = Some (g', b)" if h: "holds ((th(t := Fetching k g)) t') = Some (k', g')" for t' k' g'
  proof (cases "t' = t")
    case False
    with h have "holds (th t') = Some (k', g')" by simp
    with assms(1) obtain b where "ent c0 k' = Some (g', b)" unfolding pinned_ok_def by blast
    with insertedD(4,5) [OF assms(2)] show ?thesis by (cases "k' = k") auto
  qed (use h insertedD(4) [OF assms(2)] in simp)
  then show ?thesis using assms(1,3) unfolding pinned_ok_def by simp
qed

lemma sys_inv_ask_miss:
  assumes "sys_inv kf answer resets c0 th" "owns (th t) = None"
    "lookup_or_insert k c0 = ((g, True), c)"
  shows "sys_inv (kf(g := k)) answer resets c (th(t := Fetching k g))"
proof -
  have inv: "accounts c0" "ents_ok kf c0 th" "owners_ok kf c0 th" "waiters_ok kf c0 th"
    "futures_ok kf answer c0" "answers_ok answer th" "sizes_ok c0 th" "resets \<or> pinned_ok c0 th"
    using assms(1) by (simp_all add: sys_inv_def)
  note eff = lookup_effect [OF inv(1) assms(3)]
  from eff(3,5) inv(5) have i: "inserted k g c0 c" by (simp add: inserted_def futures_ok_def)
  have "futures_ok (kf(g := k)) answer c"
    using inv(5) insertedD(6) [OF i] unfolding futures_ok_def insertedD(2,3) [OF i] by (auto simp: insertedD(1) [OF i])
  moreover have "answers_ok answer (th(t := Fetching k g))" using inv(6) by (auto simp: answers_ok_def)
  moreover have "resets \<or> pinned_ok c (th(t := Fetching k g))" using inv(8) pinned_ask [of c0 th, OF _ i eff(2)] by blast
  ultimately show ?thesis
    using eff(1) ents_ask [OF inv(2) assms(2) i] owners_ask [OF inv(3) assms(2) i] waiters_ask [OF inv(4) assms(2) i]
      sizes_ask [OF inv(7,3) i, of t] by (simp add: sys_inv_def)
qed

lemma sys_inv_bound:
  assumes "sys_inv kf answer resets c th" "0 < n \<or> resets"
  shows "sys_inv kf answer resets (set_capacity n c) th"
  unfolding set_capacity_def
proof (rule sys_inv_shrink [OF assms(1)])
  let ?c = "c\<lparr>capacity_bytes := n\<rparr>"
  have acc: "accounts ?c" using assms(1) by (simp add: sys_inv_def accounts_def)
  have e: "ent ?c = ent c" by (simp add: ent_def fun_eq_iff)
  show "accounts (evict_locked ?c)" using acc by (rule evict_locked_accounts)
  show "ent c k = Some (g, b)" if "ent (evict_locked ?c) k = Some (g, b)" for k g b
    using ent_evict(1) [OF acc that] e by simp
  show "0 < capacity_bytes (evict_locked ?c) \<and> (\<forall>k g b. ent c k = Some (g, b) \<longrightarrow>
      futures c g = Pending \<longrightarrow> ent (evict_locked ?c) k = Some (g, b))" if "\<not> resets"
    using assms(2) that ent_evict(2) [OF acc] e by simp
qed simp_all

lemma sys_inv_got:
  assumes "sys_inv kf answer resets c th" "th t = Waiting k g" "futures c g = f"
    and "f = (case v of Inl d \<Rightarrow> Ready d | Inr x \<Rightarrow> Failed x)"
  shows "sys_inv kf answer resets c (th(t := Returned k v))"
proof (rule sys_inv_bystander [OF assms(1)])
  from assms(1,2) have k: "kf g = k" and ok: "futures_ok kf answer c"
    unfolding sys_inv_def waiters_ok_def by blast+
  have "answer (kf g) v" using ok assms(3,4) unfolding futures_ok_def by (cases v) auto
  with k show "answer k' v'" if "Returned k v = Returned k' v'" for k' v' using that by simp
qed (use assms(2) in simp_all)

lemma sys_inv_step:
  assumes "cache_step answer resets s s'" "sys_inv kf answer resets (cache s) (threads s)"
  shows "\<exists>kf'. sys_inv kf' answer resets (cache s') (threads s')"
  using assms(1)
proof (cases rule: cache_stepE)
  case (set_bound n)
  with sys_inv_bound [OF assms(2)] show ?thesis by auto
next
  case cleared
  have "sys_inv kf answer resets (clear_blocks (cache s)) (threads s)"
    unfolding clear_blocks_def
    by (rule sys_inv_shrink [OF assms(2)]) (simp_all add: accounts_empty cleared(2) ent_def)
  with cleared(1) show ?thesis by auto
next
  case (got t k g data)
  with sys_inv_got [OF assms(2) got(2,3), of "Inl data"] show ?thesis by (auto simp: set_thread_def)
next
  case (got_error t k g x)
  with sys_inv_got [OF assms(2) got_error(2,3), of "Inr x"] show ?thesis by (auto simp: set_thread_def)
next
  case (ask_hit t k' v k g c)
  have acc: "accounts (cache s)" using assms(2) by (simp add: sys_inv_def)
  note eff = lookup_effect [OF acc ask_hit(3)]
  from eff(4) obtain b where b: "next_generation c = next_generation (cache s)" "ent c = ent (cache s)"
    "ent (cache s) k = Some (g, b)" by auto
  have "0 < capacity_bytes (cache s)" if "\<not> resets" using that assms(2) by (simp add: sys_inv_def pinned_ok_def)
  then have inv: "sys_inv kf answer resets c (threads s)"
    by (intro sys_inv_shrink [OF assms(2) eff(1) b(1) eff(3)]) (simp_all add: b(2) eff(2))
  have "ents_ok kf c (threads s)" using inv by (simp add: sys_inv_def)
  from ents_okD [OF this, of k g b] b(2,3) holds_owns
  have "g \<le> next_generation c \<and> kf g = k \<and> (futures c g = Pending \<longrightarrow> (\<exists>t'. owns (threads s t') = Some (k, g)))"
    by auto
  then have "sys_inv kf answer resets c ((threads s)(t := Waiting k g))"
    using ask_hit(2) by (intro sys_inv_bystander [OF inv]) auto
  with ask_hit(1) show ?thesis by (auto simp: set_thread_def)
next
  case (ask_miss t k' v k g c)
  then have "sys_inv (kf(g := k)) answer resets c ((threads s)(t := Fetching k g))"
    using assms(2) by (intro sys_inv_ask_miss) auto
  with ask_miss(1) show ?thesis by (auto simp: set_thread_def)
next
  case (fetched t k g data)
  with sys_inv_fetched [OF assms(2) fetched(2,3)] show ?thesis by (simp add: set_thread_def) blast
next
  case (fetch_failed t k g x)
  with sys_inv_fetch_failed [OF assms(2) fetch_failed(2,3)] show ?thesis by (simp add: set_thread_def) blast
next
  case (fulfilled t k g data)
  have "sys_inv kf answer resets (fulfil g (Ready data) (cache s)) ((threads s)(t := Returned k (Inl data)))"
    using assms(2) fulfilled(2)
    by (intro sys_inv_resolve [OF assms(2)]) (auto simp: sys_inv_def answers_ok_def)
  with fulfilled(1) show ?thesis by (auto simp: set_thread_def)
next
  case (rejected t k g x)
  have sz: "sizes_ok (cache s) (threads s)" "answers_ok answer (threads s)" using assms(2) by (simp_all add: sys_inv_def)
  have "sys_inv kf answer resets (fulfil g (Failed x) (cache s)) ((threads s)(t := Returned k (Inr x)))"
  proof (rule sys_inv_resolve [OF assms(2)])
    show "answer k (Inr x)" using sz(2) rejected(2) by (simp add: answers_ok_def)
    show "ent (cache s) k \<noteq> Some (g, b)" for b using sizes_okD(2) [OF sz(1) rejected(2)] by blast
  qed (use rejected in simp_all)
  with rejected(1) show ?thesis by (auto simp: set_thread_def)
qed

lemma sys_inv_reachable:
  "cache_reachable answer resets s \<Longrightarrow> \<exists>kf. sys_inv kf answer resets (cache s) (threads s)"
proof (induction rule: cache_reachable.induct)
  case (initially n)
  from sys_inv_initial [OF initially] show ?case by (simp add: initial_system_def) blast
next
  case (stepped s s')
  then show ?case using sys_inv_step by blast
qed

section \<open>Small reachable systems\<close>

definition fetching_system :: "unit cache_system" where
  "fetching_system = (let s = initial_system 100 in
     set_thread 0 (Fetching ''k'' 1) (s\<lparr>cache := snd (lookup_or_insert ''k'' (cache s))\<rparr>))"

definition waiting_system :: "unit cache_system" where
  "waiting_system =
     set_thread 1 (Waiting ''k'' 1) (fetching_system\<lparr>cache := snd (lookup_or_insert ''k'' (cache fetching_system))\<rparr>)"

lemmas example_simps = initial_system_def set_capacity_def evict_locked.simps empty_block_cache_def
  lookup_or_insert_def set_thread_def

lemma fetching_system_reachable: "cache_reachable answer False fetching_system"
proof -
  let ?s = "initial_system 100 :: unit cache_system"
  have "lookup_or_insert ''k'' (cache ?s) = ((1, True), snd (lookup_or_insert ''k'' (cache ?s)))"
    by (simp add: example_simps Let_def)
  then have "cache_step answer False ?s fetching_system"
    unfolding fetching_system_def Let_def
    by (intro cache_step.ask_miss [of ?s 0]) (simp_all add: initial_system_def)
  moreover have "cache_reachable answer False ?s" by (rule cache_reachable.initially) simp
  ultimately show ?thesis by (rule cache_reachable.stepped [rotated])
qed

lemma waiting_system_reachable: "cache_reachable answer False waiting_system"
proof -
  have "lookup_or_insert ''k'' (cache fetching_system) = ((1, False), snd (lookup_or_insert ''k'' (cache fetching_system)))"
    by (simp add: fetching_system_def example_simps Let_def)
  then have "cache_step answer False fetching_system waiting_system"
    unfolding waiting_system_def
    by (intro cache_step.ask_hit [of fetching_system 1])
       (simp_all add: fetching_system_def initial_system_def set_thread_def Let_def)
  then show ?thesis by (rule cache_reachable.stepped [OF fetching_system_reachable])
qed

definition one_block :: "string \<Rightarrow> string + unit \<Rightarrow> bool" where
  "one_block k v \<longleftrightarrow> k = ''k'' \<and> v = Inl ''abc''"

definition stored_system :: "unit cache_system" where
  "stored_system = set_thread 0 (Stored ''k'' 1 ''abc'')
     (waiting_system\<lparr>cache := store_block ''k'' 1 ''abc'' (cache waiting_system)\<rparr>)"

definition served_system :: "unit cache_system" where
  "served_system = set_thread 0 (Returned ''k'' (Inl ''abc''))
     (stored_system\<lparr>cache := fulfil 1 (Ready ''abc'') (cache stored_system)\<rparr>)"

lemma served_system_reachable: "cache_reachable one_block False served_system"
proof -
  have "cache_step one_block False waiting_system stored_system"
    unfolding stored_system_def
    by (rule cache_step.fetched)
       (simp_all add: waiting_system_def fetching_system_def set_thread_def one_block_def Let_def)
  then have "cache_reachable one_block False stored_system"
    by (rule cache_reachable.stepped [OF waiting_system_reachable])
  moreover have "cache_step one_block False stored_system served_system"
    unfolding served_system_def by (rule cache_step.fulfilled) (simp add: stored_system_def set_thread_def)
  ultimately show ?thesis by (rule cache_reachable.stepped)
qed

lemma served_blocks:
  "blocks (cache served_system) = [(''k'', \<lparr>bytes = 3, used_at = 2, generation = 1\<rparr>)]"
  by (simp add: served_system_def stored_system_def waiting_system_def fetching_system_def example_simps Let_def
      store_block_def fulfil_def u64_add_def)

section \<open>Properties\<close>

text \<open>
  C3. Single flight: unless the cache is reset, two threads never fetch the same block at the same time,
  however many ask for it and in whatever order they run.
\<close>

theorem single_flight:
  assumes "cache_reachable answer False s"
    and "threads s t = Fetching k g" and "threads s t' = Fetching k g'"
  shows "t = t'"
proof -
  obtain kf where "sys_inv kf answer False (cache s) (threads s)"
    using sys_inv_reachable [OF assms(1)] by blast
  then have inv: "owners_ok kf (cache s) (threads s)" "pinned_ok (cache s) (threads s)"
    by (simp_all add: sys_inv_def)
  have "holds (threads s t) = Some (k, g)" "holds (threads s t') = Some (k, g')" using assms by simp_all
  with inv(2) obtain b b' where "ent (cache s) k = Some (g, b)" "ent (cache s) k = Some (g', b')"
    unfolding pinned_ok_def by blast
  then have "g' = g" by simp
  with assms owners_unique [OF inv(1), of t k g t' k] show ?thesis by simp
qed

theorem single_flight_witness:
  "\<not> (\<exists>t. threads fetching_system t = Fetching ''k'' 1 \<and> t \<noteq> 0)"
proof -
  have "threads fetching_system 0 = Fetching ''k'' 1"
    by (simp add: fetching_system_def set_thread_def Let_def)
  with single_flight [OF fetching_system_reachable, of _ "''k''" 1 0 1] show ?thesis by blast
qed

text \<open>
  C36. What a thread gets from the cache is an answer Drive gave for exactly the block it asked for, or
  an exception a fetch of that block raised; bytes of another key never reach it, and a failed fetch is
  never kept in the map.
\<close>

theorem cache_returns_own_block:
  assumes "cache_reachable answer resets s"
  shows "(\<forall>t k v. threads s t = Returned k v \<longrightarrow> answer k v) \<and>
    (\<forall>k e x. map_of (blocks (cache s)) k = Some e \<longrightarrow> futures (cache s) (generation e) \<noteq> Failed x)"
proof -
  obtain kf where inv: "sys_inv kf answer resets (cache s) (threads s)"
    using sys_inv_reachable [OF assms] by blast
  have "\<forall>t k v. threads s t = Returned k v \<longrightarrow> answer k v"
    using inv unfolding sys_inv_def answers_ok_def by blast
  moreover have "futures (cache s) (generation e) \<noteq> Failed x" if "map_of (blocks (cache s)) k = Some e" for k e x
    using ents_okD [of kf "cache s" "threads s" k "generation e" "bytes e"] inv that
    by (simp add: sys_inv_def ent_def)
  ultimately show ?thesis by blast
qed

theorem cache_returns_own_block_witness:
  "threads served_system 0 = Returned ''k'' (Inl ''abc'') \<and>
   \<not> (\<exists>t k v. threads served_system t = Returned k v \<and> \<not> one_block k v)"
  using cache_returns_own_block [OF served_system_reachable] by (auto simp: served_system_def set_thread_def)

text \<open>
  C37. No thread waits in vain: the future it waits for is resolved already, or another thread is still
  responsible for resolving it, also when the cache was reset in between.
\<close>

theorem waiters_are_served:
  assumes "cache_reachable answer resets s" and "threads s t = Waiting k g"
  shows "futures (cache s) g \<noteq> Pending \<or>
    (\<exists>t' d x. threads s t' = Fetching k g \<or> threads s t' = Stored k g d \<or> threads s t' = Discarded k g x)"
proof -
  obtain kf where "sys_inv kf answer resets (cache s) (threads s)"
    using sys_inv_reachable [OF assms(1)] by blast
  with assms(2) have "futures (cache s) g = Pending \<longrightarrow> (\<exists>t'. owns (threads s t') = Some (k, g))"
    unfolding sys_inv_def waiters_ok_def by blast
  moreover have "\<exists>d x. pc = Fetching k g \<or> pc = Stored k g d \<or> pc = Discarded k g x"
    if "owns pc = Some (k, g)" for pc :: "'a thread" using that by (cases pc) auto
  ultimately show ?thesis by blast
qed

theorem waiters_are_served_witness:
  "\<exists>t' d x. threads waiting_system t' = Fetching ''k'' 1 \<or> threads waiting_system t' = Stored ''k'' 1 d \<or>
     threads waiting_system t' = Discarded ''k'' 1 x"
proof -
  have "futures (cache waiting_system) 1 = Pending"
    by (simp add: waiting_system_def fetching_system_def example_simps Let_def)
  moreover have "threads waiting_system 1 = Waiting ''k'' 1" by (simp add: waiting_system_def set_thread_def)
  ultimately show ?thesis using waiters_are_served [OF waiting_system_reachable, of 1 "''k''" 1] by blast
qed

text \<open>
  The byte count is the sum of the sizes of the blocks in the map, through every interleaving,
  evictions and resets included: the unsigned subtraction of an eviction never wraps.
\<close>

theorem cached_bytes_exact:
  assumes "cache_reachable answer resets s" and "total_bytes (blocks (cache s)) < 2 ^ 64"
  shows "cached_bytes (cache s) = total_bytes (blocks (cache s))"
proof -
  have "accounts (cache s)" using sys_inv_reachable [OF assms(1)] by (auto simp: sys_inv_def)
  with assms(2) show ?thesis by (simp add: accounts_def)
qed

theorem cached_bytes_exact_witness: "cached_bytes (cache served_system) = 3"
  using cached_bytes_exact [OF served_system_reachable] by (simp add: served_blocks total_bytes_def)

lemma evict_locked_bound:
  assumes "accounts c" "0 < capacity_bytes c"
  shows "cached_bytes (evict_locked c) \<le> capacity_bytes c \<or>
    (\<forall>(k, e)\<in>set (blocks (evict_locked c)). \<not> is_ready (evict_locked c) e)"
proof (cases "cached_bytes (evict_locked c) \<le> capacity_bytes c")
  case False
  have w: "distinct (map fst (blocks c)) \<and> 0 < capacity_bytes c" using assms by (simp add: accounts_def)
  then have "\<forall>(k, e)\<in>set (blocks (evict_locked c)). \<not> is_ready c e"
    using block_lru.evict_within [OF w] False by auto
  then show ?thesis by (simp add: is_ready_def)
qed simp

text \<open>
  Setting the capacity brings the cache within it: afterwards the count is at most the capacity or
  every block left is still being fetched, every block in flight is kept, and among the finished ones
  the least recently used went first.
\<close>

theorem set_capacity_evicts_lru:
  assumes "accounts c" and "0 < n"
  shows "(cached_bytes (set_capacity n c) \<le> n \<or>
      (\<forall>(k, e)\<in>set (blocks (set_capacity n c)). \<not> is_ready c e)) \<and>
    (\<forall>(k, e)\<in>set (blocks c). \<not> is_ready c e \<longrightarrow> (k, e) \<in> set (blocks (set_capacity n c))) \<and>
    (\<forall>(k, e)\<in>set (blocks c) - set (blocks (set_capacity n c)). \<forall>(k', e')\<in>set (blocks (set_capacity n c)).
       is_ready c e' \<longrightarrow> used_at e \<le> used_at e')"
proof -
  let ?c = "c\<lparr>capacity_bytes := n\<rparr>"
  have acc: "accounts ?c" using assms(1) by (simp add: accounts_def)
  have w: "distinct (map fst (blocks ?c)) \<and> 0 < capacity_bytes ?c" using assms by (simp add: accounts_def)
  have rdy: "is_ready ?c = is_ready c" "is_ready (evict_locked ?c) = is_ready c"
    by (simp_all add: is_ready_def fun_eq_iff)
  from evict_locked_bound [OF acc] assms(2) rdy
  have "cached_bytes (set_capacity n c) \<le> n \<or> (\<forall>(k, e)\<in>set (blocks (set_capacity n c)). \<not> is_ready c e)"
    by (simp add: set_capacity_def)
  with block_lru.evict_keeps_pinned [OF w] block_lru.evict_oldest_first [OF w] rdy
  show ?thesis by (auto simp: set_capacity_def)
qed

theorem set_capacity_evicts_lru_witness:
  "cached_bytes (set_capacity 2 (cache served_system)) \<le> 2 \<or>
    (\<forall>(k, e)\<in>set (blocks (set_capacity 2 (cache served_system))). \<not> is_ready (cache served_system) e)"
proof -
  have "accounts (cache served_system)"
    using sys_inv_reachable [OF served_system_reachable] by (auto simp: sys_inv_def)
  from set_capacity_evicts_lru [OF this, of 2] show ?thesis by simp
qed

end
