(* ===== verification/PathCache.thy ===== *)
theory PathCache
  imports Lru DriveApi
begin

text \<open>
  \<open>src/gdrive_path_cache.cpp\<close>: the resolver's cache of paths and the cache of file metadata that lives
  for one query. One filesystem object serves every connection, so every key carries the identity it was
  filled under. The query generation is thread-local in the source: it is an argument of the operations
  that read it. The process-wide hit and miss counters and the gauge that the operations update are
  fields of the record. The clock is a \<open>uint64_t\<close> and wraps.

  What a thread does between the two locked sections of \<open>GetOrFetchMetadata\<close> is in the theory of the
  resolver; here are the locked sections. A promise is named by a number of its own.
\<close>

section \<open>Keys\<close>

record cache_key =
  key_identity :: string
  key_drive_id :: string
  key_root_folder_id :: string
  canonical_path :: string

definition identity_prefix :: "cache_key \<Rightarrow> string" where
  "identity_prefix k =
     key_identity k @ unit_sep # key_drive_id k @ unit_sep # key_root_folder_id k @ [unit_sep]"

definition key_string :: "cache_key \<Rightarrow> string" where
  "key_string k =
     key_identity k @ unit_sep # key_drive_id k @ unit_sep # key_root_folder_id k @ unit_sep # canonical_path k"

definition metadata_prefix :: "cache_key \<Rightarrow> string" where
  "metadata_prefix k = identity_prefix k @ ''meta'' @ [unit_sep]"

definition metadata_key :: "cache_key \<Rightarrow> string \<Rightarrow> string" where
  "metadata_key k file_id =
     key_identity k @ unit_sep # key_drive_id k @ unit_sep # key_root_folder_id k @ unit_sep #
     ''meta'' @ unit_sep # file_id"

section \<open>State\<close>

record path_entry =
  entry_meta :: drive_file_meta
  last_used :: nat
  fresh_generation :: nat

text \<open>What a promise of \<open>GetOrFetchMetadata\<close> was given: nothing yet, metadata, absence or an exception.\<close>

datatype meta_answer = Unresolved | Found drive_file_meta | Absent | Raised exn

record path_cache =
  entries :: "(string \<times> path_entry) list"
  max_entries :: nat
  path_clock :: nat
  metadata_entries :: "(string \<times> nat) list"
  metadata_generation :: nat
  next_promise :: nat
  promised :: "nat \<Rightarrow> meta_answer"
  hit_count :: nat
  miss_count :: nat
  entries_gauge :: nat

definition empty_path_cache :: path_cache where
  "empty_path_cache = \<lparr>entries = [], max_entries = 0, path_clock = 0, metadata_entries = [],
     metadata_generation = 0, next_promise = 0, promised = (\<lambda>_. Unresolved), hit_count = 0, miss_count = 0,
     entries_gauge = 0\<rparr>"

section \<open>The path map\<close>

definition erase_path :: "string \<Rightarrow> path_cache \<Rightarrow> path_cache" where
  "erase_path k c = c\<lparr>entries := AList.delete k (entries c)\<rparr>"

text \<open>The loop of \<open>EvictPathsLocked\<close>, then the whole of it.\<close>

function evict_loop :: "path_cache \<Rightarrow> path_cache" where
  "evict_loop c =
     (if max_entries c \<noteq> 0 \<and> length (entries c) > max_entries c then
        (case victim (\<lambda>_. True) last_used (entries c) of
           None \<Rightarrow> c
         | Some (k, _) \<Rightarrow> evict_loop (erase_path k c))
      else c)"
  by pat_completeness auto
termination
  by (relation "measure (\<lambda>c. length (entries c))")
     (auto dest: victim_in simp: erase_path_def intro: length_delete_less)

declare evict_loop.simps [simp del]

definition evict_paths_locked :: "path_cache \<Rightarrow> path_cache" where
  "evict_paths_locked c =
     (let c = (if max_entries c = 0 then c else evict_loop c) in c\<lparr>entries_gauge := length (entries c)\<rparr>)"

definition set_max_entries :: "nat \<Rightarrow> path_cache \<Rightarrow> path_cache" where
  "set_max_entries n c = evict_paths_locked (c\<lparr>max_entries := n\<rparr>)"

text \<open>
  \<open>q\<close> is the generation of the calling thread and \<open>no_query\<close> DuckDB's number for "no query running".
  The result is the metadata and whether it is fresh in this query.
\<close>

definition try_get ::
    "nat \<Rightarrow> nat \<Rightarrow> cache_key \<Rightarrow> path_cache \<Rightarrow> (drive_file_meta \<times> bool) option \<times> path_cache" where
  "try_get no_query q key c =
     (case map_of (entries c) (key_string key) of
        None \<Rightarrow> (None, c\<lparr>miss_count := Suc (miss_count c)\<rparr>)
      | Some e \<Rightarrow>
          let now = u64_add (path_clock c) 1 in
          (Some (entry_meta e, q \<noteq> 0 \<and> q \<noteq> no_query \<and> fresh_generation e = q),
           c\<lparr>path_clock := now, entries := AList.update (key_string key) (e\<lparr>last_used := now\<rparr>) (entries c),
             hit_count := Suc (hit_count c)\<rparr>))"

definition put :: "nat \<Rightarrow> cache_key \<Rightarrow> drive_file_meta \<Rightarrow> path_cache \<Rightarrow> path_cache" where
  "put q key meta c =
     (let now = u64_add (path_clock c) 1;
          c = evict_paths_locked (c\<lparr>path_clock := now,
                entries := AList.update (key_string key)
                  \<lparr>entry_meta = meta, last_used = now, fresh_generation = q\<rparr> (entries c)\<rparr>) in
      c\<lparr>entries_gauge := length (entries c)\<rparr>)"

definition invalidate_prefix :: "cache_key \<Rightarrow> path_cache \<Rightarrow> path_cache" where
  "invalidate_prefix key c =
     (let exact = identity_prefix key @ canonical_path key;
          dir_prefix = exact @ [slash] in
      c\<lparr>metadata_entries := filter (\<lambda>(k, _). \<not> starts_with k (metadata_prefix key)) (metadata_entries c),
        entries := filter (\<lambda>(k, _). \<not> (starts_with k (identity_prefix key) \<and>
                                       (k = exact \<or> starts_with k dir_prefix))) (entries c)\<rparr>)"

definition clear_paths :: "path_cache \<Rightarrow> path_cache" where
  "clear_paths c = c\<lparr>entries := [], metadata_entries := []\<rparr>"

definition cache_size :: "path_cache \<Rightarrow> nat" where
  "cache_size c = length (entries c)"

section \<open>Metadata of a file, for one query\<close>

definition begin_query :: "nat \<Rightarrow> path_cache \<Rightarrow> path_cache" where
  "begin_query g c =
     (if g \<noteq> metadata_generation c then c\<lparr>metadata_entries := [], metadata_generation := g\<rparr> else c)"

text \<open>
  The first locked section: fetch without caching, wait for a promise, or fetch and resolve the promise
  that is in the map from now on.
\<close>

datatype metadata_plan = Uncached | Await nat | Fetch nat

definition metadata_lookup :: "cache_key \<Rightarrow> string \<Rightarrow> path_cache \<Rightarrow> metadata_plan \<times> path_cache" where
  "metadata_lookup key file_id c =
     (if metadata_generation c = 0 then (Uncached, c)
      else case map_of (metadata_entries c) (metadata_key key file_id) of
          Some p \<Rightarrow> (Await p, c\<lparr>hit_count := Suc (hit_count c)\<rparr>)
        | None \<Rightarrow>
            let p = Suc (next_promise c) in
            (Fetch p, c\<lparr>next_promise := p,
               metadata_entries := AList.update (metadata_key key file_id) p (metadata_entries c),
               miss_count := Suc (miss_count c)\<rparr>))"

definition metadata_erase :: "cache_key \<Rightarrow> string \<Rightarrow> path_cache \<Rightarrow> path_cache" where
  "metadata_erase key file_id c =
     c\<lparr>metadata_entries := AList.delete (metadata_key key file_id) (metadata_entries c)\<rparr>"

definition metadata_resolve :: "nat \<Rightarrow> meta_answer \<Rightarrow> path_cache \<Rightarrow> path_cache" where
  "metadata_resolve p a c = c\<lparr>promised := (promised c)(p := a)\<rparr>"

section \<open>Keys are one-to-one\<close>

text \<open>
  An identity is a fingerprint (\<open>FingerprintKey\<close> of \<open>gdrive_auth.cpp\<close>): the provider, the name of the
  secret and a hash, with a unit separator between them, so it has exactly two of them when the name has
  none. Drive ids and folder ids hold none; a path may hold anything.
\<close>

definition wf_identity :: "string \<Rightarrow> bool" where
  "wf_identity i \<longleftrightarrow> length (filter (\<lambda>c. c = unit_sep) i) = 2"

definition wf_key :: "cache_key \<Rightarrow> bool" where
  "wf_key k \<longleftrightarrow> wf_identity (key_identity k) \<and> unit_sep \<notin> set (key_drive_id k) \<and>
     unit_sep \<notin> set (key_root_folder_id k)"

definition same_identity :: "cache_key \<Rightarrow> cache_key \<Rightarrow> bool" where
  "same_identity k k' \<longleftrightarrow> key_identity k = key_identity k' \<and> key_drive_id k = key_drive_id k' \<and>
     key_root_folder_id k = key_root_folder_id k'"

text \<open>\<open>k'\<close> names the path of \<open>k\<close> or one below it, under the same identity.\<close>

definition covers :: "cache_key \<Rightarrow> cache_key \<Rightarrow> bool" where
  "covers k k' \<longleftrightarrow> same_identity k k' \<and>
     (canonical_path k' = canonical_path k \<or> starts_with (canonical_path k') (canonical_path k @ [slash]))"

lemma counted_append_eq:
  "length (filter (\<lambda>x. x = c) a) = length (filter (\<lambda>x. x = c) a') \<Longrightarrow> a @ c # b = a' @ c # b' \<longleftrightarrow> a = a' \<and> b = b'"
proof (induction a arbitrary: a')
  case Nil
  then show ?case by (cases a') (auto split: if_splits)
next
  case (Cons x a)
  then show ?case by (cases a') (auto split: if_splits)
qed

lemma sep_append_eq:
  "c \<notin> set a \<Longrightarrow> c \<notin> set a' \<Longrightarrow> a @ c # b = a' @ c # b' \<longleftrightarrow> a = a' \<and> b = b'"
proof (rule counted_append_eq)
  assume "c \<notin> set a" "c \<notin> set a'"
  then have "filter (\<lambda>x. x = c) a = []" "filter (\<lambda>x. x = c) a' = []" by (auto simp: filter_empty_conv)
  then show "length (filter (\<lambda>x. x = c) a) = length (filter (\<lambda>x. x = c) a')" by simp
qed

lemma identity_append_eq:
  "wf_identity a \<Longrightarrow> wf_identity a' \<Longrightarrow> a @ unit_sep # b = a' @ unit_sep # b' \<longleftrightarrow> a = a' \<and> b = b'"
  by (rule counted_append_eq) (simp add: wf_identity_def)

lemma key_string_prefix: "key_string k = identity_prefix k @ canonical_path k"
  by (simp add: key_string_def identity_prefix_def)

lemma same_identity_sym: "same_identity k k' \<longleftrightarrow> same_identity k' k"
  by (auto simp: same_identity_def)

lemma starts_with_identity_prefix:
  "wf_key k \<Longrightarrow> wf_key k' \<Longrightarrow>
   starts_with (identity_prefix k' @ r) (identity_prefix k @ s) \<longleftrightarrow> same_identity k k' \<and> starts_with r s"
  by (auto simp: starts_with_iff identity_prefix_def wf_key_def same_identity_def sep_append_eq identity_append_eq)

lemma key_string_inject: "wf_key k \<Longrightarrow> wf_key k' \<Longrightarrow> key_string k = key_string k' \<longleftrightarrow> k = k'"
  by (cases k; cases k') (auto simp: key_string_def wf_key_def sep_append_eq identity_append_eq)

text \<open>What an invalidation drops, on keys.\<close>

lemma dropped_iff_covers:
  assumes "wf_key k" "wf_key k'"
  shows "starts_with (key_string k') (identity_prefix k) \<and>
      (key_string k' = identity_prefix k @ canonical_path k \<or>
       starts_with (key_string k') ((identity_prefix k @ canonical_path k) @ [slash])) \<longleftrightarrow> covers k k'"
proof -
  have "key_string k' = identity_prefix k @ canonical_path k \<longleftrightarrow> k' = k"
    using key_string_inject [OF assms(2,1)] by (simp add: key_string_prefix)
  moreover have "starts_with (key_string k') ((identity_prefix k @ canonical_path k) @ [slash]) \<longleftrightarrow>
      same_identity k k' \<and> starts_with (canonical_path k') (canonical_path k @ [slash])"
    unfolding key_string_prefix [of k'] using starts_with_identity_prefix [OF assms] by simp
  moreover have "starts_with (key_string k') (identity_prefix k) \<longleftrightarrow> same_identity k k'"
    unfolding key_string_prefix [of k']
    using starts_with_identity_prefix [OF assms, of "canonical_path k'" "[]"] by simp
  moreover have "same_identity k k' \<and> canonical_path k' = canonical_path k \<longleftrightarrow> k' = k"
    by (auto simp: same_identity_def)
  ultimately show ?thesis unfolding covers_def by blast
qed

section \<open>Eviction\<close>

interpretation path_lru: lru_store entries "\<lambda>c. distinct (map fst (entries c))"
  "\<lambda>c. max_entries c \<noteq> 0 \<and> length (entries c) > max_entries c" "\<lambda>_ _. True" last_used erase_path evict_loop
proof unfold_locales
  fix c :: path_cache
  assume "\<not> (max_entries c \<noteq> 0 \<and> length (entries c) > max_entries c) \<or>
    victim (\<lambda>_. True) last_used (entries c) = None"
  then show "evict_loop c = c" by (subst evict_loop.simps) auto
next
  fix c :: path_cache and k e
  assume "max_entries c \<noteq> 0 \<and> length (entries c) > max_entries c"
    "victim (\<lambda>_. True) last_used (entries c) = Some (k, e)"
  then show "evict_loop c = evict_loop (erase_path k c)" by (subst evict_loop.simps) auto
qed (simp_all add: erase_path_def distinct_delete)

lemma erase_path_other [simp]:
  "max_entries (erase_path k c) = max_entries c" "path_clock (erase_path k c) = path_clock c"
  "metadata_entries (erase_path k c) = metadata_entries c"
  "metadata_generation (erase_path k c) = metadata_generation c"
  "next_promise (erase_path k c) = next_promise c" "promised (erase_path k c) = promised c"
  "entries (erase_path k c) = AList.delete k (entries c)"
  by (simp_all add: erase_path_def)

lemma evict_loop_other [simp]:
  "max_entries (evict_loop c) = max_entries c" "path_clock (evict_loop c) = path_clock c"
  "metadata_entries (evict_loop c) = metadata_entries c"
  "metadata_generation (evict_loop c) = metadata_generation c"
  "next_promise (evict_loop c) = next_promise c" "promised (evict_loop c) = promised c"
proof (induction c rule: evict_loop.induct)
  case (1 c)
  { case 1 show ?case by (subst evict_loop.simps) (auto simp: "1.IH" split: option.splits) }
  { case 2 show ?case by (subst evict_loop.simps) (auto simp: "1.IH" split: option.splits) }
  { case 3 show ?case by (subst evict_loop.simps) (auto simp: "1.IH" split: option.splits) }
  { case 4 show ?case by (subst evict_loop.simps) (auto simp: "1.IH" split: option.splits) }
  { case 5 show ?case by (subst evict_loop.simps) (auto simp: "1.IH" split: option.splits) }
  { case 6 show ?case by (subst evict_loop.simps) (auto simp: "1.IH" split: option.splits) }
qed

lemma length_delete_one:
  "distinct (map fst xs) \<Longrightarrow> (k, e) \<in> set xs \<Longrightarrow> length (AList.delete k xs) = length xs - 1"
proof (induction xs)
  case (Cons p xs)
  obtain k' e' where p: "p = (k', e')" by fastforce
  show ?case
  proof (cases "k' = k")
    case True
    with Cons.prems p show ?thesis by (simp add: delete_idem)
  next
    case False
    with Cons p have "length (AList.delete k xs) = length xs - 1" "xs \<noteq> []" by auto
    with False p show ?thesis by (simp add: Suc_diff_1)
  qed
qed simp

lemma evict_loop_length:
  "distinct (map fst (entries c)) \<Longrightarrow> max_entries c \<noteq> 0 \<Longrightarrow>
   length (entries (evict_loop c)) = min (max_entries c) (length (entries c))"
proof (induction c rule: evict_loop.induct)
  case (1 c)
  show ?case
  proof (cases "length (entries c) > max_entries c")
    case False
    then show ?thesis by (subst evict_loop.simps) simp
  next
    case True
    then have "hd (entries c) \<in> set (entries c)" by (cases "entries c") auto
    then have "victim (\<lambda>_. True) last_used (entries c) \<noteq> None"
      unfolding victim_None by (metis (mono_tags, lifting) case_prodD surj_pair)
    then obtain k e where v: "victim (\<lambda>_. True) last_used (entries c) = Some (k, e)" by auto
    have len: "length (AList.delete k (entries c)) = length (entries c) - 1"
      using length_delete_one [OF 1(2) victim_in [OF v]] .
    have "length (entries (evict_loop (erase_path k c))) =
        min (max_entries (erase_path k c)) (length (entries (erase_path k c)))"
      using "1.IH" [of "(k, e)" k e] True v 1(2,3) by (simp add: distinct_delete)
    with True v 1(3) len show ?thesis by (subst evict_loop.simps) simp
  qed
qed

lemma evict_paths_entries:
  "entries (evict_paths_locked c) = (if max_entries c = 0 then entries c else entries (evict_loop c))"
  by (simp add: evict_paths_locked_def Let_def)

lemma evict_paths_other [simp]:
  "max_entries (evict_paths_locked c) = max_entries c" "path_clock (evict_paths_locked c) = path_clock c"
  "metadata_entries (evict_paths_locked c) = metadata_entries c"
  "metadata_generation (evict_paths_locked c) = metadata_generation c"
  "next_promise (evict_paths_locked c) = next_promise c" "promised (evict_paths_locked c) = promised c"
  by (simp_all add: evict_paths_locked_def Let_def)

text \<open>The invariant of the path map: one entry per key, and never more than the bound.\<close>

definition path_inv :: "path_cache \<Rightarrow> bool" where
  "path_inv c \<longleftrightarrow> distinct (map fst (entries c)) \<and> (max_entries c = 0 \<or> length (entries c) \<le> max_entries c)"

lemma evict_paths_inv: "distinct (map fst (entries c)) \<Longrightarrow> path_inv (evict_paths_locked c)"
  using path_lru.evict_wf [of c] evict_loop_length [of c] by (auto simp: path_inv_def evict_paths_entries)

lemma map_of_subset:
  "distinct (map fst xs) \<Longrightarrow> distinct (map fst ys) \<Longrightarrow> set xs \<subseteq> set ys \<Longrightarrow> map_of xs k = Some e \<Longrightarrow>
   map_of ys k = Some e"
  by (auto dest: map_of_SomeD)

lemma evict_paths_subset:
  assumes "distinct (map fst (entries c))" "map_of (entries (evict_paths_locked c)) k = Some e"
  shows "map_of (entries c) k = Some e"
proof (cases "max_entries c = 0")
  case False
  with assms show ?thesis
    using map_of_subset [OF path_lru.evict_wf [OF assms(1)] assms(1) path_lru.evict_subset [OF assms(1)]]
    by (simp add: evict_paths_entries)
qed (use assms in \<open>simp add: evict_paths_entries\<close>)

section \<open>Runs of operations\<close>

text \<open>The operations as a client calls them, with the generation of the calling thread.\<close>

datatype cache_op =
    Get nat cache_key
  | Put nat cache_key drive_file_meta
  | Invalidate cache_key
  | SetMax nat
  | ClearAll
  | Begin nat

fun apply_op :: "nat \<Rightarrow> cache_op \<Rightarrow> path_cache \<Rightarrow> path_cache" where
  "apply_op nq (Get q k) c = snd (try_get nq q k c)"
| "apply_op nq (Put q k m) c = put q k m c"
| "apply_op nq (Invalidate k) c = invalidate_prefix k c"
| "apply_op nq (SetMax n) c = set_max_entries n c"
| "apply_op nq ClearAll c = clear_paths c"
| "apply_op nq (Begin g) c = begin_query g c"

text \<open>
  What they promise: a partial map from keys to the metadata stored last and the query it was stored in.
\<close>

type_synonym path_map = "cache_key \<Rightarrow> (drive_file_meta \<times> nat) option"

fun spec_op :: "cache_op \<Rightarrow> path_map \<Rightarrow> path_map" where
  "spec_op (Put q k m) M = M(k \<mapsto> (m, q))"
| "spec_op (Invalidate k) M = (\<lambda>k'. if covers k k' then None else M k')"
| "spec_op ClearAll M = Map.empty"
| "spec_op _ M = M"

definition view :: "path_cache \<Rightarrow> path_map" where
  "view c k = map_option (\<lambda>e. (entry_meta e, fresh_generation e)) (map_of (entries c) (key_string k))"

fun wf_op :: "cache_op \<Rightarrow> bool" where
  "wf_op (Get q k) \<longleftrightarrow> wf_key k"
| "wf_op (Put q k m) \<longleftrightarrow> wf_key k"
| "wf_op (Invalidate k) \<longleftrightarrow> wf_key k"
| "wf_op _ \<longleftrightarrow> True"

lemma length_update_present: "map_of xs k = Some e \<Longrightarrow> length (AList.update k e' xs) = length xs"
  by (induction xs) auto

lemma path_inv_apply: "path_inv c \<Longrightarrow> path_inv (apply_op nq op c)"
proof (cases op)
  case (Get q k)
  moreover assume "path_inv c"
  ultimately show ?thesis
    by (auto simp: try_get_def path_inv_def distinct_update length_update_present Let_def split: option.splits)
next
  case (Put q k m)
  moreover assume "path_inv c"
  ultimately have "distinct (map fst (entries (c\<lparr>path_clock := n, entries := AList.update (key_string k) e (entries c)\<rparr>)))"
    for n e by (simp add: path_inv_def distinct_update)
  from evict_paths_inv [OF this] Put show ?thesis by (simp add: put_def Let_def path_inv_def)
next
  case (Invalidate k)
  moreover assume "path_inv c"
  ultimately show ?thesis
    by (auto simp: invalidate_prefix_def path_inv_def Let_def distinct_map_filter intro: le_trans [OF length_filter_le])
next
  case (SetMax n)
  moreover assume "path_inv c"
  ultimately show ?thesis using evict_paths_inv [of "c\<lparr>max_entries := n\<rparr>"]
    by (simp add: set_max_entries_def path_inv_def)
next
  case (Begin g)
  moreover assume "path_inv c"
  ultimately show ?thesis by (simp add: path_inv_def begin_query_def)
qed (simp add: path_inv_def clear_paths_def)

lemma path_inv_run: "path_inv (fold (apply_op nq) ops empty_path_cache)"
proof (induction ops rule: rev_induct)
  case Nil
  show ?case by (simp add: path_inv_def empty_path_cache_def)
qed (simp add: path_inv_apply)

text \<open>Every key in the map is the key of an operation, so well formed.\<close>

definition keys_ok :: "path_cache \<Rightarrow> bool" where
  "keys_ok c \<longleftrightarrow> (\<forall>(s, e)\<in>set (entries c). \<exists>k. wf_key k \<and> s = key_string k)"

lemma view_update:
  "entries c' = AList.update (key_string k) e (entries c) \<Longrightarrow> wf_key k \<Longrightarrow> wf_key k' \<Longrightarrow>
   view c' k' = (if k' = k then Some (entry_meta e, fresh_generation e) else view c k')"
  by (simp add: view_def update_conv' key_string_inject)

lemma view_same_entries: "entries c' = entries c \<Longrightarrow> view c' = view c"
  by (simp add: view_def fun_eq_iff)

lemma view_get: "wf_key k \<Longrightarrow> wf_key k' \<Longrightarrow> view (snd (try_get nq q k c)) k' = view c k'"
proof (cases "map_of (entries c) (key_string k)")
  case None
  then show ?thesis by (simp add: try_get_def view_def)
next
  case (Some e)
  assume wf: "wf_key k" "wf_key k'"
  let ?e = "e\<lparr>last_used := u64_add (path_clock c) 1\<rparr>"
  have "entries (snd (try_get nq q k c)) = AList.update (key_string k) ?e (entries c)"
    using Some by (simp add: try_get_def Let_def)
  from view_update [OF this wf] Some show ?thesis by (simp add: view_def)
qed

lemma view_evict:
  assumes "distinct (map fst (entries c))"
  shows "view (evict_paths_locked c) k = Some x \<Longrightarrow> view c k = Some x"
    and "max_entries c = 0 \<Longrightarrow> view (evict_paths_locked c) k = view c k"
proof -
  show "view c k = Some x" if "view (evict_paths_locked c) k = Some x"
  proof -
    from that obtain e where "map_of (entries (evict_paths_locked c)) (key_string k) = Some e"
      "x = (entry_meta e, fresh_generation e)" unfolding view_def by auto
    with evict_paths_subset [OF assms] show ?thesis unfolding view_def by simp
  qed
  show "max_entries c = 0 \<Longrightarrow> view (evict_paths_locked c) k = view c k"
    by (simp add: view_def evict_paths_entries)
qed

lemma view_put:
  assumes "path_inv c" "wf_key k" "wf_key k'"
  shows "view (put q k m c) k' = Some x \<Longrightarrow> ((view c)(k \<mapsto> (m, q))) k' = Some x"
    and "max_entries c = 0 \<Longrightarrow> view (put q k m c) k' = ((view c)(k \<mapsto> (m, q))) k'"
proof -
  let ?e = "\<lparr>entry_meta = m, last_used = u64_add (path_clock c) 1, fresh_generation = q\<rparr>"
  let ?c = "c\<lparr>path_clock := u64_add (path_clock c) 1, entries := AList.update (key_string k) ?e (entries c)\<rparr>"
  have d: "distinct (map fst (entries ?c))" using assms(1) by (simp add: path_inv_def distinct_update)
  have v: "view (put q k m c) = view (evict_paths_locked ?c)"
    by (rule view_same_entries) (simp add: put_def Let_def)
  have u: "view ?c k' = ((view c)(k \<mapsto> (m, q))) k'"
    using view_update [of ?c k ?e c k'] assms by simp
  show "view (put q k m c) k' = Some x \<Longrightarrow> ((view c)(k \<mapsto> (m, q))) k' = Some x"
    using view_evict(1) [OF d] unfolding v u [symmetric] .
  show "max_entries c = 0 \<Longrightarrow> view (put q k m c) k' = ((view c)(k \<mapsto> (m, q))) k'"
    using view_evict(2) [OF d] unfolding v u [symmetric] by simp
qed

lemma map_of_filter_keys: "map_of (filter (\<lambda>(k, _). P k) xs) k = (if P k then map_of xs k else None)"
  by (induction xs) auto

lemma view_invalidate:
  "wf_key k \<Longrightarrow> wf_key k' \<Longrightarrow> view (invalidate_prefix k c) k' = (if covers k k' then None else view c k')"
  using dropped_iff_covers [of k k']
  by (auto simp: view_def invalidate_prefix_def Let_def map_of_filter_keys)

text \<open>One operation, against what it promises.\<close>

lemma apply_op_view:
  assumes "path_inv c" "wf_op op" "wf_key k"
  shows "view (apply_op nq op c) k = Some x \<Longrightarrow> spec_op op (view c) k = Some x"
    and "max_entries c = 0 \<Longrightarrow> (\<forall>n. op = SetMax n \<longrightarrow> n = 0) \<Longrightarrow>
      view (apply_op nq op c) k = spec_op op (view c) k \<and> max_entries (apply_op nq op c) = 0"
proof -
  have set_max: "view (set_max_entries n c) k = Some x \<Longrightarrow> view c k = Some x"
    "n = 0 \<Longrightarrow> view (set_max_entries n c) k = view c k" for n
    using view_evict [of "c\<lparr>max_entries := n\<rparr>" k] assms(1)
    by (auto simp: set_max_entries_def path_inv_def view_def)
  show "view (apply_op nq op c) k = Some x \<Longrightarrow> spec_op op (view c) k = Some x"
  proof (cases op)
    case (Put q k0 m)
    with view_put(1) [OF assms(1), of k0 k] assms show "view (apply_op nq op c) k = Some x \<Longrightarrow> ?thesis" by simp
  next
    case (Begin g)
    moreover have "view (begin_query g c) = view c" by (rule view_same_entries) (simp add: begin_query_def)
    ultimately show "view (apply_op nq op c) k = Some x \<Longrightarrow> ?thesis" by simp
  next
    case ClearAll
    then show "view (apply_op nq op c) k = Some x \<Longrightarrow> ?thesis" by (simp add: view_def clear_paths_def)
  qed (use assms set_max in \<open>auto simp: view_get view_invalidate\<close>)
  show "max_entries c = 0 \<Longrightarrow> (\<forall>n. op = SetMax n \<longrightarrow> n = 0) \<Longrightarrow>
      view (apply_op nq op c) k = spec_op op (view c) k \<and> max_entries (apply_op nq op c) = 0"
  proof (cases op)
    case (Put q k0 m)
    moreover assume "max_entries c = 0"
    ultimately show ?thesis using view_put(2) [OF assms(1), of k0 k] assms by (simp add: put_def Let_def)
  next
    case (Begin g)
    moreover have "view (begin_query g c) = view c" by (rule view_same_entries) (simp add: begin_query_def)
    moreover assume "max_entries c = 0"
    ultimately show ?thesis by (simp add: begin_query_def)
  next
    case (Get q k0)
    moreover assume "max_entries c = 0"
    moreover have "max_entries (snd (try_get nq q k0 c)) = max_entries c"
      by (simp add: try_get_def Let_def split: option.split)
    ultimately show ?thesis using assms by (simp add: view_get)
  next
    case (SetMax n)
    moreover assume "\<forall>n. op = SetMax n \<longrightarrow> n = 0"
    ultimately show ?thesis using set_max(2) by (simp add: set_max_entries_def)
  next
    case (Invalidate k0)
    moreover assume "max_entries c = 0"
    ultimately show ?thesis using assms by (simp add: view_invalidate) (simp add: invalidate_prefix_def Let_def)
  next
    case ClearAll
    moreover assume "max_entries c = 0"
    ultimately show ?thesis by (simp add: view_def clear_paths_def)
  qed
qed

lemma spec_op_mono:
  "(\<And>k. wf_key k \<Longrightarrow> M k = Some x \<Longrightarrow> N k = Some x) \<Longrightarrow> wf_key k \<Longrightarrow> spec_op op M k = Some x \<Longrightarrow>
   spec_op op N k = Some x"
  by (cases op) (auto split: if_splits)

lemma view_empty: "view empty_path_cache = Map.empty"
  by (simp add: view_def empty_path_cache_def fun_eq_iff)

lemma run_view_le:
  "\<forall>op\<in>set ops. wf_op op \<Longrightarrow> wf_key k \<Longrightarrow> view (fold (apply_op nq) ops empty_path_cache) k = Some x \<Longrightarrow>
   fold spec_op ops Map.empty k = Some x"
proof (induction ops arbitrary: k rule: rev_induct)
  case (snoc op ops)
  let ?c = "fold (apply_op nq) ops empty_path_cache"
  have "spec_op op (view ?c) k = Some x"
    using apply_op_view(1) [OF path_inv_run, of op k] snoc.prems by simp
  moreover have "view ?c k' = Some x \<Longrightarrow> fold spec_op ops Map.empty k' = Some x" if "wf_key k'" for k'
    using snoc.IH [OF _ that] snoc.prems(1) by simp
  ultimately show ?case using spec_op_mono [of "view ?c" x] snoc.prems(2) by simp
qed (simp add: view_empty)

lemma run_view_eq:
  "\<forall>op\<in>set ops. wf_op op \<and> (\<forall>n. op = SetMax n \<longrightarrow> n = 0) \<Longrightarrow>
   max_entries (fold (apply_op nq) ops empty_path_cache) = 0 \<and>
   (\<forall>k. wf_key k \<longrightarrow> view (fold (apply_op nq) ops empty_path_cache) k = fold spec_op ops Map.empty k)"
proof (induction ops rule: rev_induct)
  case (snoc op ops)
  let ?c = "fold (apply_op nq) ops empty_path_cache"
  have IH: "max_entries ?c = 0" "\<And>k. wf_key k \<Longrightarrow> view ?c k = fold spec_op ops Map.empty k"
    using snoc by auto
  have op: "wf_op op" "\<forall>n. op = SetMax n \<longrightarrow> n = 0" using snoc.prems by auto
  have "max_entries (apply_op nq op ?c) = 0"
    using apply_op_view(2) [OF path_inv_run op(1) _ IH(1) op(2), of "\<lparr>key_identity = [unit_sep, unit_sep], key_drive_id = [],
      key_root_folder_id = [], canonical_path = []\<rparr>"] by (simp add: wf_key_def wf_identity_def)
  moreover have "view (apply_op nq op ?c) k = spec_op op (fold spec_op ops Map.empty) k" if k: "wf_key k" for k
    using apply_op_view(2) [OF path_inv_run op(1) k IH(1) op(2)] IH(2) k by (cases op) auto
  ultimately show ?case by simp
qed (simp add: view_empty, simp add: empty_path_cache_def)

text \<open>The stamps are never ahead of the clock, which counts the accesses.\<close>

definition clock_ok :: "nat \<Rightarrow> path_cache \<Rightarrow> bool" where
  "clock_ok n c \<longleftrightarrow> path_clock c \<le> n \<and> (\<forall>(s, e)\<in>set (entries c). last_used e \<le> path_clock c)"

lemma clock_ok_subset:
  "clock_ok n c \<Longrightarrow> path_clock c' = path_clock c \<Longrightarrow> set (entries c') \<subseteq> set (entries c) \<Longrightarrow> n \<le> n' \<Longrightarrow>
   clock_ok n' c'"
  by (fastforce simp: clock_ok_def)

lemma set_update: "set (AList.update k e xs) \<subseteq> insert (k, e) (set xs)"
  by (induction xs) auto

lemma clock_ok_touch:
  assumes "clock_ok n c" "Suc n < 2 ^ 64" "last_used e = Suc (path_clock c)"
  shows "clock_ok (Suc n) (c\<lparr>path_clock := Suc (path_clock c), entries := AList.update s e (entries c)\<rparr>)"
  using assms set_update [of s e "entries c"] by (fastforce simp: clock_ok_def)

lemma u64_tick: "clock_ok n c \<Longrightarrow> Suc n < 2 ^ 64 \<Longrightarrow> u64_add (path_clock c) 1 = Suc (path_clock c)"
  by (simp add: clock_ok_def u64_add_def)

lemma evict_paths_set:
  "distinct (map fst (entries c)) \<Longrightarrow> set (entries (evict_paths_locked c)) \<subseteq> set (entries c)"
  using path_lru.evict_subset [of c] by (simp add: evict_paths_entries)

lemma clock_ok_apply:
  assumes "path_inv c" "clock_ok n c" "Suc n < 2 ^ 64"
  shows "clock_ok (Suc n) (apply_op nq op c)"
proof (cases op)
  case (Get q k)
  show ?thesis
  proof (cases "map_of (entries c) (key_string k)")
    case None
    with Get clock_ok_subset [OF assms(2)] show ?thesis by (simp add: try_get_def)
  next
    case (Some e)
    have "clock_ok (Suc n) (c\<lparr>path_clock := Suc (path_clock c),
        entries := AList.update (key_string k) (e\<lparr>last_used := Suc (path_clock c)\<rparr>) (entries c)\<rparr>)"
      using clock_ok_touch [OF assms(2,3)] by simp
    with Get Some u64_tick [OF assms(2,3)] show ?thesis by (simp add: try_get_def Let_def clock_ok_def)
  qed
next
  case (Put q k m)
  let ?e = "\<lparr>entry_meta = m, last_used = Suc (path_clock c), fresh_generation = q\<rparr>"
  let ?c = "c\<lparr>path_clock := Suc (path_clock c), entries := AList.update (key_string k) ?e (entries c)\<rparr>"
  have "distinct (map fst (entries ?c))" using assms(1) by (simp add: path_inv_def distinct_update)
  from evict_paths_set [OF this] have sub: "set (entries (evict_paths_locked ?c)) \<subseteq> set (entries ?c)" .
  have "clock_ok (Suc n) ?c" using clock_ok_touch [OF assms(2,3)] by simp
  from clock_ok_subset [OF this _ sub le_refl] have "clock_ok (Suc n) (evict_paths_locked ?c)" by simp
  then have "clock_ok (Suc n) (evict_paths_locked ?c\<lparr>entries_gauge := g\<rparr>)" for g by (simp add: clock_ok_def)
  with Put u64_tick [OF assms(2,3)] show ?thesis by (simp add: put_def Let_def)
next
  case (Invalidate k)
  with clock_ok_subset [OF assms(2), of "invalidate_prefix k c"] show ?thesis
    by (auto simp: invalidate_prefix_def Let_def)
next
  case (SetMax n')
  with clock_ok_subset [OF assms(2), of "set_max_entries n' c"] evict_paths_set [of "c\<lparr>max_entries := n'\<rparr>"]
    assms(1) show ?thesis by (simp add: set_max_entries_def path_inv_def)
next
  case ClearAll
  with clock_ok_subset [OF assms(2), of "clear_paths c"] show ?thesis by (simp add: clear_paths_def)
next
  case (Begin g)
  with clock_ok_subset [OF assms(2), of "begin_query g c"] show ?thesis by (simp add: begin_query_def)
qed

lemma clock_ok_run: "length ops < 2 ^ 64 \<Longrightarrow> clock_ok (length ops) (fold (apply_op nq) ops empty_path_cache)"
proof (induction ops rule: rev_induct)
  case Nil
  show ?case by (simp add: clock_ok_def empty_path_cache_def)
next
  case (snoc op ops)
  then show ?case using clock_ok_apply [of "fold (apply_op nq) ops empty_path_cache" "length ops" nq op] path_inv_run by simp
qed

text \<open>The newest entry survives the eviction of the insertion that made it.\<close>

lemma evict_keeps_newest:
  assumes "distinct (map fst (entries c))" "(s, e) \<in> set (entries c)"
    and newest: "\<forall>(s', e')\<in>set (entries c). s' \<noteq> s \<longrightarrow> last_used e' < last_used e"
  shows "(s, e) \<in> set (entries (evict_paths_locked c))"
proof (cases "max_entries c = 0")
  case False
  have "entries c \<noteq> []" using assms(2) by auto
  with False have "length (entries (evict_loop c)) > 0" using evict_loop_length [OF assms(1) False] by simp
  then obtain s' e' where r: "(s', e') \<in> set (entries (evict_loop c))"
    by (metis length_greater_0_conv list.set_intros(1) neq_Nil_conv surj_pair)
  have r': "(s', e') \<in> set (entries c)" using path_lru.evict_subset [OF assms(1)] r by blast
  have "(s, e) \<in> set (entries (evict_loop c))"
  proof (rule ccontr)
    assume out: "(s, e) \<notin> set (entries (evict_loop c))"
    with path_lru.evict_oldest_first [OF assms(1,2) out r] have "last_used e \<le> last_used e'" by simp
    with newest r' have "s' = s" by fastforce
    with r' assms(1,2) have "e' = e" by (metis eq_key_imp_eq_value)
    with out r \<open>s' = s\<close> show False by simp
  qed
  with False show ?thesis by (simp add: evict_paths_entries)
qed (use assms in \<open>simp add: evict_paths_entries\<close>)

section \<open>Properties\<close>

definition example_key :: "string \<Rightarrow> string \<Rightarrow> cache_key" where
  "example_key ident path =
     \<lparr>key_identity = ''config'' @ unit_sep # ident @ [unit_sep], key_drive_id = [], key_root_folder_id = ''root'', canonical_path = path\<rparr>"

text \<open>
  C20. The path cache is a bounded copy of a plain map: whatever operations ran before, from whichever
  queries, a hit gives the metadata that was stored last under exactly this identity and path, and no
  invalidation of the path or of a folder above it came since; it is reported fresh only when it was
  stored in the query that asks, and never in the two generations no query owns. Without a bound nothing
  is lost either.
\<close>

theorem path_cache_refines_map:
  assumes "\<forall>op\<in>set ops. wf_op op" and "wf_key k"
    and "fst (try_get nq q k (fold (apply_op nq) ops empty_path_cache)) = Some (m, fresh)"
  shows "\<exists>g. fold spec_op ops Map.empty k = Some (m, g) \<and> (fresh \<longleftrightarrow> q = g \<and> q \<noteq> 0 \<and> q \<noteq> nq)"
proof -
  let ?c = "fold (apply_op nq) ops empty_path_cache"
  from assms(3) obtain e where e: "map_of (entries ?c) (key_string k) = Some e" "m = entry_meta e"
      "fresh \<longleftrightarrow> q \<noteq> 0 \<and> q \<noteq> nq \<and> fresh_generation e = q"
    by (auto simp: try_get_def Let_def split: option.splits)
  then have "view ?c k = Some (m, fresh_generation e)" by (simp add: view_def)
  from run_view_le [OF assms(1,2) this] e(3) show ?thesis by auto
qed

theorem path_cache_refines_map_witness:
  "\<exists>g. fold spec_op [Put 7 (example_key ''a'' ''x/y'') no_meta, Invalidate (example_key ''a'' ''z'')] Map.empty
        (example_key ''a'' ''x/y'') = Some (no_meta, g) \<and> (True \<longleftrightarrow> (7::nat) = g \<and> (7::nat) \<noteq> 0 \<and> (7::nat) \<noteq> 99)"
  by (rule path_cache_refines_map)
     (simp_all add: example_key_def wf_key_def wf_identity_def try_get_def put_def evict_paths_locked_def invalidate_prefix_def
       empty_path_cache_def Let_def key_string_def identity_prefix_def metadata_prefix_def)

text \<open>
  The unbounded cache loses nothing: every path the map of the run holds is a hit.
\<close>

theorem unbounded_cache_complete:
  assumes "\<forall>op\<in>set ops. wf_op op \<and> (\<forall>n. op = SetMax n \<longrightarrow> n = 0)" and "wf_key k"
  shows "map_option fst (fst (try_get nq q k (fold (apply_op nq) ops empty_path_cache))) =
    map_option fst (fold spec_op ops Map.empty k)"
proof -
  let ?c = "fold (apply_op nq) ops empty_path_cache"
  have "view ?c k = fold spec_op ops Map.empty k" using run_view_eq [OF assms(1)] assms(2) by blast
  moreover have "map_option fst (fst (try_get nq q k ?c)) = map_option fst (view ?c k)"
    by (auto simp: try_get_def view_def Let_def split: option.splits)
  ultimately show ?thesis by simp
qed

text \<open>
  A path that was just stored is found, however small the bound: the eviction that an insertion runs
  drops older entries only, and it brings the map within its bound. The cache may have run through any
  operations before, as long as the 64-bit clock has not wrapped.
\<close>

theorem put_is_served:
  assumes "length ops < 2 ^ 64 - 1"
  shows "fst (try_get nq q' k (put q k m (fold (apply_op nq) ops empty_path_cache))) =
      Some (m, q' = q \<and> q' \<noteq> 0 \<and> q' \<noteq> nq) \<and>
    path_inv (put q k m (fold (apply_op nq) ops empty_path_cache))"
proof -
  let ?base = "fold (apply_op nq) ops empty_path_cache"
  have inv: "path_inv ?base" "clock_ok (length ops) ?base" using path_inv_run clock_ok_run assms by simp_all
  have tick: "u64_add (path_clock ?base) 1 = Suc (path_clock ?base)" using u64_tick [OF inv(2)] assms by simp
  let ?e = "\<lparr>entry_meta = m, last_used = Suc (path_clock ?base), fresh_generation = q\<rparr>"
  let ?c = "?base\<lparr>path_clock := Suc (path_clock ?base), entries := AList.update (key_string k) ?e (entries ?base)\<rparr>"
  have d: "distinct (map fst (entries ?c))" using inv(1) by (simp add: path_inv_def distinct_update)
  have "map_of (entries ?c) (key_string k) = Some ?e" by (simp add: update_conv')
  then have mem: "(key_string k, ?e) \<in> set (entries ?c)" by (rule map_of_SomeD)
  have "\<forall>(s', e')\<in>set (entries ?c). s' \<noteq> key_string k \<longrightarrow> last_used e' < last_used ?e"
    using inv(2) set_update [of "key_string k" ?e "entries ?base"] by (fastforce simp: clock_ok_def)
  from evict_keeps_newest [OF d mem this] have "(key_string k, ?e) \<in> set (entries (evict_paths_locked ?c))" .
  moreover have "distinct (map fst (entries (evict_paths_locked ?c)))"
    using evict_paths_inv [OF d] unfolding path_inv_def by blast
  ultimately have found: "map_of (entries (evict_paths_locked ?c)) (key_string k) = Some ?e" by simp
  have ent: "entries (put q k m ?base) = entries (evict_paths_locked ?c)"
    unfolding put_def Let_def tick by simp
  have "fst (try_get nq q' k (put q k m ?base)) = Some (m, q' \<noteq> 0 \<and> q' \<noteq> nq \<and> q = q')"
    unfolding try_get_def ent found Let_def by simp
  then have "fst (try_get nq q' k (put q k m ?base)) = Some (m, q' = q \<and> q' \<noteq> 0 \<and> q' \<noteq> nq)" by auto
  moreover have "path_inv (put q k m ?base)" using path_inv_apply [OF inv(1), of nq "Put q k m"] by simp
  ultimately show ?thesis by simp
qed

theorem put_is_served_witness:
  "fst (try_get 99 5 (example_key ''a'' ''x'') (put 5 (example_key ''a'' ''x'') no_meta
      (fold (apply_op 99) [SetMax 1, Put 4 (example_key ''b'' ''x'') no_meta] empty_path_cache))) =
    Some (no_meta, True)"
  using put_is_served [of "[SetMax 1, Put 4 (example_key ''b'' ''x'') no_meta]" 99 5 "example_key ''a'' ''x''" 5 no_meta]
  by simp

end
