(* ===== verification/Resolver.thy ===== *)
theory Resolver
  imports Uri DriveCalls BlockCache PathCache
begin

text \<open>
  The ground of \<open>src/gdrive_filesystem.cpp\<close>: the state of the filesystem object (its path cache, its
  block cache and the world its clients talk to), what DuckDB gives an operation (secrets, settings, the
  query number), the listing helpers and the path resolver.

  An operation is a function of the state whose result is \<open>None\<close> when it does not return: a listing
  whose pages never end, or a wait for a promise that nobody in this run resolves.
\<close>

section \<open>State and environment\<close>

record auth_context =
  auth_tokens :: nat
  auth_drive_id :: string
  auth_root_folder_id :: string
  auth_identity :: string
  auth_quota_project :: string

record 'w fs_state =
  world :: "'w world"
  paths :: path_cache
  block_store :: "exn block_cache"

text \<open>
  What DuckDB and the secret provider give: whether there is a secret manager and a \<open>gdrive\<close> secret, the
  auth context of a path (\<open>gdrive_auth.cpp\<close>, which may talk to the token endpoint), the token sources,
  the settings and the number of the running query.
\<close>

record 'w fs_env =
  has_opener :: bool
  has_secret :: bool
  auth_for :: "string \<Rightarrow> 'w \<Rightarrow> auth_context outcome \<times> 'w"
  source_token :: "nat \<Rightarrow> 'w \<Rightarrow> string outcome \<times> 'w"
  source_refresh :: "nat \<Rightarrow> string \<Rightarrow> 'w \<Rightarrow> string outcome \<times> 'w"
  http_base :: "'w drive_env"
  bool_settings :: "string \<Rightarrow> bool option"
  ubigint_settings :: "string \<Rightarrow> nat option"
  string_settings :: "string \<Rightarrow> string option"
  active_query :: nat
  no_query :: nat

text \<open>\<open>CreateGDriveClient\<close>: the client of an auth context.\<close>

definition create_client :: "'w fs_env \<Rightarrow> auth_context \<Rightarrow> 'w drive_env" where
  "create_client fe auth = (http_base fe)
     \<lparr>token_of := source_token fe (auth_tokens auth), refresh_of := source_refresh fe (auth_tokens auth),
      env_drive_id := auth_drive_id auth, env_quota_project := auth_quota_project auth\<rparr>"

definition get_bool_setting :: "'w fs_env \<Rightarrow> string \<Rightarrow> bool \<Rightarrow> bool" where
  "get_bool_setting fe nm dflt = (case bool_settings fe nm of None \<Rightarrow> dflt | Some v \<Rightarrow> v)"

definition get_ubigint_setting :: "'w fs_env \<Rightarrow> string \<Rightarrow> nat \<Rightarrow> nat" where
  "get_ubigint_setting fe nm dflt = (case ubigint_settings fe nm of None \<Rightarrow> dflt | Some v \<Rightarrow> v)"

definition get_string_setting :: "'w fs_env \<Rightarrow> string \<Rightarrow> string \<Rightarrow> string" where
  "get_string_setting fe nm dflt = (case string_settings fe nm of None \<Rightarrow> dflt | Some v \<Rightarrow> v)"

type_synonym ('a, 'w) fs = "'w fs_state \<Rightarrow> ('a outcome \<times> 'w fs_state) option"

definition fs_ret :: "'a \<Rightarrow> ('a, 'w) fs" where "fs_ret x s = Some (Inr x, s)"

definition fs_throw :: "exn \<Rightarrow> ('a, 'w) fs" where "fs_throw e s = Some (Inl e, s)"

definition fs_bind :: "('a, 'w) fs \<Rightarrow> ('a \<Rightarrow> ('b, 'w) fs) \<Rightarrow> ('b, 'w) fs" where
  "fs_bind m f s =
     (case m s of
        None \<Rightarrow> None
      | Some (Inl e, s') \<Rightarrow> Some (Inl e, s')
      | Some (Inr x, s') \<Rightarrow> f x s')"

definition fs_guard :: "bool \<Rightarrow> exn \<Rightarrow> (unit, 'w) fs" where
  "fs_guard ok e = (if ok then fs_ret () else fs_throw e)"

text \<open>A call of the client, a step of one of the caches, and the exception of a failed response.\<close>

definition fs_io :: "('a, 'w) io \<Rightarrow> ('a, 'w) fs" where
  "fs_io m s = (case m (world s) of (r, w) \<Rightarrow> Some (r, s\<lparr>world := w\<rparr>))"

definition fs_paths :: "(path_cache \<Rightarrow> 'a \<times> path_cache) \<Rightarrow> ('a, 'w) fs" where
  "fs_paths f s = (case f (paths s) of (x, c) \<Rightarrow> Some (Inr x, s\<lparr>paths := c\<rparr>))"

definition fs_paths_do :: "(path_cache \<Rightarrow> path_cache) \<Rightarrow> (unit, 'w) fs" where
  "fs_paths_do f = fs_paths (\<lambda>c. ((), f c))"

definition fs_blocks_do :: "(exn block_cache \<Rightarrow> exn block_cache) \<Rightarrow> (unit, 'w) fs" where
  "fs_blocks_do f s = Some (Inr (), s\<lparr>block_store := f (block_store s)\<rparr>)"

definition fs_error :: "gdrive_error \<Rightarrow> string \<Rightarrow> ('a, 'w) fs" where
  "fs_error e ctx s = Some (throw_gdrive_error e ctx, s)"

section \<open>Helpers\<close>

definition escape_drive_query_literal :: "string \<Rightarrow> string" where
  "escape_drive_query_literal s = concat (map (\<lambda>c. if c = backslash \<or> c = squote then [backslash, c] else [c]) s)"

definition join_gdrive_path :: "string \<Rightarrow> string \<Rightarrow> string" where
  "join_gdrive_path parent nm = scheme @ (if parent \<noteq> [] then parent @ [slash] else []) @ nm"

definition root_folder_for :: "auth_context \<Rightarrow> string" where
  "root_folder_for auth =
     (if auth_root_folder_id auth \<noteq> [] then auth_root_folder_id auth
      else if auth_drive_id auth \<noteq> [] then auth_drive_id auth
      else ''root'')"

definition path_key :: "auth_context \<Rightarrow> string \<Rightarrow> cache_key" where
  "path_key auth p = \<lparr>key_identity = auth_identity auth, key_drive_id = auth_drive_id auth,
     key_root_folder_id = auth_root_folder_id auth, canonical_path = p\<rparr>"

definition append_segment :: "string \<Rightarrow> string \<Rightarrow> string" where
  "append_segment canonical segment = (if canonical = [] then [] else canonical @ [slash]) @ segment"

definition canonical_path_of :: "gdrive_uri \<Rightarrow> string" where
  "canonical_path_of uri =
     (if kind uri \<noteq> PATH then [] else foldl append_segment [] (segments uri))"

definition require_opener :: "'w fs_env \<Rightarrow> string \<Rightarrow> (unit, 'w) fs" where
  "require_opener fe ctx =
     fs_guard (has_opener fe) (IOException (''gdrive: no database context available to resolve '' @ squote # ctx @ [squote]))"

definition no_secret :: "string \<Rightarrow> exn" where
  "no_secret path = IOException (''gdrive: no gdrive secret configured for '' @ squote # path @ [squote] @
     '' -- run CREATE SECRET (TYPE gdrive, ...) first.'')"

definition get_auth_context :: "'w fs_env \<Rightarrow> string \<Rightarrow> (auth_context, 'w) fs" where
  "get_auth_context fe path = fs_io (\<lambda>w. case auth_for fe path (net w) of (r, n) \<Rightarrow> (r, w\<lparr>net := n\<rparr>))"

section \<open>Listings\<close>

text \<open>
  The paging loop of \<open>ListByName\<close>, \<open>ListChildren\<close> and \<open>ListFilesNamedInParent\<close>: \<open>malformed\<close> is the text of the
  one exception in which they differ.
\<close>

partial_function (option) list_pages ::
    "'w drive_env \<Rightarrow> string \<Rightarrow> string \<Rightarrow> string \<Rightarrow> drive_file_meta list \<Rightarrow> string \<Rightarrow> 'w fs_state \<Rightarrow>
     (drive_file_meta list outcome \<times> 'w fs_state) option" where
  "list_pages client query ctx malformed matches token s =
     (case list_loop client query [] token (world s) of
        None \<Rightarrow> None
      | Some (Inl e, w) \<Rightarrow> Some (Inl e, s\<lparr>world := w\<rparr>)
      | Some (Inr resp, w) \<Rightarrow>
          if \<not> resp_ok resp then Some (throw_gdrive_error (resp_error resp) ctx, s\<lparr>world := w\<rparr>)
          else (case parse_file_list (parse_json client) (resp_body resp) of
              None \<Rightarrow> Some (Inl (IOException malformed), s\<lparr>world := w\<rparr>)
            | Some (page, next_token) \<Rightarrow>
                if next_token = [] then Some (Inr (matches @ page), s\<lparr>world := w\<rparr>)
                else list_pages client query ctx malformed (matches @ page) next_token (s\<lparr>world := w\<rparr>)))"

definition in_parents :: "string \<Rightarrow> string" where
  "in_parents parent_id = [squote] @ parent_id @ [squote] @ '' in parents and ''"

definition name_query :: "string \<Rightarrow> string \<Rightarrow> bool \<Rightarrow> string" where
  "name_query parent_id nm require_folder =
     in_parents parent_id @ ''name='' @ [squote] @ escape_drive_query_literal nm @ [squote] @ '' and trashed=false'' @
     (if require_folder then '' and mimeType='' @ [squote] @ folder_mime_type @ [squote] else [])"

definition list_by_name ::
    "'w drive_env \<Rightarrow> string \<Rightarrow> string \<Rightarrow> bool \<Rightarrow> string \<Rightarrow> (drive_file_meta list, 'w) fs" where
  "list_by_name client parent_id nm require_folder ctx =
     list_pages client (name_query parent_id nm require_folder) ctx
       (''gdrive: malformed listing response resolving '' @ squote # ctx @ [squote]) [] []"

definition list_children :: "'w drive_env \<Rightarrow> string \<Rightarrow> string \<Rightarrow> (drive_file_meta list, 'w) fs" where
  "list_children client parent_id ctx =
     list_pages client (in_parents parent_id @ ''trashed=false'') ctx
       (''gdrive: malformed listing response for '' @ squote # ctx @ [squote]) [] []"

fun comma_list :: "string list \<Rightarrow> string" where
  "comma_list [] = []"
| "comma_list [x] = x"
| "comma_list (x # y # ys) = x @ '', '' @ comma_list (y # ys)"

definition throw_ambiguous :: "drive_file_meta list \<Rightarrow> string \<Rightarrow> ('a, 'w) fs" where
  "throw_ambiguous matches ctx = fs_throw (IOException
     (''gdrive: '' @ squote # ctx @ [squote] @ '' is ambiguous: '' @ decimal (length matches) @
      '' files share that name in the same folder (ids: '' @ comma_list (map meta_id matches) @
      ''). Use the gdrive://id:<fileId> form to address one of them directly.''))"

section \<open>Metadata of a file id, fetched once per query\<close>

text \<open>
  \<open>GetOrFetchMetadata\<close> as one thread runs it. \<open>fetch\<close> gives \<open>None\<close> for an absent file and may throw.
\<close>

definition get_or_fetch_metadata ::
    "cache_key \<Rightarrow> string \<Rightarrow> (drive_file_meta option, 'w) fs \<Rightarrow> (drive_file_meta option, 'w) fs" where
  "get_or_fetch_metadata key fid fetch s =
     (case metadata_lookup key fid (paths s) of
        (Uncached, c) \<Rightarrow> fetch (s\<lparr>paths := c\<rparr>)
      | (Fetch p, c) \<Rightarrow>
          (case fetch (s\<lparr>paths := c\<rparr>) of
             None \<Rightarrow> None
           | Some (Inl e, s) \<Rightarrow>
               Some (Inl e, s\<lparr>paths := metadata_resolve p (Raised e) (metadata_erase key fid (paths s))\<rparr>)
           | Some (Inr None, s) \<Rightarrow>
               Some (Inr None, s\<lparr>paths := metadata_resolve p Absent (metadata_erase key fid (paths s))\<rparr>)
           | Some (Inr (Some m), s) \<Rightarrow>
               Some (Inr (Some m), s\<lparr>paths := metadata_resolve p (Found m) (paths s)\<rparr>))
      | (Await p, c) \<Rightarrow>
          (case promised c p of
             Unresolved \<Rightarrow> None
           | Found m \<Rightarrow> Some (Inr (Some m), s\<lparr>paths := c\<rparr>)
           | Absent \<Rightarrow> Some (Inr None, s\<lparr>paths := c\<rparr>)
           | Raised e \<Rightarrow> Some (Inl e, s\<lparr>paths := c\<rparr>)))"

section \<open>The resolver\<close>

text \<open>\<open>files.get\<close> as the resolver reads it: absent, metadata, or an exception.\<close>

definition fetch_metadata :: "'w drive_env \<Rightarrow> string \<Rightarrow> string \<Rightarrow> (drive_file_meta option, 'w) fs" where
  "fetch_metadata client fid ctx =
     fs_bind (fs_io (get_metadata client fid)) (\<lambda>resp.
       if \<not> resp_ok resp then
         (if err_kind (resp_error resp) = NOT_FOUND then fs_ret None else fs_error (resp_error resp) ctx)
       else case parse_file_meta (parse_json client) (resp_body resp) of
           None \<Rightarrow> fs_throw (IOException (''gdrive: malformed metadata response for '' @ squote # ctx @ [squote]))
         | Some m \<Rightarrow> fs_ret (Some m))"

text \<open>
  The walk over the segments. The result is \<open>None\<close> when a segment is not there, otherwise the metadata
  of the last segment, if there was one, the id to look in next and whether the leaf is fresh.
\<close>

fun resolve_segments ::
    "'w fs_env \<Rightarrow> 'w drive_env \<Rightarrow> auth_context \<Rightarrow> string \<Rightarrow> string list \<Rightarrow> string \<Rightarrow> string \<Rightarrow>
     drive_file_meta option \<Rightarrow> bool \<Rightarrow> ((drive_file_meta option \<times> string \<times> bool) option, 'w) fs" where
  "resolve_segments fe client auth ctx [] canonical parent_id meta fresh = fs_ret (Some (meta, parent_id, fresh))"
| "resolve_segments fe client auth ctx (segment # rest) canonical parent_id meta fresh =
     (let canonical = append_segment canonical segment; is_last = (rest = []) in
      fs_bind (fs_paths (try_get (no_query fe) (active_query fe) (path_key auth canonical))) (\<lambda>hit.
        case hit of
          Some (m, cached_fresh) \<Rightarrow>
            resolve_segments fe client auth ctx rest canonical (meta_id m) (Some m)
              (if is_last then cached_fresh else fresh)
        | None \<Rightarrow>
            fs_bind (list_by_name client parent_id segment (\<not> is_last) ctx) (\<lambda>matches.
              case matches of
                [] \<Rightarrow> fs_ret None
              | [m] \<Rightarrow>
                  fs_bind (fs_paths_do (put (active_query fe) (path_key auth canonical) m)) (\<lambda>_.
                    resolve_segments fe client auth ctx rest canonical (meta_id m) (Some m)
                      (if is_last then True else fresh))
              | _ \<Rightarrow> throw_ambiguous matches ctx)))"

definition try_resolve_path ::
    "'w fs_env \<Rightarrow> 'w drive_env \<Rightarrow> auth_context \<Rightarrow> gdrive_uri \<Rightarrow> ((drive_file_meta \<times> bool) option, 'w) fs" where
  "try_resolve_path fe client auth uri =
     (let ctx = to_string uri in
      if kind uri = FILE_ID then
        fs_bind (get_or_fetch_metadata (path_key auth []) (file_id uri) (fetch_metadata client (file_id uri) ctx))
          (\<lambda>r. fs_ret (map_option (\<lambda>m. (m, False)) r))
      else
        fs_bind (resolve_segments fe client auth ctx (segments uri) [] (root_folder_for auth) None False) (\<lambda>r.
          case r of
            None \<Rightarrow> fs_ret None
          | Some (Some m, _, fresh) \<Rightarrow> fs_ret (Some (m, fresh))
          | Some (None, parent_id, fresh) \<Rightarrow>
              fs_bind (fetch_metadata client parent_id ctx) (\<lambda>r. fs_ret (map_option (\<lambda>m. (m, fresh)) r))))"

definition no_such_file :: "gdrive_uri \<Rightarrow> exn" where
  "no_such_file uri = IOException (''gdrive: no such file or directory: '' @ squote # to_string uri @ [squote])"

definition resolve_path ::
    "'w fs_env \<Rightarrow> 'w drive_env \<Rightarrow> auth_context \<Rightarrow> gdrive_uri \<Rightarrow> (drive_file_meta, 'w) fs" where
  "resolve_path fe client auth uri =
     fs_bind (try_resolve_path fe client auth uri) (\<lambda>r.
       case r of None \<Rightarrow> fs_throw (no_such_file uri) | Some (m, _) \<Rightarrow> fs_ret m)"

section \<open>Rules for the combinators\<close>

named_theorems fs_simps \<open>evaluation of the combinators of the state\<close>

lemma fs_bind_simps [fs_simps]:
  "m s = None \<Longrightarrow> fs_bind m f s = None"
  "m s = Some (Inl e, s') \<Longrightarrow> fs_bind m f s = Some (Inl e, s')"
  "m s = Some (Inr x, s') \<Longrightarrow> fs_bind m f s = f x s'"
  by (simp_all add: fs_bind_def)

lemma fs_bind_Some:
  "fs_bind m f s = Some (r, s') \<longleftrightarrow>
     (\<exists>e. m s = Some (Inl e, s') \<and> r = Inl e) \<or> (\<exists>x t. m s = Some (Inr x, t) \<and> f x t = Some (r, s'))"
  by (auto simp: fs_bind_def split: option.splits sum.splits)

lemma fs_ret_apply [simp, fs_simps]: "fs_ret x s = Some (Inr x, s)"
  and fs_throw_apply [simp, fs_simps]: "fs_throw e s = Some (Inl e, s)"
  by (simp_all add: fs_ret_def fs_throw_def)

lemma fs_error_apply [simp, fs_simps]: "fs_error e ctx s = Some (throw_gdrive_error e ctx, s)"
  by (simp add: fs_error_def)

lemma throw_gdrive_error_not_Inr [simp]: "throw_gdrive_error e ctx \<noteq> Inr x"
  by (simp add: throw_gdrive_error_def Let_def)

lemma fs_paths_do_apply [simp, fs_simps]: "fs_paths_do f s = Some (Inr (), s\<lparr>paths := f (paths s)\<rparr>)"
  by (simp add: fs_paths_do_def fs_paths_def)

lemma fs_blocks_do_apply [simp, fs_simps]:
  "fs_blocks_do f s = Some (Inr (), s\<lparr>block_store := f (block_store s)\<rparr>)"
  by (simp add: fs_blocks_do_def)

lemma fs_paths_apply: "fs_paths f s = Some (Inr (fst (f (paths s))), s\<lparr>paths := snd (f (paths s))\<rparr>)"
  by (simp add: fs_paths_def split: prod.splits)

section \<open>Canonical paths\<close>

definition wf_auth :: "auth_context \<Rightarrow> bool" where
  "wf_auth auth \<longleftrightarrow> wf_identity (auth_identity auth) \<and> unit_sep \<notin> set (auth_drive_id auth) \<and>
     unit_sep \<notin> set (auth_root_folder_id auth)"

lemma wf_path_key [simp]: "wf_key (path_key auth p) \<longleftrightarrow> wf_auth auth"
  by (simp add: wf_key_def path_key_def wf_auth_def)

lemma path_key_inject [simp]: "path_key auth p = path_key auth q \<longleftrightarrow> p = q"
  by (simp add: path_key_def)

lemma append_segment_join:
  "\<forall>x\<in>set pre. x \<noteq> [] \<Longrightarrow> append_segment (join slash pre) seg = join slash (pre @ [seg])"
proof (cases "pre = []")
  case False
  moreover assume "\<forall>x\<in>set pre. x \<noteq> []"
  ultimately have "join slash pre \<noteq> []" using last_join [of pre slash] by simp
  then have "append_segment (join slash pre) seg = join slash pre @ slash # join slash [seg]"
    by (simp add: append_segment_def)
  also have "\<dots> = join slash (pre @ [seg])" using False join_append_Cons [of pre "[seg]" slash] by simp
  finally show ?thesis .
qed (simp add: append_segment_def)

lemma foldl_append_segment:
  "\<forall>x\<in>set pre \<union> set segs. x \<noteq> [] \<Longrightarrow> foldl append_segment (join slash pre) segs = join slash (pre @ segs)"
proof (induction segs arbitrary: pre)
  case (Cons seg segs)
  have "append_segment (join slash pre) seg = join slash (pre @ [seg])"
    using Cons.prems by (intro append_segment_join) auto
  with Cons.IH [of "pre @ [seg]"] Cons.prems show ?case by simp
qed simp

lemma canonical_path_of_join:
  "wf_uri uri \<Longrightarrow> kind uri = PATH \<Longrightarrow> canonical_path_of uri = join slash (segments uri)"
  using foldl_append_segment [of "[]" "segments uri"]
  by (auto simp: canonical_path_of_def wf_uri_def wf_segment_def)

section \<open>The resolver on a Drive that keeps still\<close>

text \<open>
  A Drive as the tree of what is in each folder: \<open>kids p\<close> are the objects in the folder with the id \<open>p\<close>.
  \<open>names kids root segs m\<close>: following \<open>segs\<close> from the root by name leads to \<open>m\<close>.
\<close>

type_synonym drive_tree = "string \<Rightarrow> drive_file_meta list"

inductive names :: "drive_tree \<Rightarrow> string \<Rightarrow> string list \<Rightarrow> drive_file_meta \<Rightarrow> bool" for kids root where
  first: "m \<in> set (kids root) \<Longrightarrow> names kids root [meta_name m] m"
| further: "names kids root segs d \<Longrightarrow> m \<in> set (kids (meta_id d)) \<Longrightarrow> names kids root (segs @ [meta_name m]) m"

text \<open>
  What Drive documents of a listing by name, and the trees in which a path means one object: no name
  twice in a folder, nothing inside a file.
\<close>

definition serves :: "'w drive_env \<Rightarrow> drive_tree \<Rightarrow> bool" where
  "serves client kids \<longleftrightarrow> (\<forall>parent nm folder ctx s. \<exists>w.
     list_by_name client parent nm folder ctx s =
       Some (Inr (filter (\<lambda>m. meta_name m = nm \<and> (folder \<longrightarrow> is_folder m)) (kids parent)), s\<lparr>world := w\<rparr>))"

definition unambiguous :: "drive_tree \<Rightarrow> bool" where
  "unambiguous kids \<longleftrightarrow> (\<forall>p. distinct (map meta_name (kids p)) \<and>
     (\<forall>m\<in>set (kids p). \<not> is_folder m \<longrightarrow> kids (meta_id m) = []))"

text \<open>Every entry of the path cache under this identity is what its path leads to.\<close>

definition cache_sound :: "drive_tree \<Rightarrow> auth_context \<Rightarrow> path_cache \<Rightarrow> bool" where
  "cache_sound kids auth c \<longleftrightarrow> path_inv c \<and>
     (\<forall>segs m g. segs \<noteq> [] \<longrightarrow> (\<forall>x\<in>set segs. x \<noteq> [] \<and> slash \<notin> set x) \<longrightarrow>
        view c (path_key auth (join slash segs)) = Some (m, g) \<longrightarrow> names kids (root_folder_for auth) segs m)"

inductive_cases names_NilE: "names kids root [] m"

lemma names_not_Nil [simp]: "\<not> names kids root [] m"
  by (auto elim: names_NilE)

lemma names_snoc:
  "names kids root (segs @ [seg]) m \<longleftrightarrow>
     meta_name m = seg \<and> (if segs = [] then m \<in> set (kids root) else \<exists>d. names kids root segs d \<and> m \<in> set (kids (meta_id d)))"
proof
  assume "names kids root (segs @ [seg]) m"
  then show "meta_name m = seg \<and>
      (if segs = [] then m \<in> set (kids root) else \<exists>d. names kids root segs d \<and> m \<in> set (kids (meta_id d)))"
    by cases auto
qed (auto intro: names.first [of m kids root] names.further split: if_splits
      dest: names.first [of m kids root, simplified])

lemma names_unique: "unambiguous kids \<Longrightarrow> names kids root segs m \<Longrightarrow> names kids root segs m' \<Longrightarrow> m' = m"
proof (induction segs arbitrary: m m' rule: rev_induct)
  case (snoc seg segs)
  have same: "m' = m" if "m \<in> set (kids p)" "m' \<in> set (kids p)" "meta_name m = meta_name m'" for p
    using that snoc.prems(1) by (auto simp: unambiguous_def distinct_map inj_on_def)
  show ?case
  proof (cases "segs = []")
    case True
    with snoc.prems same [of root] names_snoc [of kids root "[]" seg] show ?thesis by simp
  next
    case False
    with snoc.prems obtain d d' where "names kids root segs d" "names kids root segs d'"
      "m \<in> set (kids (meta_id d))" "m' \<in> set (kids (meta_id d'))" "meta_name m = meta_name m'"
      by (auto simp: names_snoc)
    with snoc.IH [OF snoc.prems(1)] same show ?thesis by blast
  qed
qed simp

lemma names_append:
  "names kids root (segs @ rest) m \<Longrightarrow> segs \<noteq> [] \<Longrightarrow> rest \<noteq> [] \<Longrightarrow>
   \<exists>d. names kids root segs d \<and> kids (meta_id d) \<noteq> []"
proof (induction rest arbitrary: m rule: rev_induct)
  case (snoc seg rest)
  then obtain d where d: "names kids root (segs @ rest) d" "m \<in> set (kids (meta_id d))"
    using names_snoc [of kids root "segs @ rest" seg m] by auto
  show ?case
  proof (cases "rest = []")
    case True
    with d show ?thesis by auto
  next
    case False
    with snoc.IH d(1) snoc.prems(2) show ?thesis by blast
  qed
qed simp

lemma filter_by_name:
  assumes "distinct (map meta_name xs)"
  shows "filter (\<lambda>m. meta_name m = nm \<and> P m) xs = [] \<or>
    (\<exists>m. filter (\<lambda>m. meta_name m = nm \<and> P m) xs = [m] \<and> m \<in> set xs \<and> meta_name m = nm)"
  using assms
proof (induction xs)
  case (Cons x xs)
  have "meta_name m \<noteq> nm" if "meta_name x = nm" "m \<in> set xs" for m
    using that Cons.prems by (auto simp: rev_image_eqI)
  then have "meta_name x = nm \<Longrightarrow> filter (\<lambda>m. meta_name m = nm \<and> P m) xs = []" by (auto simp: filter_empty_conv)
  with Cons show ?case by auto
qed simp

definition wf_path :: "string list \<Rightarrow> bool" where
  "wf_path segs \<longleftrightarrow> (\<forall>x\<in>set segs. x \<noteq> [] \<and> slash \<notin> set x)"

lemma wf_path_simps [simp]:
  "wf_path []" "wf_path (x # xs) \<longleftrightarrow> x \<noteq> [] \<and> slash \<notin> set x \<and> wf_path xs"
  "wf_path (xs @ ys) \<longleftrightarrow> wf_path xs \<and> wf_path ys"
  by (auto simp: wf_path_def)

lemma join_path_inject:
  "segs \<noteq> [] \<Longrightarrow> segs' \<noteq> [] \<Longrightarrow> wf_path segs \<Longrightarrow> wf_path segs' \<Longrightarrow>
   join slash segs = join slash segs' \<longleftrightarrow> segs = segs'"
  by (rule join_inject) (auto simp: wf_path_def)

lemma cache_soundD:
  "cache_sound kids auth c \<Longrightarrow> segs \<noteq> [] \<Longrightarrow> wf_path segs \<Longrightarrow>
   view c (path_key auth (join slash segs)) = Some (m, g) \<Longrightarrow> names kids (root_folder_for auth) segs m"
  unfolding cache_sound_def wf_path_def by blast

lemma cache_soundI:
  "path_inv c \<Longrightarrow>
   (\<And>segs m g. segs \<noteq> [] \<Longrightarrow> wf_path segs \<Longrightarrow> view c (path_key auth (join slash segs)) = Some (m, g) \<Longrightarrow>
      names kids (root_folder_for auth) segs m) \<Longrightarrow> cache_sound kids auth c"
  unfolding cache_sound_def wf_path_def by blast

lemma cache_sound_get:
  assumes "cache_sound kids auth c" "wf_auth auth"
  shows "cache_sound kids auth (snd (try_get nq q (path_key auth p) c))"
proof (rule cache_soundI)
  have "path_inv c" using assms(1) by (simp add: cache_sound_def)
  then show "path_inv (snd (try_get nq q (path_key auth p) c))"
    using path_inv_apply [of c nq "Get q (path_key auth p)"] by simp
qed (use assms cache_soundD in \<open>simp add: view_get\<close>)

lemma cache_sound_put:
  assumes "cache_sound kids auth c" "wf_auth auth" "segs \<noteq> []" "wf_path segs"
    and "names kids (root_folder_for auth) segs m"
  shows "cache_sound kids auth (put q (path_key auth (join slash segs)) m c)"
proof (rule cache_soundI)
  have inv: "path_inv c" using assms(1) by (simp add: cache_sound_def)
  show "path_inv (put q (path_key auth (join slash segs)) m c)"
    using path_inv_apply [OF inv, of 0 "Put q (path_key auth (join slash segs)) m"] by simp
  fix segs' m' g
  assume p: "segs' \<noteq> []" "wf_path segs'"
    and v: "view (put q (path_key auth (join slash segs)) m c) (path_key auth (join slash segs')) = Some (m', g)"
  from view_put(1) [OF inv _ _ v] assms(2)
  have "((view c)(path_key auth (join slash segs) \<mapsto> (m, q))) (path_key auth (join slash segs')) = Some (m', g)"
    by simp
  then show "names kids (root_folder_for auth) segs' m'"
    using assms p cache_soundD [OF assms(1) p] join_path_inject [of segs segs']
    by (cases "segs' = segs") auto
qed

lemma try_get_hit:
  "fst (try_get nq q k c) = Some (m, f) \<Longrightarrow> \<exists>g. view c k = Some (m, g)"
  by (auto simp: try_get_def view_def Let_def split: option.splits)

lemma try_get_miss: "fst (try_get nq q k c) = None \<longleftrightarrow> view c k = None"
  by (auto simp: try_get_def view_def Let_def split: option.splits)

text \<open>Where a walk stands after the segments \<open>pre\<close>.\<close>

definition stands :: "drive_tree \<Rightarrow> string \<Rightarrow> string list \<Rightarrow> drive_file_meta option \<Rightarrow> string \<Rightarrow> bool" where
  "stands kids root pre meta pid \<longleftrightarrow>
     (case meta of
        None \<Rightarrow> pre = [] \<and> pid = root
      | Some m \<Rightarrow> names kids root pre m \<and> pid = meta_id m)"

lemma stands_step:
  "stands kids root pre meta pid \<Longrightarrow> m \<in> set (kids pid) \<Longrightarrow> names kids root (pre @ [meta_name m]) m"
  by (auto simp: stands_def names_snoc split: option.splits)

lemma stands_absent:
  assumes "stands kids root pre meta pid" "unambiguous kids" "names kids root (pre @ seg # rest) m"
  shows "\<exists>d\<in>set (kids pid). meta_name d = seg \<and> (rest \<noteq> [] \<longrightarrow> is_folder d)"
proof -
  obtain d where d: "names kids root (pre @ [seg]) d" "rest \<noteq> [] \<longrightarrow> kids (meta_id d) \<noteq> []"
  proof (cases "rest = []")
    case True
    with assms(3) that show ?thesis by simp
  next
    case False
    with names_append [of kids root "pre @ [seg]" rest m] assms(3) that show ?thesis by auto
  qed
  have "d \<in> set (kids pid) \<and> meta_name d = seg"
  proof (cases meta)
    case None
    with assms(1) d(1) show ?thesis by (auto simp: stands_def names_snoc [of _ _ "[]", simplified])
  next
    case (Some m0)
    then have m0: "names kids root pre m0" "pid = meta_id m0" using assms(1) by (auto simp: stands_def)
    then have "pre \<noteq> []" by auto
    with d(1) obtain d0 where "names kids root pre d0" "d \<in> set (kids (meta_id d0))" "meta_name d = seg"
      by (auto simp: names_snoc)
    with names_unique [OF assms(2) m0(1)] m0(2) show ?thesis by blast
  qed
  with d(2) assms(2) show ?thesis unfolding unambiguous_def by blast
qed

text \<open>One step of the walk: the segment is in the cache, or one listing decides.\<close>

lemma walk_hit:
  assumes "fst (try_get (no_query fe) (active_query fe) (path_key auth (append_segment canonical seg)) (paths s)) = Some (m, f)"
  shows "resolve_segments fe client auth ctx (seg # rest) canonical pid meta fresh s =
    resolve_segments fe client auth ctx rest (append_segment canonical seg) (meta_id m) (Some m) (if rest = [] then f else fresh)
      (s\<lparr>paths := snd (try_get (no_query fe) (active_query fe) (path_key auth (append_segment canonical seg)) (paths s))\<rparr>)"
  using assms by (simp add: fs_bind_def fs_paths_apply Let_def del: resolve_segments.simps(1))

lemma walk_found:
  assumes "fst (try_get (no_query fe) (active_query fe) (path_key auth (append_segment canonical seg)) (paths s)) = None"
    and "list_by_name client pid seg (rest \<noteq> []) ctx
      (s\<lparr>paths := snd (try_get (no_query fe) (active_query fe) (path_key auth (append_segment canonical seg)) (paths s))\<rparr>) =
      Some (Inr [m], t)"
  shows "resolve_segments fe client auth ctx (seg # rest) canonical pid meta fresh s =
    resolve_segments fe client auth ctx rest (append_segment canonical seg) (meta_id m) (Some m) (if rest = [] then True else fresh)
      (t\<lparr>paths := put (active_query fe) (path_key auth (append_segment canonical seg)) m (paths t)\<rparr>)"
  using assms by (simp add: fs_bind_def fs_paths_apply Let_def del: resolve_segments.simps(1))

lemma walk_stops:
  assumes "fst (try_get (no_query fe) (active_query fe) (path_key auth (append_segment canonical seg)) (paths s)) = None"
    and "list_by_name client pid seg (rest \<noteq> []) ctx
      (s\<lparr>paths := snd (try_get (no_query fe) (active_query fe) (path_key auth (append_segment canonical seg)) (paths s))\<rparr>) =
      Some (x, t)" and "\<And>m. x \<noteq> Inr [m]"
  shows "\<exists>r. resolve_segments fe client auth ctx (seg # rest) canonical pid meta fresh s = Some (r, t) \<and>
    (\<forall>y. r \<noteq> Inr (Some y)) \<and> (x = Inr [] \<longrightarrow> r = Inr None)"
proof (cases x)
  case (Inl e)
  with assms(1,2) show ?thesis by (simp add: fs_bind_def fs_paths_apply Let_def)
next
  case (Inr ms)
  with assms show ?thesis
    by (cases ms rule: remdups_adj.cases) (auto simp: fs_bind_def fs_paths_apply throw_ambiguous_def Let_def)
qed

lemma walk_cases:
  assumes "resolve_segments fe client auth ctx (seg # rest) canonical pid meta fresh s = Some (r, s')"
  defines "can \<equiv> append_segment canonical seg"
  defines "get \<equiv> try_get (no_query fe) (active_query fe) (path_key auth can) (paths s)"
  obtains (hit) m f where "fst get = Some (m, f)"
      "resolve_segments fe client auth ctx rest can (meta_id m) (Some m) (if rest = [] then f else fresh)
        (s\<lparr>paths := snd get\<rparr>) = Some (r, s')"
  | (found) m t where "fst get = None" "list_by_name client pid seg (rest \<noteq> []) ctx (s\<lparr>paths := snd get\<rparr>) = Some (Inr [m], t)"
      "resolve_segments fe client auth ctx rest can (meta_id m) (Some m) (if rest = [] then True else fresh)
        (t\<lparr>paths := put (active_query fe) (path_key auth can) m (paths t)\<rparr>) = Some (r, s')"
  | (stops) x where "fst get = None" "list_by_name client pid seg (rest \<noteq> []) ctx (s\<lparr>paths := snd get\<rparr>) = Some (x, s')"
      "\<And>y. r \<noteq> Inr (Some y)"
proof (cases "fst get")
  case (Some h)
  obtain m f where h: "fst get = Some (m, f)" using Some by (cases h) auto
  from hit [OF h] walk_hit [OF h [unfolded get_def can_def]] assms(1) show thesis by (simp add: get_def can_def)
next
  case None
  show thesis
  proof (cases "list_by_name client pid seg (rest \<noteq> []) ctx (s\<lparr>paths := snd get\<rparr>)")
    case N: None
    from assms(1) None N show thesis by (simp add: fs_bind_def fs_paths_apply Let_def get_def can_def)
  next
    case (Some y)
    obtain x t where l: "list_by_name client pid seg (rest \<noteq> []) ctx (s\<lparr>paths := snd get\<rparr>) = Some (x, t)"
      using Some by (cases y) auto
    show thesis
    proof (cases "\<exists>m. x = Inr [m]")
      case True
      then obtain m where x: "x = Inr [m]" by blast
      from found [OF None l [unfolded x]] walk_found [OF None [unfolded get_def can_def] l [unfolded x get_def can_def]] assms(1)
      show thesis by (simp add: can_def)
    next
      case False
      then have "\<And>m. x \<noteq> Inr [m]" by blast
      from walk_stops [OF None [unfolded get_def can_def] l [unfolded get_def can_def] this, of meta fresh] assms(1)
      have "t = s'" "\<And>y. r \<noteq> Inr (Some y)" by (auto simp del: resolve_segments.simps)
      with stops [OF None] l show thesis by blast
    qed
  qed
qed

lemma resolve_segments_correct:
  assumes "serves client kids" "unambiguous kids" "wf_auth auth"
  shows "cache_sound kids auth (paths s) \<Longrightarrow> wf_path (pre @ segs) \<Longrightarrow>
    stands kids (root_folder_for auth) pre meta pid \<Longrightarrow>
    \<exists>r s'. resolve_segments fe client auth ctx segs (join slash pre) pid meta fresh s = Some (Inr r, s') \<and>
      cache_sound kids auth (paths s') \<and>
      (case r of
         None \<Rightarrow> \<not> (\<exists>m. names kids (root_folder_for auth) (pre @ segs) m)
       | Some (meta', pid', _) \<Rightarrow> stands kids (root_folder_for auth) (pre @ segs) meta' pid')"
proof (induction segs arbitrary: pre meta pid fresh s)
  case (Cons seg rest)
  let ?root = "root_folder_for auth"
  let ?path = "pre @ [seg]" and ?last = "rest = []"
  let ?key = "path_key auth (join slash ?path)"
  have wf: "wf_path ?path" "wf_path (?path @ rest)" using Cons.prems(2) by simp_all
  have can: "append_segment (join slash pre) seg = join slash ?path"
    using append_segment_join Cons.prems(2) by (simp add: wf_path_def)
  let ?get = "try_get (no_query fe) (active_query fe) ?key (paths s)"
  let ?s = "s\<lparr>paths := snd ?get\<rparr>"
  have snd: "cache_sound kids auth (paths ?s)" using cache_sound_get [OF Cons.prems(1) assms(3)] by simp
  have walk: "\<exists>r s'. resolve_segments fe client auth ctx rest (join slash ?path) (meta_id m) (Some m) f t = Some (Inr r, s') \<and>
      cache_sound kids auth (paths s') \<and>
      (case r of
         None \<Rightarrow> \<not> (\<exists>m. names kids ?root (pre @ seg # rest) m)
       | Some (meta', pid', _) \<Rightarrow> stands kids ?root (pre @ seg # rest) meta' pid')"
    if "cache_sound kids auth (paths t)" "names kids ?root ?path m" for m f t
  proof -
    have "stands kids ?root ?path (Some m) (meta_id m)" using that(2) by (simp add: stands_def)
    from Cons.IH [OF that(1) wf(2) this, of f] show ?thesis by (simp only: append_assoc append_Cons append_Nil)
  qed
  show ?case
  proof (cases "fst ?get")
    case (Some hit)
    obtain m f where hit: "fst ?get = Some (m, f)" using Some by (cases hit) auto
    with try_get_hit obtain g where "view (paths s) ?key = Some (m, g)" by metis
    with cache_soundD [OF Cons.prems(1) _ wf(1)] have n: "names kids ?root ?path m" by simp
    show ?thesis unfolding walk_hit [OF hit [folded can]] unfolding can by (rule walk [OF snd n])
  next
    case None
    let ?found = "filter (\<lambda>m. meta_name m = seg \<and> (\<not> ?last \<longrightarrow> is_folder m)) (kids pid)"
    obtain w where l: "list_by_name client pid seg (\<not> ?last) ctx ?s = Some (Inr ?found, ?s\<lparr>world := w\<rparr>)"
      using assms(1) unfolding serves_def by blast
    have "distinct (map meta_name (kids pid))" using assms(2) by (simp add: unambiguous_def)
    from filter_by_name [OF this, of seg "\<lambda>m. \<not> ?last \<longrightarrow> is_folder m"] show ?thesis
    proof (elim disjE exE conjE)
      assume e: "?found = []"
      have "\<not> (\<exists>m. names kids ?root (pre @ seg # rest) m)"
        using stands_absent [OF Cons.prems(3) assms(2)] e by (fastforce simp: filter_empty_conv)
      moreover have "resolve_segments fe client auth ctx (seg # rest) (join slash pre) pid meta fresh s =
          Some (Inr None, ?s\<lparr>world := w\<rparr>)"
        using walk_stops [OF None [folded can] l [unfolded e, folded can], of meta fresh] can
        by (auto simp del: resolve_segments.simps)
      ultimately show ?thesis using snd by simp
    next
      fix m
      assume m: "?found = [m]" "m \<in> set (kids pid)" "meta_name m = seg"
      then have n: "names kids ?root ?path m" using stands_step [OF Cons.prems(3)] by blast
      show ?thesis unfolding walk_found [OF None [folded can] l [unfolded m(1), folded can]] unfolding can
        by (rule walk [OF _ n]) (use cache_sound_put [OF snd assms(3) _ wf(1) n] in simp)
    qed
  qed
qed simp

section \<open>What a walk leaves in the cache\<close>

lemma list_pages_paths:
  "list_pages client query ctx malformed matches token s = Some y \<Longrightarrow>
   paths (snd y) = paths s \<and> block_store (snd y) = block_store s"
proof (induction rule: list_pages.raw_induct [rotated, consumes 1, case_names step])
  case (step loop client query ctx malformed matches token s y)
  from step(2) show ?case
    by (auto split: option.splits sum.splits prod.splits if_splits dest!: step(1))
qed

lemma list_by_name_paths:
  "list_by_name client pid nm folder ctx s = Some (r, s') \<Longrightarrow> paths s' = paths s"
  using list_pages_paths unfolding list_by_name_def by fastforce

definition grows :: "path_cache \<Rightarrow> path_cache \<Rightarrow> bool" where
  "grows c c' \<longleftrightarrow> path_inv c' \<and> max_entries c' = 0 \<and>
     (\<forall>k x. wf_key k \<longrightarrow> view c k = Some x \<longrightarrow> view c' k = Some x)"

lemma grows_refl: "path_inv c \<Longrightarrow> max_entries c = 0 \<Longrightarrow> grows c c"
  by (simp add: grows_def)

lemma grows_trans: "grows a b \<Longrightarrow> grows b c \<Longrightarrow> grows a c"
  by (simp add: grows_def)

lemma growsD: "grows c c' \<Longrightarrow> wf_key k \<Longrightarrow> view c k = Some x \<Longrightarrow> view c' k = Some x"
  unfolding grows_def by blast

lemma grows_get:
  assumes "path_inv c" "max_entries c = 0" "wf_key k"
  shows "grows c (snd (try_get nq q k c))"
proof -
  have "path_inv (snd (try_get nq q k c))" using path_inv_apply [OF assms(1), of nq "Get q k"] by simp
  moreover have "max_entries (snd (try_get nq q k c)) = max_entries c"
    by (simp add: try_get_def Let_def split: option.split)
  ultimately show ?thesis using assms by (simp add: grows_def view_get)
qed

lemma put_unbounded:
  assumes "path_inv c" "max_entries c = 0" "wf_key k"
  shows "path_inv (put q k m c)" "max_entries (put q k m c) = 0"
    and "wf_key k' \<Longrightarrow> view (put q k m c) k' = ((view c)(k \<mapsto> (m, q))) k'"
  using path_inv_apply [OF assms(1), of 0 "Put q k m"] assms view_put(2) [OF assms(1,3)]
  by (simp_all add: put_def Let_def)

lemma grows_put:
  "path_inv c \<Longrightarrow> max_entries c = 0 \<Longrightarrow> wf_key k \<Longrightarrow> view c k = None \<Longrightarrow> grows c (put q k m c)"
  using put_unbounded(1,2) [of c k q m] put_unbounded(3) [of c k _ q m] by (auto simp: grows_def)

text \<open>Every prefix of a resolved path is in an unbounded cache afterwards.\<close>

definition prefixes_cached :: "auth_context \<Rightarrow> string list \<Rightarrow> string list \<Rightarrow> path_cache \<Rightarrow> bool" where
  "prefixes_cached auth pre segs c \<longleftrightarrow>
     (\<forall>i. 0 < i \<longrightarrow> i \<le> length segs \<longrightarrow> view c (path_key auth (join slash (pre @ take i segs))) \<noteq> None)"

lemma prefixes_cached_Cons:
  "prefixes_cached auth pre (seg # rest) c \<longleftrightarrow>
     view c (path_key auth (join slash (pre @ [seg]))) \<noteq> None \<and> prefixes_cached auth (pre @ [seg]) rest c"
proof
  assume *: "prefixes_cached auth pre (seg # rest) c"
  have "view c (path_key auth (join slash (pre @ take (Suc i) (seg # rest)))) \<noteq> None" if "i \<le> length rest" for i
    using * that unfolding prefixes_cached_def by (metis length_Cons not_less_eq_eq zero_less_Suc)
  from this [of 0] this show "view c (path_key auth (join slash (pre @ [seg]))) \<noteq> None \<and>
      prefixes_cached auth (pre @ [seg]) rest c"
    unfolding prefixes_cached_def by simp
next
  assume *: "view c (path_key auth (join slash (pre @ [seg]))) \<noteq> None \<and> prefixes_cached auth (pre @ [seg]) rest c"
  have "view c (path_key auth (join slash (pre @ take i (seg # rest)))) \<noteq> None"
    if "0 < i" "i \<le> length (seg # rest)" for i
  proof -
    from that(1) obtain j where j: "i = Suc j" using gr0_conv_Suc by blast
    show ?thesis
    proof (cases "j = 0")
      case True
      with * j show ?thesis by simp
    next
      case False
      with * j that(2) show ?thesis unfolding prefixes_cached_def by simp
    qed
  qed
  then show "prefixes_cached auth pre (seg # rest) c" unfolding prefixes_cached_def by blast
qed

lemma prefixes_cached_grows:
  "prefixes_cached auth pre segs c \<Longrightarrow> grows c c' \<Longrightarrow> wf_auth auth \<Longrightarrow> prefixes_cached auth pre segs c'"
  unfolding prefixes_cached_def grows_def by (metis not_None_eq wf_path_key)

lemma grows_found:
  assumes "path_inv (paths s)" "max_entries (paths s) = 0" "wf_key key"
    and "fst (try_get nq q key (paths s)) = None" "paths t = snd (try_get nq q key (paths s))"
  shows "grows (paths s) (put q key m (paths t))" "view (put q key m (paths t)) key = Some (m, q)"
proof -
  have g: "grows (paths s) (paths t)" using grows_get [OF assms(1-3)] assms(5) by simp
  then have inv: "path_inv (paths t)" "max_entries (paths t) = 0" by (simp_all add: grows_def)
  have "view (paths t) key = None"
    using view_get [OF assms(3,3), of nq q "paths s"] assms(4,5) by (simp add: try_get_miss)
  from grows_trans [OF g grows_put [OF inv assms(3) this]] show "grows (paths s) (put q key m (paths t))" .
  show "view (put q key m (paths t)) key = Some (m, q)" using put_unbounded(3) [OF inv assms(3,3)] by simp
qed

lemma resolve_segments_grows:
  assumes "wf_auth auth"
  shows "resolve_segments fe client auth ctx segs canonical pid meta fresh s = Some (r, s') \<Longrightarrow>
    path_inv (paths s) \<Longrightarrow> max_entries (paths s) = 0 \<Longrightarrow> grows (paths s) (paths s')"
proof (induction segs arbitrary: canonical pid meta fresh s)
  case Nil
  then show ?case by (simp add: grows_refl)
next
  case (Cons seg rest)
  let ?can = "append_segment canonical seg"
  let ?get = "try_get (no_query fe) (active_query fe) (path_key auth ?can) (paths s)"
  have wk: "wf_key (path_key auth ?can)" using assms by simp
  have g0: "grows (paths s) (snd ?get)" by (rule grows_get [OF Cons.prems(2,3) wk])
  have walk: "grows (paths s) (paths s')"
    if r: "resolve_segments fe client auth ctx rest ?can (meta_id m) (Some m) f0 t = Some (r, s')"
      and t: "grows (paths s) (paths t)" for m f0 t
    using Cons.IH [OF r] t grows_trans [OF t] by (simp add: grows_def)
  from Cons.prems(1) show ?case
  proof (cases rule: walk_cases)
    case (hit m f)
    then show ?thesis using walk g0 by simp
  next
    case (found m t)
    have "paths t = snd ?get" using list_by_name_paths [OF found(2)] by simp
    from grows_found(1) [OF Cons.prems(2,3) wk found(1) this] walk [OF found(3)] show ?thesis by simp
  next
    case (stops x)
    then show ?thesis using g0 list_by_name_paths [OF stops(2)] by simp
  qed
qed

lemma resolve_segments_caches:
  assumes "wf_auth auth"
  shows "resolve_segments fe client auth ctx segs (join slash pre) pid meta fresh s = Some (Inr (Some (meta', pid', f)), s') \<Longrightarrow>
    path_inv (paths s) \<Longrightarrow> max_entries (paths s) = 0 \<Longrightarrow> wf_path (pre @ segs) \<Longrightarrow>
    grows (paths s) (paths s') \<and> prefixes_cached auth pre segs (paths s') \<and>
    (segs \<noteq> [] \<longrightarrow> (\<exists>m g. meta' = Some m \<and> view (paths s') (path_key auth (join slash (pre @ segs))) = Some (m, g)))"
proof (induction segs arbitrary: pre pid meta fresh s)
  case Nil
  then show ?case by (auto simp: grows_refl prefixes_cached_def)
next
  case (Cons seg rest)
  let ?path = "pre @ [seg]"
  let ?key = "path_key auth (join slash ?path)"
  let ?get = "try_get (no_query fe) (active_query fe) ?key (paths s)"
  have can: "append_segment (join slash pre) seg = join slash ?path"
    using append_segment_join Cons.prems(4) by (simp add: wf_path_def)
  have wf: "wf_path (?path @ rest)" using Cons.prems(4) by simp
  have wk: "wf_key ?key" using assms by simp
  have g0: "grows (paths s) (snd ?get)" by (rule grows_get [OF Cons.prems(2,3) wk])
  have walk: "grows (paths s) (paths s') \<and> prefixes_cached auth pre (seg # rest) (paths s') \<and>
      (\<exists>m g. meta' = Some m \<and> view (paths s') (path_key auth (join slash (pre @ seg # rest))) = Some (m, g))"
    if r: "resolve_segments fe client auth ctx rest (join slash ?path) (meta_id m) (Some m) f0 t =
        Some (Inr (Some (meta', pid', f)), s')"
      and t: "grows (paths s) (paths t)" "view (paths t) ?key = Some (m, g)" for m f0 g t
  proof -
    have inv: "path_inv (paths t)" "max_entries (paths t) = 0" using t(1) by (simp_all add: grows_def)
    from Cons.IH [OF r inv wf]
    have IH: "grows (paths t) (paths s')" "prefixes_cached auth ?path rest (paths s')"
      "rest \<noteq> [] \<longrightarrow> (\<exists>m g. meta' = Some m \<and> view (paths s') (path_key auth (join slash (?path @ rest))) = Some (m, g))"
      by blast+
    have key: "view (paths s') ?key = Some (m, g)" using growsD [OF IH(1) wk t(2)] .
    have "\<exists>m g. meta' = Some m \<and> view (paths s') (path_key auth (join slash (pre @ seg # rest))) = Some (m, g)"
      using IH(3) key r by (cases "rest = []") auto
    with grows_trans [OF t(1) IH(1)] IH(2) key show ?thesis by (simp add: prefixes_cached_Cons)
  qed
  from Cons.prems(1) show ?case
  proof (cases rule: walk_cases)
    case (hit m f0)
    then obtain g where v: "view (paths s) ?key = Some (m, g)" using try_get_hit unfolding can by metis
    show ?thesis using walk [OF hit(2) [unfolded can]] growsD [OF g0 wk v] g0 by simp
  next
    case (found m t)
    note here = found [unfolded can]
    have "paths t = snd ?get" using list_by_name_paths [OF here(2)] by simp
    from grows_found [OF Cons.prems(2,3) wk here(1) this] walk [OF here(3)] show ?thesis by simp
  qed blast
qed

lemma resolve_segments_warm:
  assumes "wf_auth auth"
  shows "prefixes_cached auth pre segs (paths s) \<Longrightarrow> wf_path (pre @ segs) \<Longrightarrow>
    \<exists>meta' pid' f s'. resolve_segments fe client auth ctx segs (join slash pre) pid meta fresh s =
        Some (Inr (Some (meta', pid', f)), s') \<and> world s' = world s \<and>
      (segs \<noteq> [] \<longrightarrow> (\<exists>m g. meta' = Some m \<and> view (paths s) (path_key auth (join slash (pre @ segs))) = Some (m, g)))"
proof (induction segs arbitrary: pre pid meta fresh s)
  case (Cons seg rest)
  let ?path = "pre @ [seg]"
  let ?key = "path_key auth (join slash ?path)"
  have can: "append_segment (join slash pre) seg = join slash ?path"
    using append_segment_join Cons.prems(2) by (simp add: wf_path_def)
  have wk: "wf_key ?key" using assms by simp
  let ?get = "try_get (no_query fe) (active_query fe) ?key (paths s)"
  let ?s = "s\<lparr>paths := snd ?get\<rparr>"
  have same: "view (paths ?s) k = view (paths s) k" if "wf_key k" for k using view_get [OF wk that] by simp
  have "fst ?get \<noteq> None" using Cons.prems(1) by (simp add: prefixes_cached_Cons try_get_miss)
  then obtain m f0 where hit: "fst ?get = Some (m, f0)" by auto
  then obtain g where v: "view (paths s) ?key = Some (m, g)" using try_get_hit by metis
  have "prefixes_cached auth ?path rest (paths ?s)"
    using Cons.prems(1) same assms by (simp add: prefixes_cached_Cons) (simp add: prefixes_cached_def)
  from Cons.IH [OF this, of "meta_id m" "Some m" "if rest = [] then f0 else fresh"] Cons.prems(2)
  obtain meta' pid' f s' where r: "resolve_segments fe client auth ctx rest (join slash ?path) (meta_id m) (Some m)
      (if rest = [] then f0 else fresh) ?s = Some (Inr (Some (meta', pid', f)), s')" "world s' = world s"
    "rest \<noteq> [] \<longrightarrow> (\<exists>m g. meta' = Some m \<and> view (paths ?s) (path_key auth (join slash (?path @ rest))) = Some (m, g))"
    by auto
  have "resolve_segments fe client auth ctx (seg # rest) (join slash pre) pid meta fresh s =
      Some (Inr (Some (meta', pid', f)), s')"
    using r(1) hit can by (simp add: fs_bind_def fs_paths_apply Let_def del: resolve_segments.simps(1))
  moreover have "\<exists>m g. meta' = Some m \<and> view (paths s) (path_key auth (join slash (pre @ seg # rest))) = Some (m, g)"
    using r v same assms by (cases "rest = []") auto
  ultimately show ?case using r(2) by blast
qed simp

section \<open>Queries cannot be injected\<close>

lemma escape_Cons:
  "escape_drive_query_literal (c # s) =
     (if c = backslash \<or> c = squote then [backslash, c] else [c]) @ escape_drive_query_literal s"
  by (simp add: escape_drive_query_literal_def)

lemma escape_Nil [simp]: "escape_drive_query_literal [] = []"
  by (simp add: escape_drive_query_literal_def)

lemma escape_not_quote: "escape_drive_query_literal s \<noteq> squote # v"
  by (cases s) (auto simp: escape_Cons split: if_splits)

text \<open>Inside an escaped literal every quote stands behind a backslash.\<close>

lemma escape_quote_escaped: "escape_drive_query_literal s = u @ x # squote # v \<Longrightarrow> x = backslash"
proof (induction s arbitrary: u)
  case (Cons c s)
  show ?case
  proof (cases "c = backslash \<or> c = squote")
    case True
    with Cons.prems have "backslash # c # escape_drive_query_literal s = u @ x # squote # v" by (simp add: escape_Cons)
    then consider "x = backslash" | "escape_drive_query_literal s = squote # v"
      | u' where "escape_drive_query_literal s = u' @ x # squote # v"
      by (cases u; cases "tl u") auto
    then show ?thesis using Cons.IH escape_not_quote by cases auto
  next
    case False
    with Cons.prems have "c # escape_drive_query_literal s = u @ x # squote # v" by (simp add: escape_Cons)
    then show ?thesis using Cons.IH escape_not_quote [of s v] by (cases u) auto
  qed
qed simp

lemma escape_inject: "escape_drive_query_literal s = escape_drive_query_literal t \<longleftrightarrow> s = t"
proof (induction s arbitrary: t)
  case Nil
  show ?case by (cases t) (auto simp: escape_Cons)
next
  case (Cons c s)
  show ?case by (cases t) (auto simp: escape_Cons Cons.IH split: if_splits)
qed

lemma quoted_tail_unique:
  assumes "b @ CHR ''='' # squote # escape_drive_query_literal t = a @ CHR ''='' # squote # escape_drive_query_literal s"
    and "length (escape_drive_query_literal s) \<le> length (escape_drive_query_literal t)"
  shows "s = t \<and> a = b"
proof -
  let ?s = "escape_drive_query_literal s" and ?t = "escape_drive_query_literal t"
  have "(b @ [CHR ''='', squote]) @ ?t = (a @ [CHR ''='', squote]) @ ?s" using assms(1) by simp
  then obtain z where "b @ [CHR ''='', squote] = (a @ [CHR ''='', squote]) @ z \<and> z @ ?t = ?s \<or>
      (b @ [CHR ''='', squote]) @ z = a @ [CHR ''='', squote] \<and> ?t = z @ ?s"
    unfolding append_eq_append_conv2 by blast
  moreover have "z = []" if "z @ ?t = ?s"
    using assms(2) arg_cong [OF that, of length] by (cases z) simp_all
  ultimately have z: "?t = z @ ?s" "b @ [CHR ''='', squote] @ z = a @ [CHR ''='', squote]" by auto
  show ?thesis
  proof (cases z rule: rev_cases)
    case Nil
    with z show ?thesis by (auto simp: escape_inject)
  next
    case (snoc y q)
    with z(2) have "b @ [CHR ''='', squote] @ y = a @ [CHR ''='']" "q = squote" by auto
    then show ?thesis
    proof (cases y rule: rev_cases)
      case Nil
      with \<open>b @ [CHR ''='', squote] @ y = a @ [CHR ''='']\<close> show ?thesis by simp
    next
      case (snoc y' e)
      with \<open>b @ [CHR ''='', squote] @ y = a @ [CHR ''='']\<close> have "e = CHR ''=''" by simp
      with z(1) \<open>z = y @ [q]\<close> \<open>q = squote\<close> snoc have "?t = y' @ CHR ''='' # squote # ?s" by simp
      from escape_quote_escaped [OF this] show ?thesis by simp
    qed
  qed
qed

lemma name_query_unique:
  assumes "name_query p nm f = name_query p' nm' f'"
  shows "p = p' \<and> nm = nm' \<and> f = f'"
proof -
  have last: "last (name_query p nm f) = (if f then squote else CHR ''e'')" for p nm f
    by (simp add: name_query_def folder_mime_type_def)
  have "f = f'" using assms last [of p nm f] last [of p' nm' f'] by (auto split: if_splits)
  with assms have e: "in_parents p @ ''name'' @ CHR ''='' # squote # escape_drive_query_literal nm =
      in_parents p' @ ''name'' @ CHR ''='' # squote # escape_drive_query_literal nm'"
    by (cases f) (simp_all add: name_query_def)
  have "nm = nm' \<and> in_parents p @ ''name'' = in_parents p' @ ''name''"
  proof (cases "length (escape_drive_query_literal nm) \<le> length (escape_drive_query_literal nm')")
    case True
    from quoted_tail_unique [OF _ True, of "in_parents p' @ ''name''" "in_parents p @ ''name''"] e show ?thesis by simp
  next
    case False
    with quoted_tail_unique [of "in_parents p @ ''name''" nm "in_parents p' @ ''name''" nm'] e show ?thesis by simp
  qed
  with \<open>f = f'\<close> show ?thesis by (simp add: in_parents_def)
qed

text \<open>
  C29. No file name can inject into a query: whatever characters a name holds, two listings ask Drive the
  same question only when folder, name and kind are the same.
\<close>

theorem query_injection_free:
  "name_query p nm f = name_query p' nm' f' \<longleftrightarrow> p = p' \<and> nm = nm' \<and> f = f'"
  using name_query_unique by blast

lemma name_query_iff: "name_query p nm f = name_query p' nm' f' \<longleftrightarrow> p = p' \<and> nm = nm' \<and> f = f'"
  using name_query_unique by blast

section \<open>Small Drives\<close>

text \<open>
  A server that answers each listing from a table by the path of the request, and a JSON library that
  knows the texts of the table.
\<close>

definition list_path :: "string \<Rightarrow> string" where
  "list_path query = c_path (list_call lost_env query [])"

definition table_lookup :: "(string \<times> drive_file_meta list) list \<Rightarrow> string \<Rightarrow> drive_file_meta list" where
  "table_lookup tbl b = (case map_of tbl b of None \<Rightarrow> [] | Some fs \<Rightarrow> fs)"

definition table_text :: "(string \<times> drive_file_meta list) list \<Rightarrow> json \<Rightarrow> string" where
  "table_text tbl j = (case find (\<lambda>(p, fs). listing_to_json fs = j) tbl of None \<Rightarrow> [] | Some (p, _) \<Rightarrow> p)"

definition table_env :: "(string \<times> drive_file_meta list) list \<Rightarrow> unit drive_env" where
  "table_env tbl = lost_env
     \<lparr>exchange := (\<lambda>rq n. (\<lparr>transport_ok = True, status = 200, body = rq_path rq, retry_after = [],
        location = [], held_range = []\<rparr>, n)),
      parse_json := (\<lambda>b. Some (listing_to_json (table_lookup tbl b))),
      serialize_json := table_text tbl\<rparr>"

definition wf_table :: "(string \<times> drive_file_meta list) list \<Rightarrow> bool" where
  "wf_table tbl \<longleftrightarrow> distinct (map fst tbl) \<and> (\<forall>(p, fs)\<in>set tbl. p \<noteq> [] \<and> list_all wf_meta fs)"

lemma list_path_inject: "list_path q = list_path q' \<longleftrightarrow> q = q'"
  by (simp add: list_path_def list_call_def lost_env_def url_encode_inject)

lemma list_path_not_Nil [simp]: "list_path q \<noteq> []"
  by (simp add: list_path_def list_call_def api_def)

lemma table_lookup_wf: "wf_table tbl \<Longrightarrow> list_all wf_meta (table_lookup tbl b)"
  by (auto simp: wf_table_def table_lookup_def dest!: map_of_SomeD split: option.splits)

lemma table_text_lookup:
  assumes "wf_table tbl"
  shows "listing_to_json (table_lookup tbl (table_text tbl (listing_to_json (table_lookup tbl b)))) =
    listing_to_json (table_lookup tbl b)"
proof (cases "find (\<lambda>(p, fs). listing_to_json fs = listing_to_json (table_lookup tbl b)) tbl")
  case None
  have "map_of tbl b = None"
  proof (rule ccontr)
    assume "map_of tbl b \<noteq> None"
    then obtain fs where "map_of tbl b = Some fs" by blast
    then have "(b, fs) \<in> set tbl" "table_lookup tbl b = fs"
      by (auto simp: table_lookup_def dest: map_of_SomeD)
    with None show False by (auto simp: find_None_iff)
  qed
  moreover have "map_of tbl [] = None" using assms by (auto simp: wf_table_def map_of_eq_None_iff)
  ultimately show ?thesis using None by (simp add: table_text_def table_lookup_def)
next
  case (Some x)
  obtain p fs where x: "x = (p, fs)" by fastforce
  with Some have "(p, fs) \<in> set tbl" "listing_to_json fs = listing_to_json (table_lookup tbl b)"
    by (auto simp: find_Some_iff in_set_conv_nth)
  with assms Some x show ?thesis by (simp add: table_text_def table_lookup_def wf_table_def)
qed

lemma table_pages:
  assumes "wf_table tbl"
  shows "\<exists>w. list_pages (table_env tbl) query ctx malformed [] [] s =
    Some (Inr (table_lookup tbl (list_path query)), s\<lparr>world := w\<rparr>)"
proof -
  let ?env = "table_env tbl" and ?q = query
  let ?fs = "table_lookup tbl (list_path ?q)"
  have path: "c_path (list_call ?env ?q []) = list_path ?q"
    by (simp add: list_path_def list_call_def table_env_def lost_env_def)
  obtain w where e: "execute_with_retry ?env (list_call ?env ?q []) (world s) =
      (Inr (no_response\<lparr>resp_ok := True, resp_status := 200, resp_body := list_path ?q\<rparr>), w)"
    unfolding path [symmetric]
    by (simp add: execute_with_retry_def execute_loop.simps do_http_def table_env_def lost_env_def list_call_def
        no_response_def Let_def)
  have parse: "parse_file_list (parse_json ?env) b = Some (?fs, [])"
    if "listing_to_json (table_lookup tbl b) = listing_to_json ?fs" for b
    using parse_file_list_listing [OF table_lookup_wf [OF assms], of "parse_json ?env" b] that
    by (simp add: table_env_def)
  have "list_loop ?env ?q [] [] (world s) = Some (Inr (whole_listing ?env ?fs), w)"
    using e parse [of "list_path ?q"] by (subst list_loop.simps) (simp add: no_response_def)
  moreover have "parse_file_list (parse_json ?env) (resp_body (whole_listing ?env ?fs)) = Some (?fs, [])"
    using parse [OF table_text_lookup [OF assms]] by (simp add: whole_listing_def table_env_def)
  ultimately have "list_pages ?env ?q ctx malformed [] [] s = Some (Inr ?fs, s\<lparr>world := w\<rparr>)"
    by (subst list_pages.simps) (simp add: whole_listing_def)
  then show ?thesis by blast
qed

lemma table_lists:
  assumes "wf_table tbl"
  shows "\<exists>w. list_by_name (table_env tbl) parent nm folder ctx s =
    Some (Inr (table_lookup tbl (list_path (name_query parent nm folder))), s\<lparr>world := w\<rparr>)"
  unfolding list_by_name_def by (rule table_pages [OF assms])

lemma table_serves:
  assumes "wf_table tbl"
    and "\<And>p nm f. table_lookup tbl (list_path (name_query p nm f)) =
      filter (\<lambda>m. meta_name m = nm \<and> (f \<longrightarrow> is_folder m)) (kids p)"
  shows "serves (table_env tbl) kids"
  unfolding serves_def using table_lists [OF assms(1)] assms(2) by metis

definition one_file_env :: "unit drive_env" where
  "one_file_env = table_env [(list_path (name_query ''root'' ''a.csv'' False), [sample_meta])]"

definition one_file_tree :: drive_tree where
  "one_file_tree p = (if p = ''root'' then [sample_meta] else [])"

definition dup_folder :: drive_file_meta where
  "dup_folder = sample_meta\<lparr>meta_id := ''d1'', mime_type := folder_mime_type\<rparr>"

definition dup_env :: "unit drive_env" where
  "dup_env = table_env [(list_path (name_query ''root'' ''a.csv'' False), [dup_folder, sample_meta]),
     (list_path (name_query ''root'' ''a.csv'' True), [dup_folder])]"

definition dup_tree :: drive_tree where
  "dup_tree p = (if p = ''root'' then [dup_folder, sample_meta] else [])"

lemma sample_meta_name: "meta_name sample_meta = ''a.csv''"
  by (simp add: sample_meta_def)

lemma sample_kinds [simp]: "\<not> is_folder sample_meta" "is_folder dup_folder" "meta_name dup_folder = ''a.csv''"
  "wf_meta sample_meta" "wf_meta dup_folder"
  by (simp_all add: is_folder_def sample_meta_def folder_mime_type_def dup_folder_def wf_meta_def)

lemma one_file_serves: "serves one_file_env one_file_tree"
  unfolding one_file_env_def
proof (rule table_serves)
  fix p nm f
  show "table_lookup [(list_path (name_query ''root'' ''a.csv'' False), [sample_meta])] (list_path (name_query p nm f)) =
      filter (\<lambda>m. meta_name m = nm \<and> (f \<longrightarrow> is_folder m)) (one_file_tree p)"
    by (auto simp: table_lookup_def list_path_inject name_query_iff one_file_tree_def sample_meta_name)
qed (simp add: wf_table_def)

lemma dup_serves: "serves dup_env dup_tree"
  unfolding dup_env_def
proof (rule table_serves)
  show "wf_table [(list_path (name_query ''root'' ''a.csv'' False), [dup_folder, sample_meta]),
      (list_path (name_query ''root'' ''a.csv'' True), [dup_folder])]"
    by (simp add: wf_table_def list_path_inject name_query_iff)
  fix p nm f
  show "table_lookup [(list_path (name_query ''root'' ''a.csv'' False), [dup_folder, sample_meta]),
      (list_path (name_query ''root'' ''a.csv'' True), [dup_folder])] (list_path (name_query p nm f)) =
      filter (\<lambda>m. meta_name m = nm \<and> (f \<longrightarrow> is_folder m)) (dup_tree p)"
    by (cases f; cases "p = ''root'' \<and> nm = ''a.csv''")
       (auto simp: table_lookup_def list_path_inject name_query_iff dup_tree_def sample_meta_name)
qed

definition plain_fs_env :: "'w drive_env \<Rightarrow> 'w fs_env" where
  "plain_fs_env env = \<lparr>has_opener = True, has_secret = True,
     auth_for = (\<lambda>_ n. (Inr \<lparr>auth_tokens = 0, auth_drive_id = [], auth_root_folder_id = [], auth_identity = [unit_sep, unit_sep],
        auth_quota_project = []\<rparr>, n)),
     source_token = (\<lambda>_. token_of env), source_refresh = (\<lambda>_. refresh_of env), http_base = env,
     bool_settings = (\<lambda>_. None), ubigint_settings = (\<lambda>_. None), string_settings = (\<lambda>_. None),
     active_query = 7, no_query = 2 ^ 64 - 1\<rparr>"

definition my_auth :: auth_context where
  "my_auth = \<lparr>auth_tokens = 0, auth_drive_id = [], auth_root_folder_id = [], auth_identity = [unit_sep, unit_sep],
     auth_quota_project = []\<rparr>"

definition start_state :: "unit fs_state" where
  "start_state = \<lparr>world = start_world, paths = empty_path_cache, block_store = empty_block_cache\<rparr>"

section \<open>Properties\<close>

lemma wf_uri_path: "wf_uri uri \<Longrightarrow> kind uri = PATH \<Longrightarrow> wf_path ([] @ segments uri)"
  by (auto simp: wf_path_def wf_uri_def wf_segment_def)

lemma try_resolve_correct:
  assumes "serves client kids" and "unambiguous kids" and "wf_auth auth"
    and "cache_sound kids auth (paths s)"
    and "wf_uri uri" and "kind uri = PATH" and "segments uri \<noteq> []"
  shows "\<exists>r s'. try_resolve_path fe client auth uri s = Some (Inr r, s') \<and>
    cache_sound kids auth (paths s') \<and>
    (\<forall>m. (\<exists>f. r = Some (m, f)) \<longleftrightarrow> names kids (root_folder_for auth) (segments uri) m)"
proof -
  let ?root = "root_folder_for auth"
  have wf: "wf_path ([] @ segments uri)" using wf_uri_path assms(5,6) .
  have "stands kids ?root [] None ?root" by (simp add: stands_def)
  from resolve_segments_correct [OF assms(1-4) wf this, of fe "to_string uri" False]
  obtain r s' where "resolve_segments fe client auth (to_string uri) (segments uri) (join slash []) ?root None False s =
      Some (Inr r, s')"
    "cache_sound kids auth (paths s')"
    "case r of None \<Rightarrow> \<not> (\<exists>m. names kids ?root ([] @ segments uri) m)
     | Some (meta', pid', _) \<Rightarrow> stands kids ?root ([] @ segments uri) meta' pid'" by blast
  note r = this [unfolded append_Nil join.simps]
  show ?thesis
  proof (cases r)
    case None
    with r assms(6) show ?thesis by (auto simp: try_resolve_path_def fs_bind_def Let_def)
  next
    case (Some x)
    obtain meta pid f where x: "x = (meta, pid, f)" by (cases x) auto
    with r(3) Some assms(7) obtain m where m: "meta = Some m" "names kids ?root (segments uri) m"
      by (auto simp: stands_def split: option.splits)
    have "try_resolve_path fe client auth uri s = Some (Inr (Some (m, f)), s')"
      using r(1) Some x m(1) assms(6) by (simp add: try_resolve_path_def fs_bind_def Let_def)
    moreover have "(\<exists>f'. Some (m, f) = Some (m', f')) \<longleftrightarrow> names kids ?root (segments uri) m'" for m'
      using names_unique [OF assms(2) m(2), of m'] m(2) by simp metis
    ultimately show ?thesis using r(2) by blast
  qed
qed

text \<open>
  C5. On a Drive that keeps still and in which a path means one object, a path resolves to the object its
  segments lead to, and to nothing exactly when there is none; no such walk raises an exception, and
  whatever it took from the cache or put into it, every entry of the cache stays right. The listings
  are required to answer as Drive documents \<open>files.list\<close>.
\<close>

theorem resolver_correct:
  assumes "serves client kids" and "unambiguous kids" and "wf_auth auth"
    and "cache_sound kids auth (paths s)"
    and "wf_uri uri" and "kind uri = PATH" and "segments uri \<noteq> []"
  shows "\<exists>r s'. try_resolve_path fe client auth uri s = Some (Inr r, s') \<and>
    cache_sound kids auth (paths s') \<and>
    (\<forall>m. (\<exists>f. r = Some (m, f)) \<longleftrightarrow> names kids (root_folder_for auth) (segments uri) m)"
  using assms by (rule try_resolve_correct)

lemma empty_cache_sound: "cache_sound kids auth empty_path_cache"
  by (rule cache_soundI) (simp_all add: path_inv_def empty_path_cache_def view_def)

theorem resolver_correct_witness:
  "\<exists>f s'. try_resolve_path (plain_fs_env one_file_env) one_file_env my_auth
      \<lparr>kind = PATH, file_id = [], segments = [''a.csv'']\<rparr> start_state = Some (Inr (Some (sample_meta, f)), s')"
proof -
  let ?uri = "\<lparr>kind = PATH, file_id = [], segments = [''a.csv'']\<rparr>"
  have "unambiguous one_file_tree" by (simp add: unambiguous_def one_file_tree_def sample_meta_def)
  moreover have "wf_auth my_auth" by (simp add: wf_auth_def my_auth_def wf_identity_def)
  moreover have "wf_uri ?uri" by (simp add: wf_uri_def wf_segment_def)
  moreover have "cache_sound one_file_tree my_auth (paths start_state)"
    by (simp add: start_state_def empty_cache_sound)
  ultimately obtain r s' where "try_resolve_path (plain_fs_env one_file_env) one_file_env my_auth ?uri start_state = Some (Inr r, s')"
    "(\<exists>f. r = Some (sample_meta, f)) \<longleftrightarrow> names one_file_tree (root_folder_for my_auth) [''a.csv''] sample_meta"
    using resolver_correct [OF one_file_serves, of my_auth start_state ?uri "plain_fs_env one_file_env"]
    by simp blast
  moreover have "names one_file_tree (root_folder_for my_auth) [''a.csv''] sample_meta"
    using names.first [of sample_meta one_file_tree "''root''"]
    by (simp add: root_folder_for_def my_auth_def one_file_tree_def sample_meta_def)
  ultimately show ?thesis by blast
qed

text \<open>
  A path is paid for once: after a walk that found it, an unbounded cache answers the same path
  without a single request, with the same metadata, whichever client asks.
\<close>

theorem second_resolve_is_free:
  assumes "try_resolve_path fe client auth uri s = Some (Inr (Some (m, f)), s1)"
    and "wf_uri uri" and "kind uri = PATH" and "segments uri \<noteq> []" and "wf_auth auth"
    and "path_inv (paths s)" and "max_entries (paths s) = 0"
  shows "\<exists>f' s2. try_resolve_path fe' client' auth uri s1 = Some (Inr (Some (m, f')), s2) \<and> world s2 = world s1"
proof -
  let ?segs = "segments uri" and ?root = "root_folder_for auth" and ?ctx = "to_string uri"
  have wf: "wf_path ([] @ ?segs)" using wf_uri_path assms(2,3) .
  from assms(1,3) obtain r0 t where
    r0: "resolve_segments fe client auth ?ctx ?segs (join slash []) ?root None False s = Some (Inr r0, t)"
    and k: "(case r0 of
          None \<Rightarrow> fs_ret None
        | Some (Some m, _, fresh) \<Rightarrow> fs_ret (Some (m, fresh))
        | Some (None, pid, fresh) \<Rightarrow>
            fs_bind (fetch_metadata client pid ?ctx) (\<lambda>r. fs_ret (map_option (\<lambda>m. (m, fresh)) r))) t =
      Some (Inr (Some (m, f)), s1)"
    by (auto simp: try_resolve_path_def fs_bind_Some Let_def)
  from k obtain meta pid f0 where x: "r0 = Some (meta, pid, f0)" by (cases r0) auto
  from resolve_segments_caches [OF assms(5) r0 [unfolded x] assms(6,7) wf] assms(4)
  obtain m0 g where c0: "prefixes_cached auth [] ?segs (paths t)" "meta = Some m0"
    "view (paths t) (path_key auth (join slash ?segs)) = Some (m0, g)" by auto
  from k x c0(2) have "m0 = m" "t = s1" by simp_all
  with c0 have c: "prefixes_cached auth [] ?segs (paths s1)"
    "view (paths s1) (path_key auth (join slash ?segs)) = Some (m, g)" by simp_all
  from resolve_segments_warm [OF assms(5) c(1) wf, of fe' client' ?ctx ?root None False] assms(4) c(2)
  obtain pid' f' s2 where
    "resolve_segments fe' client' auth ?ctx ?segs [] ?root None False s1 = Some (Inr (Some (Some m, pid', f')), s2)"
    "world s2 = world s1" by auto
  then show ?thesis using assms(3) by (auto simp: try_resolve_path_def fs_bind_def Let_def)
qed

theorem second_resolve_is_free_witness:
  "\<exists>s1 f' s2. try_resolve_path (plain_fs_env lost_env) lost_env my_auth
      \<lparr>kind = PATH, file_id = [], segments = [''a.csv'']\<rparr> s1 = Some (Inr (Some (sample_meta, f')), s2) \<and>
    world s2 = world s1"
proof -
  let ?uri = "\<lparr>kind = PATH, file_id = [], segments = [''a.csv'']\<rparr>"
  let ?s = "start_state\<lparr>paths := empty_path_cache\<lparr>miss_count := 1\<rparr>\<rparr>"
  have miss: "try_get nq q k (paths start_state) = (None, empty_path_cache\<lparr>miss_count := 1\<rparr>)" for nq q k
    by (simp add: try_get_def start_state_def empty_path_cache_def)
  have root: "root_folder_for my_auth = ''root''" by (simp add: root_folder_for_def my_auth_def)
  obtain w where "list_by_name one_file_env ''root'' ''a.csv'' False (to_string ?uri) ?s =
      Some (Inr [sample_meta], ?s\<lparr>world := w\<rparr>)"
    using one_file_serves [unfolded serves_def, rule_format, of "''root''" "''a.csv''" False "to_string ?uri" ?s]
    by (auto simp: one_file_tree_def sample_meta_name)
  then obtain s1 where "try_resolve_path (plain_fs_env one_file_env) one_file_env my_auth ?uri start_state =
      Some (Inr (Some (sample_meta, True)), s1)"
    by (simp add: try_resolve_path_def fs_bind_def fs_paths_apply miss root Let_def)
  from second_resolve_is_free [OF this, of "plain_fs_env lost_env" lost_env]
  show ?thesis
    by (auto simp: wf_uri_def wf_segment_def wf_auth_def my_auth_def wf_identity_def path_inv_def start_state_def empty_path_cache_def)
qed

lemma fetch_metadata_paths: "fetch_metadata client fid ctx s = Some (r, s') \<Longrightarrow> paths s' = paths s"
  by (auto simp: fetch_metadata_def fs_bind_Some fs_io_def split: prod.splits if_splits option.splits)

lemma try_resolve_path_walk:
  assumes "try_resolve_path fe client auth uri s = Some (r, s')" "kind uri = PATH"
  shows "\<exists>r1 t. resolve_segments fe client auth (to_string uri) (segments uri) [] (root_folder_for auth) None False s =
      Some (r1, t) \<and> paths s' = paths t"
proof -
  let ?walk = "resolve_segments fe client auth (to_string uri) (segments uri) [] (root_folder_for auth) None False s"
  let ?k = "\<lambda>r. case r of
      None \<Rightarrow> fs_ret None
    | Some (Some m, _, fresh) \<Rightarrow> fs_ret (Some (m, fresh))
    | Some (None, pid, fresh) \<Rightarrow>
        fs_bind (fetch_metadata client pid (to_string uri)) (\<lambda>r. fs_ret (map_option (\<lambda>m. (m, fresh)) r))"
  from assms consider e where "?walk = Some (Inl e, s')"
    | x t where "?walk = Some (Inr x, t)" "?k x t = Some (r, s')"
    unfolding try_resolve_path_def Let_def by (auto simp: fs_bind_Some)
  then show ?thesis
  proof cases
    case 2
    have "paths s' = paths t"
    proof (cases x)
      case (Some y)
      obtain meta pid fresh where y: "y = (meta, pid, fresh)" by (cases y) auto
      show ?thesis
      proof (cases meta)
        case None
        with 2(2) Some y obtain x' where "fetch_metadata client pid (to_string uri) t = Some (x', s')"
          by (auto simp: fs_bind_Some)
        then show ?thesis by (rule fetch_metadata_paths)
      qed (use 2(2) Some y in simp)
    qed (use 2(2) in simp)
    with 2(1) show ?thesis by blast
  qed blast
qed

text \<open>A walk over listings that return returns.\<close>

lemma resolve_segments_returns:
  assumes "serves client kids"
  shows "\<exists>r s'. resolve_segments fe client auth ctx segs canonical pid meta fresh s = Some (r, s') \<and>
    (segs \<noteq> [] \<or> meta \<noteq> None \<longrightarrow> (\<forall>p f. r \<noteq> Inr (Some (None, p, f))))"
proof (induction segs arbitrary: canonical pid meta fresh s)
  case (Cons seg rest)
  let ?can = "append_segment canonical seg"
  let ?get = "try_get (no_query fe) (active_query fe) (path_key auth ?can) (paths s)"
  let ?s = "s\<lparr>paths := snd ?get\<rparr>"
  have walk: "\<exists>r s'. resolve_segments fe client auth ctx rest ?can (meta_id m) (Some m) f0 t = Some (r, s') \<and>
      (\<forall>p f. r \<noteq> Inr (Some (None, p, f)))" for m f0 t
    using Cons.IH [of ?can "meta_id m" "Some m" f0 t] by simp
  show ?case
  proof (cases "fst ?get")
    case (Some hit)
    then show ?thesis using walk walk_hit [of fe auth canonical seg s "fst hit" "snd hit"] by simp
  next
    case None
    obtain ms w where l: "list_by_name client pid seg (rest \<noteq> []) ctx ?s = Some (Inr ms, ?s\<lparr>world := w\<rparr>)"
      using assms unfolding serves_def by blast
    show ?thesis
    proof (cases "\<exists>m. ms = [m]")
      case True
      with walk walk_found [OF None] l show ?thesis by auto
    next
      case False
      then have "\<And>m. Inr ms \<noteq> Inr [m]" by blast
      from walk_stops [OF None l this] show ?thesis by blast
    qed
  qed
qed simp

lemma try_resolve_path_returns:
  assumes "serves client kids" "kind uri = PATH" "segments uri \<noteq> []"
  shows "\<exists>r s'. try_resolve_path fe client auth uri s = Some (r, s')"
proof -
  obtain r s' where r: "resolve_segments fe client auth (to_string uri) (segments uri) [] (root_folder_for auth) None False s = Some (r, s')"
    "\<forall>p f. r \<noteq> Inr (Some (None, p, f))"
    using resolve_segments_returns [OF assms(1), where segs = "segments uri"] assms(3) by blast
  show ?thesis
  proof (cases r)
    case (Inr x)
    with r(2) assms(2) r(1) show ?thesis
      by (auto simp: try_resolve_path_def fs_bind_def Let_def split: option.splits prod.splits)
  qed (use r assms(2) in \<open>auto simp: try_resolve_path_def fs_bind_def Let_def\<close>)
qed

lemma metadata_kept:
  assumes "get_or_fetch_metadata key fid fetch s = Some (Inr (Some m), s1)"
    and "metadata_generation (paths s) \<noteq> 0"
    and "\<And>t r t'. fetch t = Some (r, t') \<Longrightarrow> paths t' = paths t"
  shows "metadata_generation (paths s1) = metadata_generation (paths s) \<and>
    (\<exists>p. map_of (metadata_entries (paths s1)) (metadata_key key fid) = Some p \<and> promised (paths s1) p = Found m)"
proof (cases "map_of (metadata_entries (paths s)) (metadata_key key fid)")
  case (Some p)
  with assms(1,2) show ?thesis
    by (auto simp: get_or_fetch_metadata_def metadata_lookup_def split: meta_answer.splits)
next
  case None
  let ?p = "Suc (next_promise (paths s))"
  let ?c = "(paths s)\<lparr>next_promise := ?p,
      metadata_entries := AList.update (metadata_key key fid) ?p (metadata_entries (paths s)),
      miss_count := Suc (miss_count (paths s))\<rparr>"
  have "metadata_lookup key fid (paths s) = (Fetch ?p, ?c)"
    using None assms(2) by (simp add: metadata_lookup_def Let_def)
  with assms(1) obtain t where t: "fetch (s\<lparr>paths := ?c\<rparr>) = Some (Inr (Some m), t)"
    "s1 = t\<lparr>paths := metadata_resolve ?p (Found m) (paths t)\<rparr>"
    by (auto simp: get_or_fetch_metadata_def split: option.splits sum.splits)
  from assms(3) [OF t(1)] t(2) have "paths s1 = metadata_resolve ?p (Found m) ?c" by simp
  then show ?thesis by (simp add: metadata_resolve_def update_conv')
qed

text \<open>
  The metadata of a file addressed by its id is fetched once per query and never outlives it: opening
  the same id again in the same query sends nothing and gives the same metadata, whichever client asks;
  under any other query number it is fetched anew. The only number that is never scoped is 0: the number
  DuckDB reports between statements is one like any other, so what was fetched in one such statement is
  served in the next.
\<close>

theorem metadata_lives_one_query:
  assumes "try_resolve_path fe client auth uri s = Some (Inr (Some (m, f)), s1)"
    and "kind uri = FILE_ID" and "metadata_generation (paths s) \<noteq> 0"
  shows "(\<exists>s2. try_resolve_path fe' client' auth uri
        (s1\<lparr>paths := begin_query (metadata_generation (paths s)) (paths s1)\<rparr>) = Some (Inr (Some (m, False)), s2) \<and>
      world s2 = world s1) \<and>
    (\<forall>g p. g \<noteq> metadata_generation (paths s) \<longrightarrow>
      fst (metadata_lookup (path_key auth []) (file_id uri) (begin_query g (paths s1))) \<noteq> Await p)"
proof -
  let ?key = "path_key auth []"
  from assms(1,2) have g: "get_or_fetch_metadata ?key (file_id uri) (fetch_metadata client (file_id uri) (to_string uri)) s =
      Some (Inr (Some m), s1)"
    by (auto simp: try_resolve_path_def fs_bind_Some Let_def)
  have "metadata_generation (paths s1) = metadata_generation (paths s) \<and>
      (\<exists>p. map_of (metadata_entries (paths s1)) (metadata_key ?key (file_id uri)) = Some p \<and> promised (paths s1) p = Found m)"
    by (rule metadata_kept [OF g assms(3)]) (rule fetch_metadata_paths)
  then obtain p where
    p: "metadata_generation (paths s1) = metadata_generation (paths s)"
    "map_of (metadata_entries (paths s1)) (metadata_key ?key (file_id uri)) = Some p"
    "promised (paths s1) p = Found m" by blast
  have "begin_query (metadata_generation (paths s)) (paths s1) = paths s1" using p(1) by (simp add: begin_query_def)
  then have "\<exists>s2. try_resolve_path fe' client' auth uri
        (s1\<lparr>paths := begin_query (metadata_generation (paths s)) (paths s1)\<rparr>) = Some (Inr (Some (m, False)), s2) \<and>
      world s2 = world s1"
    using p assms(2,3)
    by (simp add: try_resolve_path_def fs_bind_def get_or_fetch_metadata_def metadata_lookup_def Let_def)
  moreover have "fst (metadata_lookup ?key (file_id uri) (begin_query g (paths s1))) \<noteq> Await q"
    if "g \<noteq> metadata_generation (paths s)" for g q
    using that p(1) by (simp add: begin_query_def metadata_lookup_def Let_def)
  ultimately show ?thesis by blast
qed

definition id_uri :: gdrive_uri where "id_uri = \<lparr>kind = FILE_ID, file_id = ''x1'', segments = []\<rparr>"

text \<open>A state in which the metadata of \<open>x1\<close> was fetched between two statements.\<close>

definition between_statements :: "unit fs_state" where
  "between_statements = start_state\<lparr>paths := metadata_resolve 1 (Found sample_meta)
     (snd (metadata_lookup (path_key my_auth []) ''x1'' (begin_query (2 ^ 64 - 1) empty_path_cache)))\<rparr>"

theorem metadata_lives_one_query_witness:
  "\<exists>s1 s2. try_resolve_path (plain_fs_env lost_env) lost_env my_auth id_uri s1 = Some (Inr (Some (sample_meta, False)), s2) \<and>
    world s2 = world s1"
proof -
  obtain s1 where r: "try_resolve_path (plain_fs_env lost_env) lost_env my_auth id_uri between_statements =
      Some (Inr (Some (sample_meta, False)), s1)"
    by (simp add: try_resolve_path_def fs_bind_def get_or_fetch_metadata_def metadata_lookup_def begin_query_def
        metadata_resolve_def between_statements_def start_state_def empty_path_cache_def id_uri_def Let_def)
  have g: "metadata_generation (paths between_statements) \<noteq> 0"
    by (simp add: metadata_lookup_def begin_query_def metadata_resolve_def between_statements_def empty_path_cache_def
        start_state_def Let_def)
  have k: "kind id_uri = FILE_ID" by (simp add: id_uri_def)
  from metadata_lives_one_query [OF r k g, of "plain_fs_env lost_env" lost_env]
  obtain s2 where "try_resolve_path (plain_fs_env lost_env) lost_env my_auth id_uri
      (s1\<lparr>paths := begin_query (metadata_generation (paths between_statements)) (paths s1)\<rparr>) =
      Some (Inr (Some (sample_meta, False)), s2)" "world s2 = world s1" by blast
  then show ?thesis
    by (intro exI [of _ "s1\<lparr>paths := begin_query (metadata_generation (paths between_statements)) (paths s1)\<rparr>"]
        exI [of _ s2]) simp
qed

text \<open>
  The error for an ambiguous name depends on what ran before: with a folder and a file of one name, the
  path raises the ambiguity error on a cold cache, but once a path through the folder was looked up, the
  same path silently means the folder.
\<close>

theorem cached_folder_hides_ambiguity:
  assumes "serves client kids" and "wf_auth auth" and "wf_path [seg, seg']"
    and "filter (\<lambda>m. meta_name m = seg) (kids (root_folder_for auth)) = x # y # zs"
    and "filter (\<lambda>m. meta_name m = seg \<and> is_folder m) (kids (root_folder_for auth)) = [d]"
    and "paths s = empty_path_cache"
    and "try_resolve_path fe client auth \<lparr>kind = PATH, file_id = [], segments = [seg, seg']\<rparr> s = Some (r, s1)"
  shows "(\<exists>e s'. try_resolve_path fe client auth \<lparr>kind = PATH, file_id = [], segments = [seg]\<rparr> s = Some (Inl e, s')) \<and>
    (\<exists>f s'. try_resolve_path fe client auth \<lparr>kind = PATH, file_id = [], segments = [seg]\<rparr> s1 =
       Some (Inr (Some (d, f)), s'))"
proof -
  let ?root = "root_folder_for auth" and ?uri = "\<lparr>kind = PATH, file_id = [], segments = [seg]\<rparr>"
    and ?uri2 = "\<lparr>kind = PATH, file_id = [], segments = [seg, seg']\<rparr>"
  let ?k = "path_key auth seg" and ?k2 = "path_key auth (append_segment seg seg')"
  have can: "append_segment [] seg = seg" by (simp add: append_segment_def)
  have wk: "wf_key ?k" "wf_key ?k2" using assms(2) by simp_all
  let ?c = "empty_path_cache\<lparr>miss_count := 1\<rparr>" and ?s = "s\<lparr>paths := empty_path_cache\<lparr>miss_count := 1\<rparr>\<rparr>"
  have miss: "try_get nq q k empty_path_cache = (None, ?c)" for nq q k
    by (simp add: try_get_def empty_path_cache_def)
  obtain w where l: "list_by_name client ?root seg False (to_string ?uri) ?s = Some (Inr (x # y # zs), ?s\<lparr>world := w\<rparr>)"
    using assms(1) [unfolded serves_def, rule_format, of ?root seg False "to_string ?uri" ?s] assms(4) by auto
  have "\<exists>e s'. try_resolve_path fe client auth ?uri s = Some (Inl e, s')"
    using assms(6) l can
    by (simp add: try_resolve_path_def fs_bind_def fs_paths_apply miss throw_ambiguous_def Let_def)
  obtain w2 where l2: "list_by_name client ?root seg True (to_string ?uri2) ?s = Some (Inr [d], ?s\<lparr>world := w2\<rparr>)"
    using assms(1) [unfolded serves_def, rule_format, of ?root seg True "to_string ?uri2" ?s] assms(5) by auto
  let ?t = "?s\<lparr>world := w2, paths := put (active_query fe) ?k d ?c\<rparr>"
  have root_step: "resolve_segments fe client auth (to_string ?uri2) [seg, seg'] [] ?root None False s =
      resolve_segments fe client auth (to_string ?uri2) [seg'] seg (meta_id d) (Some d) False ?t"
    using assms(6) l2 can
    by (simp add: fs_bind_def [of "fs_paths _"] fs_bind_def [of "list_by_name _ _ _ _ _"] fs_bind_def [of "fs_paths_do _"]
        fs_paths_apply miss Let_def)
  have "path_inv ?c" "max_entries ?c = 0" by (simp_all add: path_inv_def empty_path_cache_def)
  then have t: "path_inv (paths ?t)" "max_entries (paths ?t) = 0" "view (paths ?t) ?k = Some (d, active_query fe)"
    using put_unbounded(1,2) [where c = ?c and k = ?k and q = "active_query fe" and m = d]
      put_unbounded(3) [where c = ?c and k = ?k and q = "active_query fe" and m = d and k' = ?k] wk(1) by simp_all
  from assms(7) root_step obtain r1 t1 where
    "resolve_segments fe client auth (to_string ?uri2) [seg'] seg (meta_id d) (Some d) False ?t = Some (r1, t1)"
    "paths s1 = paths t1"
    using try_resolve_path_walk [OF assms(7)] by (auto simp del: resolve_segments.simps)
  with resolve_segments_grows [OF assms(2) _ t(1,2)] have "grows (paths ?t) (paths s1)" by metis
  from growsD [OF this wk(1) t(3)] have "view (paths s1) ?k = Some (d, active_query fe)" .
  then obtain f where "fst (try_get (no_query fe) (active_query fe) ?k (paths s1)) = Some (d, f)"
    by (auto simp: try_get_def view_def Let_def split: option.splits)
  then have "\<exists>f s'. try_resolve_path fe client auth ?uri s1 = Some (Inr (Some (d, f)), s')"
    using can by (simp add: try_resolve_path_def fs_bind_def fs_paths_apply Let_def)
  with \<open>\<exists>e s'. try_resolve_path fe client auth ?uri s = Some (Inl e, s')\<close> show ?thesis by blast
qed

theorem cached_folder_hides_ambiguity_witness:
  "\<exists>e s' s1 f s''. try_resolve_path (plain_fs_env dup_env) dup_env my_auth
      \<lparr>kind = PATH, file_id = [], segments = [''a.csv'']\<rparr> start_state = Some (Inl e, s') \<and>
    try_resolve_path (plain_fs_env dup_env) dup_env my_auth
      \<lparr>kind = PATH, file_id = [], segments = [''a.csv'']\<rparr> s1 = Some (Inr (Some (dup_folder, f)), s'')"
proof -
  let ?uri = "\<lparr>kind = PATH, file_id = [], segments = [''a.csv'', ''b'']\<rparr>"
  let ?fe = "plain_fs_env dup_env"
  have root: "root_folder_for my_auth = ''root''" by (simp add: root_folder_for_def my_auth_def)
  obtain r s1 where r: "try_resolve_path ?fe dup_env my_auth ?uri start_state = Some (r, s1)"
    using try_resolve_path_returns [OF dup_serves, of ?uri ?fe my_auth start_state] by fastforce
  have kids: "filter (\<lambda>m. meta_name m = ''a.csv'') (dup_tree (root_folder_for my_auth)) = dup_folder # sample_meta # []"
    "filter (\<lambda>m. meta_name m = ''a.csv'' \<and> is_folder m) (dup_tree (root_folder_for my_auth)) = [dup_folder]"
    by (simp_all add: root dup_tree_def sample_meta_name)
  have wf: "wf_auth my_auth" "wf_path [''a.csv'', ''b'']" "paths start_state = empty_path_cache"
    by (simp_all add: wf_auth_def my_auth_def wf_identity_def start_state_def)
  from cached_folder_hides_ambiguity [OF dup_serves wf(1,2) kids wf(3) r] show ?thesis by blast
qed

end
