(* ===== verification/FileHandle.thy ===== *)
theory FileHandle
  imports Resolver
begin

text \<open>
  The write side: \<open>src/gdrive_file_handle.cpp\<close>, \<open>src/gdrive_upload.cpp\<close> and the writing operations of
  \<open>src/gdrive_filesystem.cpp\<close>. A handle is a record that the operations take and return: what they
  changed of it stays changed when they throw.
\<close>

section \<open>The handle\<close>

record file_handle =
  h_path :: string
  h_meta :: drive_file_meta
  h_position :: nat
  is_export :: bool
  export_buffer :: string
  is_write :: bool
  write_parent_id :: string
  write_name :: string
  write_failed :: bool
  h_auth :: auth_context
  h_upload :: "upload_buffer option"
  upload_session :: string
  h_block_size :: nat
  block_key :: string

definition new_handle :: "string \<Rightarrow> drive_file_meta \<Rightarrow> auth_context \<Rightarrow> file_handle" where
  "new_handle path meta auth = \<lparr>h_path = path, h_meta = meta, h_position = 0, is_export = False, export_buffer = [],
     is_write = False, write_parent_id = [], write_name = [], write_failed = False, h_auth = auth,
     h_upload = None, upload_session = [], h_block_size = 0, block_key = []\<rparr>"

definition write_handle :: "'w fs_env \<Rightarrow> string \<Rightarrow> string \<Rightarrow> string \<Rightarrow> string \<Rightarrow> auth_context \<Rightarrow> file_handle" where
  "write_handle fe path existing_id parent_id nm auth =
     (new_handle path (no_meta\<lparr>meta_id := existing_id, meta_name := nm\<rparr>) auth)
       \<lparr>is_write := True, write_parent_id := parent_id, write_name := nm,
        h_upload := Some (new_upload_buffer (get_ubigint_setting fe ''gdrive_upload_chunk_bytes'' 16777216))\<rparr>"

text \<open>An operation on a handle: what it returns or throws, the handle and the state afterwards.\<close>

type_synonym ('a, 'w) on_handle =
  "file_handle \<Rightarrow> 'w fs_state \<Rightarrow> ('a outcome \<times> file_handle \<times> 'w fs_state) option"

section \<open>Sending\<close>

definition parent_path_of :: "string \<Rightarrow> string" where
  "parent_path_of path =
     (let before = rev (dropWhile (\<lambda>c. c \<noteq> slash) (rev path)) in
      if before = [] \<or> length before - 1 < length scheme then [] else butlast before)"

definition upload_error :: "gdrive_error \<Rightarrow> file_handle \<Rightarrow> 'a outcome" where
  "upload_error e h =
     (if err_kind e = NOT_FOUND \<and> write_parent_id h \<noteq> [] \<and> find_sub (write_parent_id h) (message e) \<noteq> None then
        let folder = parent_path_of (h_path h);
            folder_desc = (if folder = [] then [] else squote # folder @ squote # '' '') in
        Inl (IOException (''gdrive: cannot write '' @ squote # h_path h @ squote # '': the destination folder '' @
          folder_desc @ ''no longer exists (folder id '' @ write_parent_id h @
          ''; it was deleted or moved during the upload). Nothing was written: the file was never published.''))
      else throw_gdrive_error e (h_path h))"

text \<open>\<open>SendUploadChunk\<close> up to its last statement: that the chunk was sent is recorded by the write loop.\<close>

definition send_upload_chunk :: "'w fs_env \<Rightarrow> upload_buffer \<Rightarrow> (unit, 'w) on_handle" where
  "send_upload_chunk fe buf h s =
     (let client = create_client fe (h_auth h);
          send = (\<lambda>h w. case upload_chunk client (upload_session h) buf False w of
              None \<Rightarrow> None
            | Some (Inl e, w) \<Rightarrow> Some (Inl e, h, s\<lparr>world := w\<rparr>)
            | Some (Inr resp, w) \<Rightarrow>
                if resp_ok resp then Some (Inr (), h, s\<lparr>world := w\<rparr>)
                else Some (upload_error (resp_error resp) h, h, s\<lparr>world := w\<rparr>)) in
      if upload_session h = [] then
        (case start_resumable_upload client (meta_id (h_meta h)) (write_parent_id h) (write_name h) octet_stream
                (world s) of
           (Inl e, w) \<Rightarrow> Some (Inl e, h, s\<lparr>world := w\<rparr>)
         | (Inr resp, w) \<Rightarrow>
             if \<not> resp_ok resp then Some (upload_error (resp_error resp) h, h, s\<lparr>world := w\<rparr>)
             else send (h\<lparr>upload_session := resp_location resp\<rparr>) w)
      else send h (world s))"

definition abort_upload :: "'w fs_env \<Rightarrow> file_handle \<Rightarrow> 'w fs_state \<Rightarrow> file_handle \<times> 'w fs_state" where
  "abort_upload fe h s =
     (if upload_session h = [] then (h, s)
      else (h\<lparr>upload_session := []\<rparr>,
            s\<lparr>world := cancel_upload (create_client fe (h_auth h)) (upload_session h) (world s)\<rparr>))"

definition upload_handle_contents :: "'w fs_env \<Rightarrow> 'w drive_env \<Rightarrow> (unit, 'w) on_handle" where
  "upload_handle_contents fe client h s =
     (case h_upload h of
        None \<Rightarrow> Some (Inr (), h, s)
      | Some buf \<Rightarrow>
          let finish = (\<lambda>resp h w.
                Some (Inr (),
                  (case parse_file_meta (parse_json client) (resp_body resp) of
                     None \<Rightarrow> h | Some m \<Rightarrow> h\<lparr>h_meta := m\<rparr>), s\<lparr>world := w\<rparr>)) in
          if write_failed h then Some (Inr (), h, s)
          else if on_close buf = FINAL_CHUNK then
            (case upload_chunk client (upload_session h) buf True (world s) of
               None \<Rightarrow> None
             | Some (Inl e, w) \<Rightarrow> Some (Inl e, h, s\<lparr>world := w\<rparr>)
             | Some (Inr resp, w) \<Rightarrow>
                 if resp_ok resp then finish resp (h\<lparr>upload_session := []\<rparr>) w
                 else Some (upload_error (resp_error resp) h, h, s\<lparr>world := w\<rparr>))
          else
            let reserve = (if meta_id (h_meta h) = [] then generate_file_id client else ret no_response) in
            (case reserve (world s) of
               (Inl e, w) \<Rightarrow> Some (Inl e, h, s\<lparr>world := w\<rparr>)
             | (Inr id_resp, w) \<Rightarrow>
                 let reserved_id =
                       (if resp_ok id_resp then
                          (case parse_generated_file_id (parse_json client) (resp_body id_resp) of
                             None \<Rightarrow> [] | Some i \<Rightarrow> i)
                        else []) in
                 (case upload client (meta_id (h_meta h)) (write_parent_id h) (write_name h) octet_stream
                         (pending buf) reserved_id w of
                    (Inl e, w) \<Rightarrow> Some (Inl e, h, s\<lparr>world := w\<rparr>)
                  | (Inr resp, w) \<Rightarrow>
                      if resp_ok resp then finish resp h w
                      else Some (upload_error (resp_error resp) h, h, s\<lparr>world := w\<rparr>))))"

section \<open>The operations of a handle that is written\<close>

definition note_peak :: "upload_buffer \<Rightarrow> 'w fs_state \<Rightarrow> 'w fs_state" where
  "note_peak buf s = s\<lparr>world := (world s)\<lparr>calls := record_upload_buffer_peak (peak buf) (calls (world s))\<rparr>\<rparr>"

text \<open>The sender of the write loop; \<open>None\<close> is a send that does not return.\<close>

definition chunk_sender ::
    "'w fs_env \<Rightarrow> upload_buffer \<Rightarrow> (file_handle \<times> 'w fs_state) option \<Rightarrow>
     unit outcome \<times> (file_handle \<times> 'w fs_state) option" where
  "chunk_sender fe buf st =
     (case st of
        None \<Rightarrow> (Inl (IOException []), None)
      | Some (h, s) \<Rightarrow>
          (case send_upload_chunk fe buf h s of
             None \<Rightarrow> (Inl (IOException []), None)
           | Some (r, h, s) \<Rightarrow> (r, Some (h, s))))"

definition fs_write :: "'w fs_env \<Rightarrow> string \<Rightarrow> (nat, 'w) on_handle" where
  "fs_write fe data h s =
     (case h_upload h of
        None \<Rightarrow> Some (Inl (IOException (''gdrive: handle for '' @ squote # h_path h @ squote # '' was not opened for writing'')), h, s)
      | Some buf \<Rightarrow>
          if \<not> is_write h then
            Some (Inl (IOException (''gdrive: handle for '' @ squote # h_path h @ squote # '' was not opened for writing'')), h, s)
          else if write_failed h then
            Some (Inl (IOException (''gdrive: a previous write to '' @ squote # h_path h @ squote #
              '' already failed; this handle can only be closed'')), h, s)
          else
            (case write_loop (chunk_sender fe) buf (Some (h, s)) data of
               (_, _, None) \<Rightarrow> None
             | (Inl e, buf, Some (h, s)) \<Rightarrow>
                 let (h, s) = abort_upload fe (h\<lparr>h_upload := Some buf, write_failed := True\<rparr>) s in
                 Some (Inl e, h, s)
             | (Inr _, buf, Some (h, s)) \<Rightarrow>
                 Some (Inr (length data),
                   h\<lparr>h_upload := Some buf, h_position := u64_add (h_position h) (length data)\<rparr>, note_peak buf s)))"

definition fs_close :: "'w fs_env \<Rightarrow> (unit, 'w) on_handle" where
  "fs_close fe h s =
     (if \<not> is_write h then Some (Inr (), h, s)
      else
        let h = h\<lparr>is_write := False\<rparr> in
        if write_failed h then
          let (h, s) = abort_upload fe h s in Some (Inr (), h, s)
        else
          (case upload_handle_contents fe (create_client fe (h_auth h)) h s of
             None \<Rightarrow> None
           | Some (Inl e, h, s) \<Rightarrow>
               let (h, s) = abort_upload fe (h\<lparr>write_failed := True\<rparr>) s in Some (Inl e, h, s)
           | Some (Inr _, h, s) \<Rightarrow> Some (Inr (), h\<lparr>h_upload := None\<rparr>, s)))"

definition cancel_write :: "'w fs_env \<Rightarrow> file_handle \<Rightarrow> 'w fs_state \<Rightarrow> file_handle \<times> 'w fs_state" where
  "cancel_write fe h s =
     (if \<not> is_write h then (h, s)
      else
        let (h, s) = abort_upload fe (h\<lparr>is_write := False, write_failed := True\<rparr>) s in
        (h\<lparr>h_upload := None\<rparr>, s))"

text \<open>\<open>~GDriveFileHandleImpl\<close>, \<open>AbortFileWrite\<close> and the operations Drive does not offer.\<close>

definition destroy_handle :: "'w fs_env \<Rightarrow> file_handle \<Rightarrow> 'w fs_state \<Rightarrow> 'w fs_state" where
  "destroy_handle fe h s = snd (abort_upload fe h s)"

definition abort_file_write :: "'w fs_env \<Rightarrow> file_handle \<Rightarrow> 'w fs_state \<Rightarrow> file_handle \<times> 'w fs_state" where
  "abort_file_write fe h s = cancel_write fe h s"

definition write_at :: "'a \<Rightarrow> exn" where
  "write_at loc = NotImplementedException (''gdrive: cannot write at a byte offset -- Google Drive has no positional '' @
     ''write API. Write sequentially and close the file; it is streamed in chunks and published on close.'')"

definition truncate_handle :: "'a \<Rightarrow> exn" where
  "truncate_handle n = NotImplementedException (''gdrive: cannot truncate in place -- Google Drive has no '' @
     ''partial-content API. Rewrite the whole file instead.'')"

definition trim_handle :: "'a \<Rightarrow> exn" where
  "trim_handle r = NotImplementedException
     ''gdrive: cannot trim in place -- Google Drive has no partial-content API.''"

definition seek :: "nat \<Rightarrow> file_handle \<Rightarrow> file_handle" where
  "seek loc h = h\<lparr>h_position := loc\<rparr>"

definition get_file_size :: "file_handle \<Rightarrow> int" where
  "get_file_size h = (if meta_size (h_meta h) < 0 then 0 else meta_size (h_meta h))"

definition get_version_tag :: "file_handle \<Rightarrow> string" where
  "get_version_tag h = head_revision_id (h_meta h)"

section \<open>A settled handle never touches Drive again\<close>

text \<open>
  A handle that can publish nothing any more: its session is gone, and it is closed, cancelled or failed.
\<close>

definition settled :: "file_handle \<Rightarrow> bool" where
  "settled h \<longleftrightarrow> upload_session h = [] \<and> (\<not> is_write h \<or> write_failed h)"

text \<open>What a caller can do with a handle; destroying it is the last thing.\<close>

datatype handle_op = Write string | Close | Cancel | Abort | SeekTo nat

fun run_op :: "'w fs_env \<Rightarrow> handle_op \<Rightarrow> file_handle \<Rightarrow> 'w fs_state \<Rightarrow> (bool \<times> file_handle \<times> 'w fs_state) option" where
  "run_op fe (Write data) h s = map_option (\<lambda>(r, h, s). (isl r, h, s)) (fs_write fe data h s)"
| "run_op fe Close h s = map_option (\<lambda>(r, h, s). (isl r, h, s)) (fs_close fe h s)"
| "run_op fe Cancel h s = (case cancel_write fe h s of (h, s) \<Rightarrow> Some (False, h, s))"
| "run_op fe Abort h s = (case abort_file_write fe h s of (h, s) \<Rightarrow> Some (False, h, s))"
| "run_op fe (SeekTo n) h s = Some (False, seek n h, s)"

fun run_ops :: "'w fs_env \<Rightarrow> handle_op list \<Rightarrow> file_handle \<Rightarrow> 'w fs_state \<Rightarrow> (file_handle \<times> 'w fs_state) option" where
  "run_ops fe [] h s = Some (h, destroy_handle fe h s)"
| "run_ops fe (op # ops) h s =
     (case run_op fe op h s of None \<Rightarrow> None | Some (_, h, s) \<Rightarrow> run_ops fe ops h s)"

lemma abort_upload_settles:
  "abort_upload fe h s = (h', s') \<Longrightarrow>
   upload_session h' = [] \<and> is_write h' = is_write h \<and> write_failed h' = write_failed h \<and> h_upload h' = h_upload h"
  by (auto simp: abort_upload_def split: if_splits)

lemma abort_upload_idle [simp]: "upload_session h = [] \<Longrightarrow> abort_upload fe h s = (h, s)"
  by (simp add: abort_upload_def)

lemma settled_op:
  assumes "settled h"
  shows "\<exists>e h'. run_op fe op h s = Some (e, h', s) \<and> settled h'"
proof (cases op)
  case (Write data)
  with assms show ?thesis by (auto simp: fs_write_def settled_def split: option.splits)
next
  case Close
  with assms show ?thesis by (auto simp: fs_close_def settled_def Let_def)
next
  case (SeekTo n)
  with assms show ?thesis by (intro exI [of _ False]) (simp add: seek_def settled_def)
qed (use assms in \<open>auto simp: cancel_write_def abort_file_write_def settled_def Let_def\<close>)

lemma settled_ops: "settled h \<Longrightarrow> \<exists>h'. run_ops fe ops h s = Some (h', s)"
proof (induction ops arbitrary: h s)
  case (Cons op ops)
  from settled_op [OF Cons.prems] obtain e h' where "run_op fe op h s = Some (e, h', s)" "settled h'" by blast
  with Cons.IH [of h' s] show ?case by simp
qed (simp add: destroy_handle_def settled_def)

lemma fs_write_failed_settled:
  assumes "fs_write fe data h s = Some (Inl e, h', s')" "is_write h" "h_upload h \<noteq> None" "\<not> write_failed h"
  shows "settled h'"
  using assms
  by (auto simp: fs_write_def settled_def Let_def split: option.splits sum.splits prod.splits
      dest!: abort_upload_settles)

text \<open>
  What holds of every handle: without a write in progress it has no session, and during a write it has
  one exactly when a chunk was sent.
\<close>

definition handle_ok :: "file_handle \<Rightarrow> bool" where
  "handle_ok h \<longleftrightarrow>
     (if is_write h \<and> \<not> write_failed h
      then \<exists>buf. h_upload h = Some buf \<and> (upload_session h = [] \<longleftrightarrow> \<not> sent_any buf)
      else upload_session h = [])"

lemma handle_ok_new: "handle_ok (write_handle fe path eid pid nm auth)" "handle_ok (new_handle path meta auth)"
  by (simp_all add: handle_ok_def write_handle_def new_handle_def new_upload_buffer_def)

lemma session_location:
  assumes "start_resumable_upload env fid pid nm ct w = (Inr resp, w')" "resp_ok resp"
  shows "resp_location resp \<noteq> []"
proof -
  have "drive_session_path (resp_location resp) \<noteq> None"
    using assms by (auto simp: start_resumable_upload_def bind_def ret_def split: prod.splits sum.splits if_splits)
  then show ?thesis by (auto simp: drive_session_path_def drive_origin_def starts_with_def)
qed

lemma upload_error_not_Inr [simp]: "upload_error e h \<noteq> Inr x"
  by (simp add: upload_error_def Let_def)

lemma isl_upload_error [simp]: "isl (upload_error e h)"
  by (simp add: upload_error_def throw_gdrive_error_def Let_def)

lemma send_upload_chunk_handle:
  assumes "send_upload_chunk fe buf h s = Some (r, h', s')"
  shows "\<exists>l. h' = h\<lparr>upload_session := l\<rparr> \<and> (r = Inr () \<longrightarrow> l \<noteq> [])"
proof (cases "upload_session h = []")
  case False
  with assms have "h' = h" by (auto simp: send_upload_chunk_def Let_def split: option.splits sum.splits prod.splits if_splits)
  with False show ?thesis by (intro exI [of _ "upload_session h"]) simp
next
  case True
  let ?start = "start_resumable_upload (create_client fe (h_auth h)) (meta_id (h_meta h)) (write_parent_id h)
      (write_name h) octet_stream (world s)"
  obtain r0 w0 where st: "?start = (r0, w0)" by fastforce
  show ?thesis
  proof (cases "\<exists>resp. r0 = Inr resp \<and> resp_ok resp")
    case False
    with assms True st have "h' = h \<and> r \<noteq> Inr ()"
      by (cases r0) (auto simp: send_upload_chunk_def Let_def)
    then show ?thesis by (intro exI [of _ "upload_session h"]) simp
  next
    case ok: True
    then obtain resp where resp: "r0 = Inr resp" "resp_ok resp" by blast
    with st session_location have "resp_location resp \<noteq> []" by blast
    moreover from assms True st resp have "h' = h\<lparr>upload_session := resp_location resp\<rparr>"
      by (auto simp: send_upload_chunk_def Let_def split: option.splits sum.splits prod.splits if_splits)
    ultimately show ?thesis by blast
  qed
qed

text \<open>A run of the write loop that sends everything moves the buffer as if the chunks were only recorded.\<close>

lemma write_loop_handle:
  "write_loop (chunk_sender fe) buf (Some (h, s)) data = (r, buf', Some (h', s')) \<Longrightarrow>
   upload_session h = [] \<longleftrightarrow> \<not> sent_any buf \<Longrightarrow>
   (\<exists>l. h' = h\<lparr>upload_session := l\<rparr> \<and> (r = Inr () \<longrightarrow> (l = [] \<longleftrightarrow> \<not> sent_any buf'))) \<and>
   (r = Inr () \<longrightarrow> (\<exists>chunks. write_loop log_send buf acc data = (Inr (), buf', chunks)))"
proof (induction "length data" arbitrary: buf h s data acc rule: less_induct)
  case less
  show ?case
  proof (cases "data = [] \<or> chunk buf = 0")
    case True
    with less.prems have "r = Inr ()" "buf' = buf" "h' = h" by (auto simp: write_loop.simps)
    with True less.prems(2) show ?thesis
      by (auto simp: write_loop.simps intro!: exI [of _ "upload_session h"])
  next
    case False
    have fill: "length (drop (fst (buf_fill b data)) data) < length data"
      if "chunk b = chunk buf" "length (pending b) < chunk b" for b
      using that False by (auto simp: buf_fill_def Let_def)
    have same: "sent_any (snd (buf_fill b data)) = sent_any b" for b by (simp add: buf_fill_def Let_def)
    show ?thesis
    proof (cases "buf_full buf")
      case nf: False
      let ?f = "buf_fill buf data"
      have lp: "write_loop send buf st data = write_loop send (snd ?f) st (drop (fst ?f) data)"
        for send :: "upload_buffer \<Rightarrow> 's \<Rightarrow> unit outcome \<times> 's" and st
        using False nf by (subst write_loop.simps) (simp add: Let_def)
      have lt: "length (drop (fst ?f) data) < length data" using fill nf by (simp add: buf_full_def)
      show ?thesis using less.hyps [OF lt less.prems(1) [unfolded lp]] less.prems(2) unfolding lp same by simp
    next
      case full: True
      obtain r1 st1 where c: "chunk_sender fe buf (Some (h, s)) = (r1, st1)" by fastforce
      let ?f = "buf_fill (mark_chunk_sent buf) data"
      have lt: "length (drop (fst ?f) data) < length data"
        using fill [of "mark_chunk_sent buf"] False by (simp add: mark_chunk_sent_def)
      show ?thesis
      proof (cases r1)
        case (Inl e)
        with less.prems(1) False full c have e: "r = Inl e" "buf' = buf" "st1 = Some (h', s')"
          by (auto simp: write_loop.simps [of "chunk_sender fe"])
        with c Inl have "send_upload_chunk fe buf h s = Some (Inl e, h', s')"
          by (auto simp: chunk_sender_def split: option.splits)
        from send_upload_chunk_handle [OF this] e(1) show ?thesis by auto
      next
        case (Inr u)
        with c obtain h1 s1 where s1: "send_upload_chunk fe buf h s = Some (Inr (), h1, s1)" "st1 = Some (h1, s1)"
          by (auto simp: chunk_sender_def split: option.splits)
        from send_upload_chunk_handle [OF s1(1)] obtain l where l: "h1 = h\<lparr>upload_session := l\<rparr>" "l \<noteq> []" by auto
        from less.prems(1) False full c Inr s1(2)
        have rest: "write_loop (chunk_sender fe) (snd ?f) (Some (h1, s1)) (drop (fst ?f) data) = (r, buf', Some (h', s'))"
          by (simp add: write_loop.simps [of "chunk_sender fe" buf] Let_def)
        have "upload_session h1 = [] \<longleftrightarrow> \<not> sent_any (snd ?f)"
          using l unfolding same by (simp add: mark_chunk_sent_def)
        from less.hyps [OF lt rest this, of "acc @ [pending buf]"] l(1)
        have "(\<exists>l. h' = h\<lparr>upload_session := l\<rparr> \<and> (r = Inr () \<longrightarrow> (l = [] \<longleftrightarrow> \<not> sent_any buf'))) \<and>
          (r = Inr () \<longrightarrow> (\<exists>chunks. write_loop log_send (snd ?f) (acc @ [pending buf]) (drop (fst ?f) data) =
             (Inr (), buf', chunks)))"
          by auto
        moreover have "write_loop log_send buf acc data =
            write_loop log_send (snd ?f) (acc @ [pending buf]) (drop (fst ?f) data)"
          using False full by (subst write_loop.simps) (simp add: log_send_def Let_def)
        ultimately show ?thesis by simp
      qed
    qed
  qed
qed

lemma fs_write_ok:
  assumes "fs_write fe data h s = Some (r, h', s')" "handle_ok h"
  shows "handle_ok h' \<and>
    (r = Inr n \<longrightarrow> (\<exists>buf buf' chunks l. h_upload h = Some buf \<and> is_write h \<and> \<not> write_failed h \<and>
       write_loop log_send buf acc data = (Inr (), buf', chunks) \<and>
       h' = h\<lparr>upload_session := l, h_upload := Some buf', h_position := u64_add (h_position h) (length data)\<rparr> \<and>
       (l = [] \<longleftrightarrow> \<not> sent_any buf'))) \<and>
    (isl r \<and> is_write h \<longrightarrow> settled h')"
proof (cases "is_write h \<and> \<not> write_failed h")
  case False
  with assms show ?thesis by (auto simp: fs_write_def handle_ok_def settled_def split: option.splits if_splits)
next
  case True
  with assms(2) obtain buf where buf: "h_upload h = Some buf" "upload_session h = [] \<longleftrightarrow> \<not> sent_any buf"
    by (auto simp: handle_ok_def)
  obtain r1 buf' st where l: "write_loop (chunk_sender fe) buf (Some (h, s)) data = (r1, buf', st)"
    by (metis prod_cases3)
  from assms(1) True buf(1) l obtain h1 s1 where st: "st = Some (h1, s1)"
    by (cases st) (auto simp: fs_write_def split: sum.splits)
  from write_loop_handle [OF l [unfolded st] buf(2), of acc] obtain sess where
    h1: "h1 = h\<lparr>upload_session := sess\<rparr>" "r1 = Inr () \<Longrightarrow> sess = [] \<longleftrightarrow> \<not> sent_any buf'"
    "r1 = Inr () \<Longrightarrow> \<exists>chunks. write_loop log_send buf acc data = (Inr (), buf', chunks)" by blast
  show ?thesis
  proof (cases r1)
    case (Inl e)
    with assms(1) True buf(1) l st have
      "abort_upload fe (h1\<lparr>h_upload := Some buf', write_failed := True\<rparr>) s1 = (h', s')" "r = Inl e"
      by (auto simp: fs_write_def Let_def split: prod.splits)
    with abort_upload_settles [OF this(1)] show ?thesis by (simp add: handle_ok_def settled_def)
  next
    case (Inr u)
    with assms(1) True buf(1) l st have
      "h' = h1\<lparr>h_upload := Some buf', h_position := u64_add (h_position h1) (length data)\<rparr>" "r = Inr (length data)"
      by (auto simp: fs_write_def Let_def)
    with Inr h1 True buf(1) show ?thesis by (auto simp: handle_ok_def)
  qed
qed

lemma contents_session:
  assumes "upload_handle_contents fe client h s = Some (r, h', s')" "\<not> write_failed h"
    "h_upload h = Some buf" "upload_session h = [] \<longleftrightarrow> \<not> sent_any buf"
  shows "is_write h' = is_write h \<and> write_failed h' = write_failed h \<and> (\<not> isl r \<longrightarrow> upload_session h' = [])"
proof (cases "sent_any buf")
  case True
  with assms show ?thesis
    by (auto simp: upload_handle_contents_def on_close_def Let_def
        split: option.splits sum.splits prod.splits if_splits)
next
  case False
  with assms show ?thesis
    by (auto simp: upload_handle_contents_def on_close_def Let_def
        split: option.splits sum.splits prod.splits if_splits)
qed

lemma fs_close_settled:
  assumes "fs_close fe h s = Some (r, h', s')" "handle_ok h"
  shows "settled h' \<and> handle_ok h'"
proof (cases "is_write h \<and> \<not> write_failed h")
  case False
  with assms(2) have "upload_session h = []" unfolding handle_ok_def by (metis (full_types))
  with False assms(1) show ?thesis
    by (cases "is_write h") (auto simp: fs_close_def handle_ok_def settled_def Let_def)
next
  case True
  with assms(2) obtain buf where buf: "h_upload h = Some buf" "upload_session h = [] \<longleftrightarrow> \<not> sent_any buf"
    by (auto simp: handle_ok_def)
  let ?h = "h\<lparr>is_write := False\<rparr>"
  from assms(1) True obtain r1 h1 s1 where
    u: "upload_handle_contents fe (create_client fe (h_auth h)) ?h s = Some (r1, h1, s1)"
    by (auto simp: fs_close_def Let_def split: option.splits)
  from contents_session [OF u] True buf
  have c: "\<not> is_write h1" "\<not> isl r1 \<longrightarrow> upload_session h1 = []" by simp_all
  show ?thesis
  proof (cases r1)
    case (Inl e)
    with assms(1) True u have "abort_upload fe (h1\<lparr>write_failed := True\<rparr>) s1 = (h', s')"
      by (auto simp: fs_close_def Let_def split: prod.splits)
    from abort_upload_settles [OF this] show ?thesis by (simp add: settled_def handle_ok_def)
  next
    case (Inr x)
    with assms(1) True u have "h' = h1\<lparr>h_upload := None\<rparr>" by (auto simp: fs_close_def Let_def)
    with c Inr show ?thesis by (simp add: settled_def handle_ok_def)
  qed
qed

lemma cancel_write_settled:
  "cancel_write fe h s = (h', s') \<Longrightarrow> handle_ok h \<Longrightarrow> settled h' \<and> handle_ok h'"
  by (auto simp: cancel_write_def settled_def handle_ok_def Let_def split: prod.splits if_splits
      dest!: abort_upload_settles)

lemma run_op_ok:
  assumes "run_op fe op h s = Some (e, h', s')" "handle_ok h"
  shows "handle_ok h'"
proof (cases op)
  case (Write data)
  with assms obtain r where "fs_write fe data h s = Some (r, h', s')" by (auto split: prod.splits)
  from fs_write_ok [OF this assms(2), of 0] show ?thesis by blast
next
  case Close
  with assms(1) obtain r where "fs_close fe h s = Some (r, h', s')" by (auto split: prod.splits)
  from fs_close_settled [OF this assms(2)] show ?thesis by blast
next
  case (SeekTo n)
  with assms show ?thesis by (auto simp: seek_def handle_ok_def)
next
  case Cancel
  with assms(1) have "cancel_write fe h s = (h', s')" by (auto split: prod.splits)
  from cancel_write_settled [OF this assms(2)] show ?thesis by blast
next
  case Abort
  with assms(1) have "cancel_write fe h s = (h', s')" by (auto simp: abort_file_write_def split: prod.splits)
  from cancel_write_settled [OF this assms(2)] show ?thesis by blast
qed

section \<open>Properties\<close>

text \<open>The handles a program can hold: freshly opened, and every handle an operation leaves.\<close>

inductive held :: "'w fs_env \<Rightarrow> file_handle \<Rightarrow> 'w fs_state \<Rightarrow> bool" for fe where
  opened_to_write: "held fe (write_handle fe path eid pid nm auth) s"
| opened_to_read: "held fe (new_handle path meta auth) s"
| elsewhere: "held fe h s \<Longrightarrow> held fe h s'"
| used: "held fe h s \<Longrightarrow> run_op fe op h s = Some (e, h', s') \<Longrightarrow> held fe h' s'"

lemma held_ok: "held fe h s \<Longrightarrow> handle_ok h"
  by (induction rule: held.induct) (auto simp: handle_ok_new intro: run_op_ok)

text \<open>
  C17. A file is published at most once, and never after a failure: once a handle was closed, cancelled or
  aborted, whatever came of that, or once a write on it threw, no sequence of further operations, the
  destructor included, sends a single request to Drive; its session is cancelled or used up. In
  particular a close after a failed write does not publish the bytes written so far.
\<close>

theorem settled_handle_is_final:
  assumes "held fe h s" and "run_op fe op h s = Some (threw, h', s')"
    and "op \<in> {Close, Cancel, Abort} \<or> threw \<and> is_write h"
  shows "\<exists>h''. run_ops fe ops h' s' = Some (h'', s')"
proof -
  note ok = held_ok [OF assms(1)]
  have "settled h'"
  proof (cases op)
    case (Write data)
    with assms(2,3) obtain r where "fs_write fe data h s = Some (r, h', s')" "isl r" "is_write h"
      by (auto split: prod.splits)
    with fs_write_ok [OF this(1) ok, of 0] show ?thesis by blast
  next
    case Close
    with assms(2) obtain r where "fs_close fe h s = Some (r, h', s')" by (auto split: prod.splits)
    from fs_close_settled [OF this ok] show ?thesis by blast
  next
    case (SeekTo n)
    with assms(2,3) show ?thesis by auto
  next
    case Cancel
    with assms(2) have "cancel_write fe h s = (h', s')" by (auto split: prod.splits)
    from cancel_write_settled [OF this ok] show ?thesis by blast
  next
    case Abort
    with assms(2) have "cancel_write fe h s = (h', s')" by (auto simp: abort_file_write_def split: prod.splits)
    from cancel_write_settled [OF this ok] show ?thesis by blast
  qed
  then show ?thesis by (rule settled_ops)
qed

definition lost_handle :: file_handle where
  "lost_handle = write_handle (plain_fs_env lost_env) ''gdrive://a.csv'' ''x1'' ''root'' ''a.csv'' my_auth"

theorem settled_handle_is_final_witness:
  "\<exists>threw h' s' h''. run_op (plain_fs_env lost_env) Cancel lost_handle start_state = Some (threw, h', s') \<and>
    run_ops (plain_fs_env lost_env) [Write ''x'', Close, Close] h' s' = Some (h'', s')"
proof -
  obtain h' s' where "cancel_write (plain_fs_env lost_env) lost_handle start_state = (h', s')" by fastforce
  then have r: "run_op (plain_fs_env lost_env) Cancel lost_handle start_state = Some (False, h', s')" by simp
  have "held (plain_fs_env lost_env) lost_handle start_state" unfolding lost_handle_def by (rule opened_to_write)
  from settled_handle_is_final [OF this r] r show ?thesis by blast
qed

fun write_pieces :: "'w fs_env \<Rightarrow> string list \<Rightarrow> file_handle \<Rightarrow> 'w fs_state \<Rightarrow> (file_handle \<times> 'w fs_state) option" where
  "write_pieces fe [] h s = Some (h, s)"
| "write_pieces fe (d # ds) h s =
     (case fs_write fe d h s of
        Some (Inr n, h, s) \<Rightarrow> write_pieces fe ds h s
      | _ \<Rightarrow> None)"

lemma length_concat_equal: "\<forall>x\<in>set xs. length x = c \<Longrightarrow> length (concat xs) = length xs * c"
  by (induction xs) auto

lemma write_pieces_stream:
  assumes "write_pieces fe ds h s = Some (h', s')" "handle_ok h" "h_upload h = Some buf" "is_write h" "\<not> write_failed h"
    and "stream_inv c d buf acc" "length (d @ concat ds) < 2 ^ 64"
  shows "\<exists>buf' acc'. h_upload h' = Some buf' \<and> stream_inv c (d @ concat ds) buf' acc' \<and>
    (upload_session h' = [] \<longleftrightarrow> \<not> sent_any buf')"
  using assms
proof (induction ds arbitrary: h s d buf acc)
  case Nil
  then show ?case by (auto simp: handle_ok_def)
next
  case (Cons x ds)
  from Cons.prems(1) obtain n h1 s1 where w: "fs_write fe x h s = Some (Inr n, h1, s1)"
    "write_pieces fe ds h1 s1 = Some (h', s')"
    by (auto split: option.splits sum.splits prod.splits)
  from fs_write_ok [OF w(1) Cons.prems(2), of n acc] Cons.prems(3) obtain buf' chunks l where
    b: "write_loop log_send buf acc x = (Inr (), buf', chunks)" "handle_ok h1"
    "h1 = h\<lparr>upload_session := l, h_upload := Some buf', h_position := u64_add (h_position h) (length x)\<rparr>"
    by auto
  have "stream_inv c (d @ x) buf' chunks" using write_loop_stream [OF Cons.prems(6), of x] b(1) Cons.prems(7) by simp
  from Cons.IH [OF w(2) b(2) _ _ _ this] b(3) Cons.prems(4,5,7) show ?case by simp
qed

text \<open>
  Nothing written is lost between the writes and the close: after any writes that did not throw, in
  whatever pieces, the handle holds exactly the bytes behind the last full chunk; the chunks before it
  are the prefix of the data that was sent, and a session is open exactly when there is one.
\<close>

theorem written_bytes_accounted:
  assumes "write_pieces fe ds (write_handle fe path eid pid nm auth) s = Some (h, s')"
    and "length (concat ds) < 2 ^ 64"
  shows "\<exists>buf. h_upload h = Some buf \<and> pending buf = drop (offset buf) (concat ds) \<and>
    offset buf \<le> length (concat ds) \<and> chunk buf dvd offset buf \<and> length (pending buf) \<le> chunk buf \<and>
    (upload_session h = [] \<longleftrightarrow> offset buf = 0)"
proof -
  let ?n = "get_ubigint_setting fe ''gdrive_upload_chunk_bytes'' 16777216"
  have h: "h_upload (write_handle fe path eid pid nm auth) = Some (new_upload_buffer ?n)"
    "is_write (write_handle fe path eid pid nm auth)" "\<not> write_failed (write_handle fe path eid pid nm auth)"
    by (simp_all add: write_handle_def new_handle_def)
  from write_pieces_stream [OF assms(1) handle_ok_new(1) h stream_inv_new] assms(2)
  obtain buf acc where b: "h_upload h = Some buf" "stream_inv (normalize_drive_chunk_size ?n) (concat ds) buf acc"
    "upload_session h = [] \<longleftrightarrow> \<not> sent_any buf" by auto
  have len: "length (concat acc) = length acc * chunk buf"
    using b(2) by (intro length_concat_equal) (simp add: stream_inv_def)
  have inv: "concat acc @ pending buf = concat ds" "offset buf = length (concat acc)" "0 < chunk buf"
    "length (pending buf) \<le> chunk buf" "sent_any buf \<longleftrightarrow> acc \<noteq> []"
    using b(2) by (simp_all add: stream_inv_def)
  have "pending buf = drop (offset buf) (concat ds)" unfolding inv(1) [symmetric] inv(2) by simp
  moreover have "offset buf \<le> length (concat ds)" unfolding inv(1) [symmetric] inv(2) by simp
  moreover have "chunk buf dvd offset buf" unfolding inv(2) len by simp
  moreover have "offset buf = 0 \<longleftrightarrow> acc = []" unfolding inv(2) len using inv(3) by simp
  moreover have "upload_session h = [] \<longleftrightarrow> offset buf = 0"
    using b(3) inv(5) \<open>offset buf = 0 \<longleftrightarrow> acc = []\<close> by simp
  ultimately show ?thesis using b(1) inv(4) by (intro exI [of _ buf] conjI)
qed

theorem written_bytes_accounted_witness:
  "\<exists>h s' buf. write_pieces (plain_fs_env lost_env) [''ab'', ''c''] lost_handle start_state = Some (h, s') \<and>
    h_upload h = Some buf \<and> pending buf = drop (offset buf) ''abc'' \<and> (upload_session h = [] \<longleftrightarrow> offset buf = 0)"
proof -
  obtain h s' where w: "write_pieces (plain_fs_env lost_env) [''ab'', ''c''] lost_handle start_state = Some (h, s')"
    by (simp add: lost_handle_def write_handle_def new_handle_def fs_write_def plain_fs_env_def get_ubigint_setting_def
        new_upload_buffer_def normalize_drive_chunk_size_def drive_upload_chunk_multiple_def drive_upload_chunk_max_def
        write_loop.simps buf_full_def buf_fill_def Let_def)
  then have "write_pieces (plain_fs_env lost_env) [''ab'', ''c'']
      (write_handle (plain_fs_env lost_env) ''gdrive://a.csv'' ''x1'' ''root'' ''a.csv'' my_auth) start_state = Some (h, s')"
    by (simp add: lost_handle_def)
  from written_bytes_accounted [OF this] w show ?thesis by auto
qed

end
