(* ===== verification/ReadPath.thy ===== *)
theory ReadPath
  imports FileHandle
begin

text \<open>
  The reading operations of \<open>src/gdrive_filesystem.cpp\<close>: positional and sequential reads, through the
  block cache or as one exact range, and the recovery of a handle whose file id went dead.

  A read gives the bytes it copied into the caller's buffer, \<open>nr_bytes\<close> of them, or throws. The flag
  \<open>not_found\<close> that the source passes by reference is returned beside the outcome.
\<close>

section \<open>Blocks\<close>

definition build_block_key :: "auth_context \<Rightarrow> drive_file_meta \<Rightarrow> string" where
  "build_block_key auth m = auth_identity auth @ unit_sep # auth_drive_id auth @ unit_sep #
     auth_root_folder_id auth @ unit_sep # meta_id m @ unit_sep # head_revision_id m"

text \<open>The fetch of one block. A 200 means that the range was ignored and the body is the whole file.\<close>

definition fetch_block ::
    "'w drive_env \<Rightarrow> string \<Rightarrow> string \<Rightarrow> nat \<Rightarrow> nat \<Rightarrow> 'w fs_state \<Rightarrow> string outcome \<times> bool \<times> 'w fs_state" where
  "fetch_block client fid path start len s =
     (case download client fid (int start) (int start + int len - 1) (world s) of
        (Inl e, w) \<Rightarrow> (Inl e, False, s\<lparr>world := w\<rparr>)
      | (Inr r, w) \<Rightarrow>
          if \<not> resp_ok r then
            (throw_gdrive_error (resp_error r) path, err_kind (resp_error r) = NOT_FOUND, s\<lparr>world := w\<rparr>)
          else if resp_status r = 200 \<and> start > 0 then
            (if length (resp_body r) \<le> start then
               (Inl (IOException (''gdrive: server ignored Range on '' @ squote # path @ squote # '' and returned '' @
                  decimal (length (resp_body r)) @ '' bytes, which does not reach offset '' @ decimal start)),
                False, s\<lparr>world := w\<rparr>)
             else (Inr (take len (drop start (resp_body r))), False, s\<lparr>world := w\<rparr>))
          else (Inr (resp_body r), False, s\<lparr>world := w\<rparr>))"

text \<open>\<open>GetBlock\<close> as one thread runs it; \<open>None\<close> is a wait for a promise that this run does not resolve.\<close>

definition get_block ::
    "string \<Rightarrow> nat \<Rightarrow> nat \<Rightarrow> nat \<Rightarrow> (nat \<Rightarrow> nat \<Rightarrow> 'w fs_state \<Rightarrow> string outcome \<times> bool \<times> 'w fs_state) \<Rightarrow>
     'w fs_state \<Rightarrow> (string outcome \<times> bool \<times> 'w fs_state) option" where
  "get_block key block_index block_size file_size fetch s =
     (let k = full_key key block_size block_index; (start, len) = fetch_range block_index block_size file_size in
      case lookup_or_insert k (block_store s) of ((g, fresh), c) \<Rightarrow>
      if fresh then
        (case fetch start len (s\<lparr>block_store := c\<rparr>) of
           (Inr d, nf, s) \<Rightarrow> Some (Inr d, nf, s\<lparr>block_store := fulfil g (Ready d) (store_block k g d (block_store s))\<rparr>)
         | (Inl e, nf, s) \<Rightarrow> Some (Inl e, nf, s\<lparr>block_store := fulfil g (Failed e) (discard_block k g (block_store s))\<rparr>))
      else
        (case futures c g of
           Pending \<Rightarrow> None
         | Ready d \<Rightarrow> Some (Inr d, False, s\<lparr>block_store := c\<rparr>)
         | Failed e \<Rightarrow> Some (Inl e, False, s\<lparr>block_store := c\<rparr>)))"

text \<open>The loop of \<open>ReadViaBlockCache\<close>; \<open>done\<close> are the bytes copied so far. It makes progress in every round.\<close>

function read_blocks ::
    "'w drive_env \<Rightarrow> file_handle \<Rightarrow> nat \<Rightarrow> nat \<Rightarrow> string \<Rightarrow> 'w fs_state \<Rightarrow> (string outcome \<times> bool \<times> 'w fs_state) option" where
  "read_blocks client h remaining pos copied s =
     (if remaining = 0 then Some (Inr copied, False, s)
      else
        let block_index = pos div h_block_size h;
            block_start = (block_index * h_block_size h) mod 2 ^ 64 in
        case get_block (block_key h) block_index (h_block_size h) (nat (meta_size (h_meta h)))
               (fetch_block client (meta_id (h_meta h)) (h_path h)) s of
          None \<Rightarrow> None
        | Some (Inl e, nf, s) \<Rightarrow> Some (Inl e, nf, s)
        | Some (Inr block, nf, s) \<Rightarrow>
            let within = u64_sub pos block_start in
            if within \<ge> length block then
              Some (Inl (IOException (''gdrive: short read on '' @ squote # h_path h @ squote # '': block '' @
                decimal block_index @ '' ended at '' @ decimal (length block) @ '', wanted offset '' @ decimal within)), nf, s)
            else
              let n = min remaining (length block - within) in
              read_blocks client h (remaining - n) (u64_add pos n) (copied @ take n (drop within block)) s)"
  by pat_completeness auto
termination
  by (relation "measure (\<lambda>(client, h, remaining, pos, copied, s). remaining)") auto

declare read_blocks.simps [simp del]

definition read_via_block_cache ::
    "'w fs_env \<Rightarrow> nat \<Rightarrow> nat \<Rightarrow> file_handle \<Rightarrow> 'w fs_state \<Rightarrow> (string outcome \<times> bool \<times> 'w fs_state) option" where
  "read_via_block_cache fe n loc h s = read_blocks (create_client fe (h_auth h)) h n loc [] s"

section \<open>Recovery of a dead id\<close>

definition try_recover_stale_handle :: "'w fs_env \<Rightarrow> (bool, 'w) on_handle" where
  "try_recover_stale_handle fe h s =
     (case parse_gdrive_uri (h_path h) of
        Inl _ \<Rightarrow> Some (Inr False, h, s)
      | Inr uri \<Rightarrow>
          if kind uri = FILE_ID then Some (Inr False, h, s)
          else
            let s = s\<lparr>paths := invalidate_prefix (path_key (h_auth h) (canonical_path_of uri)) (paths s)\<rparr> in
            (case try_resolve_path fe (create_client fe (h_auth h)) (h_auth h) uri s of
               None \<Rightarrow> None
             | Some (Inl e, s) \<Rightarrow> Some (Inl e, h, s)
             | Some (Inr None, s) \<Rightarrow> Some (Inr False, h, s)
             | Some (Inr (Some (m, _)), s) \<Rightarrow>
                 if meta_id m = meta_id (h_meta h) then Some (Inr False, h, s)
                 else Some (Inr True, h\<lparr>h_meta := m, block_key := build_block_key (h_auth h) m\<rparr>, s)))"

section \<open>One exact range\<close>

definition read_exact_range_tail :: "string \<Rightarrow> nat \<Rightarrow> nat \<Rightarrow> drive_response \<Rightarrow> string outcome" where
  "read_exact_range_tail path n loc resp =
     (let avail = length (resp_body resp);
          whole = (resp_status resp = 200 \<and> loc > 0) in
      if whole \<and> avail \<le> loc then
        Inl (IOException (''gdrive: server ignored Range on '' @ squote # path @ squote # '' and returned '' @
          decimal avail @ '' bytes, which does not reach offset '' @ decimal loc))
      else
        let src = (if whole then drop loc (resp_body resp) else resp_body resp) in
        if length src < n then
          Inl (IOException (''gdrive: short read on '' @ squote # path @ squote # '': requested '' @ decimal n @
            '' bytes at offset '' @ decimal loc @ '', got '' @ decimal (length src)))
        else Inr (take n src))"

section \<open>Reads\<close>

definition max_offset :: int where "max_offset = 2 ^ 63 - 1"

definition out_of_bounds :: "int \<Rightarrow> nat \<Rightarrow> bool" where
  "out_of_bounds nr_bytes loc \<longleftrightarrow>
     int loc > max_offset \<or> nr_bytes < 0 \<or> int loc > max_offset - nr_bytes"

text \<open>The read of a range through the block cache, with the one retry after a recovery.\<close>

definition read_with_recovery :: "'w fs_env \<Rightarrow> nat \<Rightarrow> nat \<Rightarrow> (string, 'w) on_handle" where
  "read_with_recovery fe n loc h s =
     (case read_via_block_cache fe n loc h s of
        None \<Rightarrow> None
      | Some (Inr d, _, s) \<Rightarrow> Some (Inr d, h, s)
      | Some (Inl e, nf, s) \<Rightarrow>
          if \<not> nf then Some (Inl e, h, s)
          else (case try_recover_stale_handle fe h s of
              None \<Rightarrow> None
            | Some (Inl e', h, s) \<Rightarrow> Some (Inl e', h, s)
            | Some (Inr False, h, s) \<Rightarrow> Some (Inl e, h, s)
            | Some (Inr True, h, s) \<Rightarrow>
                (case read_via_block_cache fe n loc h s of
                   None \<Rightarrow> None
                 | Some (r, _, s) \<Rightarrow> Some (r, h, s))))"

definition read_range :: "'w fs_env \<Rightarrow> nat \<Rightarrow> nat \<Rightarrow> (string, 'w) on_handle" where
  "read_range fe n loc h s =
     (let last = int loc + int n - 1;
          finish = (\<lambda>resp h s.
            Some (if \<not> resp_ok resp then throw_gdrive_error (resp_error resp) (h_path h)
                  else read_exact_range_tail (h_path h) n loc resp, h, s)) in
      case download (create_client fe (h_auth h)) (meta_id (h_meta h)) (int loc) last (world s) of
        (Inl e, w) \<Rightarrow> Some (Inl e, h, s\<lparr>world := w\<rparr>)
      | (Inr resp, w) \<Rightarrow>
          let s = s\<lparr>world := w\<rparr> in
          if \<not> resp_ok resp \<and> err_kind (resp_error resp) = NOT_FOUND then
            (case try_recover_stale_handle fe h s of
               None \<Rightarrow> None
             | Some (Inl e, h, s) \<Rightarrow> Some (Inl e, h, s)
             | Some (Inr False, h, s) \<Rightarrow> finish resp h s
             | Some (Inr True, h, s) \<Rightarrow>
                 (case download (create_client fe (h_auth h)) (meta_id (h_meta h)) (int loc) last (world s) of
                    (Inl e, w) \<Rightarrow> Some (Inl e, h, s\<lparr>world := w\<rparr>)
                  | (Inr resp, w) \<Rightarrow> finish resp h (s\<lparr>world := w\<rparr>)))
          else finish resp h s)"

definition fs_read_at :: "'w fs_env \<Rightarrow> int \<Rightarrow> nat \<Rightarrow> (string, 'w) on_handle" where
  "fs_read_at fe nr_bytes loc h s =
     (if nr_bytes = 0 then Some (Inr [], h, s)
      else if is_export h then
        let avail = (if length (export_buffer h) > loc then length (export_buffer h) - loc else 0);
            wanted = nat (nr_bytes mod 2 ^ 64);
            to_copy = min wanted avail in
        Some (if to_copy < wanted
              then Inl (IOException (''gdrive: short read past end of exported content for '' @ squote # h_path h @ [squote]))
              else Inr (take to_copy (drop loc (export_buffer h))), h, s)
      else if out_of_bounds nr_bytes loc then
        Some (Inl (IOException (''gdrive: read range out of bounds for '' @ squote # h_path h @ squote # '': offset '' @
          decimal loc @ '' length '' @ decimal_int nr_bytes)), h, s)
      else if h_block_size h > 0 \<and> meta_size (h_meta h) > 0 then read_with_recovery fe (nat nr_bytes) loc h s
      else read_range fe (nat nr_bytes) loc h s)"

text \<open>The sequential read: the bytes, at most \<open>nr_bytes\<close> of them and none at the end of the file.\<close>

definition fs_read :: "'w fs_env \<Rightarrow> int \<Rightarrow> (string, 'w) on_handle" where
  "fs_read fe nr_bytes h s =
     (let size = nat (meta_size (h_meta h) mod 2 ^ 64);
          remaining = (if size > h_position h then size - h_position h else 0);
          to_read = min remaining (nat (nr_bytes mod 2 ^ 64)) in
      if to_read = 0 then Some (Inr [], h, s)
      else (case fs_read_at fe (if to_read < 2 ^ 63 then int to_read else int to_read - 2 ^ 64) (h_position h) h s of
          None \<Rightarrow> None
        | Some (Inl e, h', s) \<Rightarrow> Some (Inl e, h', s)
        | Some (Inr d, h', s) \<Rightarrow> Some (Inr d, h'\<lparr>h_position := u64_add (h_position h) to_read\<rparr>, s)))"

section \<open>A read gives the bytes of the file\<close>

text \<open>
  What Drive documents of a download: the bytes of the range as a 206, or, when the range is ignored, the
  whole file as a 200.
\<close>

definition serves_bytes :: "'w drive_env \<Rightarrow> string \<Rightarrow> string \<Rightarrow> bool" where
  "serves_bytes client fid content \<longleftrightarrow> (\<forall>a n w. a + n \<le> length content \<longrightarrow> 0 < n \<longrightarrow>
     (\<exists>r w'. download client fid (int a) (int a + int n - 1) w = (Inr r, w') \<and> resp_ok r \<and>
        (resp_status r = 206 \<and> resp_body r = take n (drop a content) \<or> resp_status r = 200 \<and> resp_body r = content)))"

text \<open>
  The bytes kept for a block of a file are a prefix of the file from the start of the block, at least as
  long as the block; every block in the map is finished, as it is between the calls of one thread.
\<close>

definition block_of :: "string \<Rightarrow> nat \<Rightarrow> nat \<Rightarrow> string \<Rightarrow> bool" where
  "block_of content bs i d \<longleftrightarrow>
     (\<exists>n. d = take n (drop (i * bs) content)) \<and> min bs (length content - i * bs) \<le> length d"

definition blocks_good :: "string \<Rightarrow> nat \<Rightarrow> string \<Rightarrow> exn block_cache \<Rightarrow> bool" where
  "blocks_good key bs content c \<longleftrightarrow> accounts c \<and>
     (\<forall>k g b. ent c k = Some (g, b) \<longrightarrow> g \<le> next_generation c \<and> futures c g \<noteq> Pending \<and>
        (\<forall>i. k = full_key key bs i \<longrightarrow> (\<exists>d. futures c g = Ready d \<and> block_of content bs i d)))"

lemma blocks_goodD:
  "blocks_good key bs content c \<Longrightarrow> ent c k = Some (g, b) \<Longrightarrow>
   g \<le> next_generation c \<and> futures c g \<noteq> Pending \<and>
   (\<forall>i. k = full_key key bs i \<longrightarrow> (\<exists>d. futures c g = Ready d \<and> block_of content bs i d))"
  unfolding blocks_good_def by blast

lemma full_key_inject: "full_key key bs i = full_key key bs j \<longleftrightarrow> i = j"
  by (simp add: full_key_def decimal_inject)

lemma fetch_block_good:
  assumes "serves_bytes client fid content" "start < length content" "0 < bs"
  shows "\<exists>d w. fetch_block client fid path start (min bs (length content - start)) s = (Inr d, False, s\<lparr>world := w\<rparr>) \<and>
    (\<exists>n. d = take n (drop start content)) \<and> min bs (length content - start) \<le> length d"
proof -
  let ?n = "min bs (length content - start)"
  have "start + ?n \<le> length content" "0 < ?n" using assms(2,3) by auto
  with assms(1) obtain r w where r: "download client fid (int start) (int start + int ?n - 1) (world s) = (Inr r, w)"
    "resp_ok r" "resp_status r = 206 \<and> resp_body r = take ?n (drop start content) \<or> resp_status r = 200 \<and> resp_body r = content"
    unfolding serves_bytes_def by blast
  from r(3) show ?thesis
  proof
    assume "resp_status r = 206 \<and> resp_body r = take ?n (drop start content)"
    with r(1,2) show ?thesis by (auto simp: fetch_block_def intro!: exI [of _ ?n])
  next
    assume b: "resp_status r = 200 \<and> resp_body r = content"
    show ?thesis
    proof (cases "start > 0")
      case True
      with r(1,2) b assms(2) show ?thesis by (auto simp: fetch_block_def intro!: exI [of _ ?n])
    next
      case False
      with r(1,2) b show ?thesis by (auto simp: fetch_block_def intro!: exI [of _ "length content"])
    qed
  qed
qed

lemma fulfil_simps [simp]:
  "ent (fulfil g v c) = ent c" "accounts (fulfil g v c) = accounts c"
  "next_generation (fulfil g v c) = next_generation c" "futures (fulfil g v c) = (futures c)(g := v)"
  by (simp_all add: fulfil_def ent_def accounts_def fun_eq_iff)

lemma get_block_good:
  assumes good: "blocks_good key bs content (block_store s)" and serves: "serves_bytes client fid content"
    and i: "i * bs < length content" and len: "length content < 2 ^ 63" and bs: "0 < bs"
  shows "\<exists>d s'. get_block key i bs (length content) (fetch_block client fid path) s = Some (Inr d, False, s') \<and>
    blocks_good key bs content (block_store s') \<and> paths s' = paths s \<and> block_of content bs i d"
proof -
  let ?k = "full_key key bs i" and ?start = "i * bs"
  let ?len = "min bs (length content - ?start)"
  have range: "fetch_range i bs (length content) = (?start, ?len)"
    using i len by (simp add: fetch_range_def Let_def)
  obtain g new c where l: "lookup_or_insert ?k (block_store s) = ((g, new), c)" by (metis surj_pair)
  have acc: "accounts (block_store s)" using good by (simp add: blocks_good_def)
  note e = lookup_effect [OF acc l]
  show ?thesis
  proof (cases new)
    case False
    with e(4) obtain b where b: "ent c = ent (block_store s)" "next_generation c = next_generation (block_store s)"
      "ent (block_store s) ?k = Some (g, b)" by blast
    with blocks_goodD [OF good b(3)] e(3) obtain d where d: "futures c g = Ready d" "block_of content bs i d" by auto
    have "blocks_good key bs content c" using good e(1,3) b(1,2) by (simp add: blocks_good_def)
    with l False d show ?thesis by (simp add: get_block_def Let_def range)
  next
    case True
    with e(5) have n: "g = Suc (next_generation (block_store s))" "next_generation c = g"
      "ent c = (ent (block_store s))(?k \<mapsto> (g, 0))" by blast+
    from fetch_block_good [OF serves i bs, of path "s\<lparr>block_store := c\<rparr>"] obtain d w where
      f: "fetch_block client fid path ?start ?len (s\<lparr>block_store := c\<rparr>) = (Inr d, False, s\<lparr>block_store := c, world := w\<rparr>)"
      and d: "block_of content bs i d" by (auto simp: block_of_def)
    let ?c = "fulfil g (Ready d) (store_block ?k g d c)"
    have "\<forall>b. ent c ?k = Some (g, b) \<longrightarrow> b = 0" using n(3) by simp
    note st = store_effect [OF e(1) this]
    have "g' \<le> next_generation ?c \<and> futures ?c g' \<noteq> Pending \<and>
        (\<forall>j. k' = full_key key bs j \<longrightarrow> (\<exists>d'. futures ?c g' = Ready d' \<and> block_of content bs j d'))"
      if "ent ?c k' = Some (g', b')" for k' g' b'
    proof -
      from that consider (own) "k' = ?k" "g' = g" | (old) "ent (block_store s) k' = Some (g', b')" "k' \<noteq> ?k"
        using st(5) [of d k' g' b'] n(3) by (cases "k' = ?k") auto
      then show ?thesis
      proof cases
        case own
        with full_key_inject n(2) st(4) d show ?thesis by auto
      next
        case old
        from blocks_goodD [OF good old(1)] n(1,2) st(3,4) e(3) show ?thesis by auto
      qed
    qed
    moreover have "accounts ?c" using st(1) by simp
    ultimately have "blocks_good key bs content ?c" unfolding blocks_good_def by blast
    with l True f d show ?thesis by (simp add: get_block_def Let_def range)
  qed
qed

lemma block_slice:
  assumes "block_of content bs (pos div bs) d" "pos < length content" "0 < bs"
  shows "pos mod bs < length d"
    and "n \<le> length d - pos mod bs \<Longrightarrow> take n (drop (pos mod bs) d) = take n (drop pos content)"
proof -
  have split: "pos div bs * bs + pos mod bs = pos" by (rule div_mult_mod_eq)
  have "pos mod bs < bs" using assms(3) by simp
  moreover have "pos mod bs < length content - pos div bs * bs" using split assms(2) by linarith
  ultimately show w: "pos mod bs < length d" using assms(1) by (auto simp: block_of_def)
  from assms(1) obtain m where d: "d = take m (drop (pos div bs * bs) content)" by (auto simp: block_of_def)
  assume n: "n \<le> length d - pos mod bs"
  have "drop (pos mod bs) d = take (m - pos mod bs) (drop pos content)"
    unfolding d drop_take drop_drop using split by (simp add: add.commute)
  moreover have "n \<le> m - pos mod bs" using n d by auto
  ultimately show "take n (drop (pos mod bs) d) = take n (drop pos content)" by (simp add: min_absorb1)
qed

lemma read_blocks_good:
  assumes serves: "serves_bytes client (meta_id (h_meta h)) content" and len: "length content < 2 ^ 63"
    and bs: "0 < h_block_size h" and sz: "meta_size (h_meta h) = int (length content)"
  shows "blocks_good (block_key h) (h_block_size h) content (block_store s) \<Longrightarrow> pos + remaining \<le> length content \<Longrightarrow>
    \<exists>s'. read_blocks client h remaining pos copied s = Some (Inr (copied @ take remaining (drop pos content)), False, s') \<and>
      blocks_good (block_key h) (h_block_size h) content (block_store s') \<and> paths s' = paths s"
proof (induction remaining arbitrary: pos copied s rule: less_induct)
  case (less remaining)
  show ?case
  proof (cases "remaining = 0")
    case True
    with less.prems show ?thesis by (simp add: read_blocks.simps)
  next
    case False
    let ?bs = "h_block_size h" and ?i = "pos div h_block_size h"
    have pos: "pos < length content" using less.prems(2) False by simp
    have start: "?i * ?bs \<le> pos" by (rule div_times_less_eq_dividend)
    with pos have istart: "?i * ?bs < length content" by linarith
    obtain d s1 where g: "get_block (block_key h) ?i ?bs (length content)
        (fetch_block client (meta_id (h_meta h)) (h_path h)) s = Some (Inr d, False, s1)"
      "blocks_good (block_key h) ?bs content (block_store s1)" "paths s1 = paths s" "block_of content ?bs ?i d"
      using get_block_good [OF less.prems(1) serves istart len bs] by blast
    have "(2::nat) ^ 63 < 2 ^ 64" by simp
    with pos start len have small: "pos < 2 ^ 64" "?i * ?bs < 2 ^ 64" by linarith+
    have within: "u64_sub pos ((?i * ?bs) mod 2 ^ 64) = pos mod ?bs"
    proof -
      have "(?i * ?bs) mod 2 ^ 64 = ?i * ?bs" using small(2) by (rule mod_less)
      moreover have "pos - ?i * ?bs = pos mod ?bs" by (simp add: minus_div_mult_eq_mod)
      ultimately show ?thesis using u64_sub_exact [OF start small(1)] by simp
    qed
    note slice = block_slice [OF g(4) pos bs]
    let ?n = "min remaining (length d - pos mod ?bs)"
    have n: "0 < ?n" "?n \<le> remaining" using False slice(1) by auto
    have adv: "u64_add pos ?n = pos + ?n" using less.prems(2) n(2) len by (intro u64_add_exact) simp
    have "pos + ?n + (remaining - ?n) \<le> length content" using less.prems(2) n(2) by linarith
    from less.IH [OF _ g(2) this, of "copied @ take ?n (drop (pos mod ?bs) d)"] n False obtain s' where
      s': "read_blocks client h (remaining - ?n) (pos + ?n) (copied @ take ?n (drop (pos mod ?bs) d)) s1 =
        Some (Inr ((copied @ take ?n (drop (pos mod ?bs) d)) @ take (remaining - ?n) (drop (pos + ?n) content)), False, s')"
      "blocks_good (block_key h) ?bs content (block_store s')" "paths s' = paths s1" by auto
    have step: "read_blocks client h remaining pos copied s =
        read_blocks client h (remaining - ?n) (pos + ?n) (copied @ take ?n (drop (pos mod ?bs) d)) s1"
      using False g(1) sz slice(1) adv by (subst read_blocks.simps) (simp add: Let_def within [simplified])
    have "take ?n (drop (pos mod ?bs) d) @ take (remaining - ?n) (drop (pos + ?n) content) =
        take ?n (drop pos content) @ take (remaining - ?n) (drop ?n (drop pos content))"
      using slice(2) [of ?n] by (simp add: add.commute)
    also have "\<dots> = take (?n + (remaining - ?n)) (drop pos content)" by (rule take_add [symmetric])
    also have "?n + (remaining - ?n) = remaining" using n(2) by simp
    finally show ?thesis using s' step g(3) by (intro exI [of _ s']) simp
  qed
qed

section \<open>Properties\<close>

definition reads_file :: "'w fs_env \<Rightarrow> string \<Rightarrow> file_handle \<Rightarrow> 'w fs_state \<Rightarrow> bool" where
  "reads_file fe content h s \<longleftrightarrow>
     serves_bytes (create_client fe (h_auth h)) (meta_id (h_meta h)) content \<and>
     meta_size (h_meta h) = int (length content) \<and> length content < 2 ^ 63 \<and> \<not> is_export h \<and>
     blocks_good (block_key h) (h_block_size h) content (block_store s)"

lemma read_at_file:
  assumes "reads_file fe content h s" "loc + n \<le> length content"
  shows "\<exists>s'. fs_read_at fe (int n) loc h s = Some (Inr (take n (drop loc content)), h, s') \<and> reads_file fe content h s'"
proof (cases "n = 0")
  case True
  with assms show ?thesis by (simp add: fs_read_at_def)
next
  case False
  note r = assms(1) [unfolded reads_file_def]
  have inb: "\<not> out_of_bounds (int n) loc" using r assms(2) by (auto simp: out_of_bounds_def max_offset_def)
  have "0 < length content" using assms(2) False by linarith
  then have sz: "meta_size (h_meta h) > 0" using r by simp
  show ?thesis
  proof (cases "h_block_size h > 0")
    case True
    from r have rs: "serves_bytes (create_client fe (h_auth h)) (meta_id (h_meta h)) content"
      "length content < 2 ^ 63" "meta_size (h_meta h) = int (length content)"
      "blocks_good (block_key h) (h_block_size h) content (block_store s)" by blast+
    from read_blocks_good [OF rs(1,2) True rs(3,4) assms(2), of "[]"]
    obtain s' where s': "read_blocks (create_client fe (h_auth h)) h n loc [] s = Some (Inr (take n (drop loc content)), False, s')"
      "blocks_good (block_key h) (h_block_size h) content (block_store s')" by auto
    with r False inb True sz show ?thesis
      by (intro exI [of _ s']) (simp add: fs_read_at_def read_with_recovery_def read_via_block_cache_def reads_file_def)
  next
    case nb: False
    from r assms(2) False obtain resp w where
      d: "download (create_client fe (h_auth h)) (meta_id (h_meta h)) (int loc) (int loc + int n - 1) (world s) = (Inr resp, w)"
      "resp_ok resp" "resp_status resp = 206 \<and> resp_body resp = take n (drop loc content) \<or>
        resp_status resp = 200 \<and> resp_body resp = content"
      unfolding serves_bytes_def by blast
    have "read_exact_range_tail (h_path h) n loc resp = Inr (take n (drop loc content))"
      using d(3) assms(2) False by (auto simp: read_exact_range_tail_def Let_def)
    with d(1,2) r False nb inb show ?thesis
      by (auto simp: fs_read_at_def read_range_def reads_file_def Let_def)
  qed
qed

text \<open>
  C6. A positional read gives exactly the bytes of the file at that offset, whatever the block size, with
  the block cache or without it, whether Drive honours the range or answers with the whole file, and the
  cache it leaves holds only right blocks; the cursor does not move.
\<close>

theorem read_returns_file_bytes:
  assumes "serves_bytes (create_client fe (h_auth h)) (meta_id (h_meta h)) content"
    and "meta_size (h_meta h) = int (length content)" and "length content < 2 ^ 63" and "\<not> is_export h"
    and "blocks_good (block_key h) (h_block_size h) content (block_store s)" and "loc + n \<le> length content"
  shows "\<exists>s'. fs_read_at fe (int n) loc h s = Some (Inr (take n (drop loc content)), h, s') \<and>
    blocks_good (block_key h) (h_block_size h) content (block_store s')"
  using read_at_file [of fe content h s loc n] assms by (auto simp: reads_file_def)

text \<open>A sequence of sequential reads: the bytes they gave, one after the other.\<close>

fun read_pieces :: "'w fs_env \<Rightarrow> nat list \<Rightarrow> file_handle \<Rightarrow> 'w fs_state \<Rightarrow> (string \<times> file_handle \<times> 'w fs_state) option" where
  "read_pieces fe [] h s = Some ([], h, s)"
| "read_pieces fe (n # ns) h s =
     (case fs_read fe (int n) h s of
        Some (Inr d, h, s) \<Rightarrow> map_option (\<lambda>(d', h, s). (d @ d', h, s)) (read_pieces fe ns h s)
      | _ \<Rightarrow> None)"

lemma fs_read_file:
  assumes "reads_file fe content h s" "h_position h \<le> length content" "n < 2 ^ 63"
  shows "\<exists>s'. fs_read fe (int n) h s =
      Some (Inr (take n (drop (h_position h) content)),
        h\<lparr>h_position := min (h_position h + n) (length content)\<rparr>, s') \<and> reads_file fe content h s'"
proof -
  let ?p = "h_position h" and ?r = "length content - h_position h"
  have len: "length content < 2 ^ 63" "meta_size (h_meta h) = int (length content)"
    using assms(1) by (simp_all add: reads_file_def)
  have size: "nat (meta_size (h_meta h) mod 2 ^ 64) = length content" "nat (int n mod 2 ^ 64) = n"
    using len assms(3) by simp_all
  let ?k = "min ?r n"
  have "take ?k (drop ?p content) = take n (drop ?p content)"
    by (cases "n \<le> ?r") (simp_all add: min_absorb1 min_absorb2)
  then have k: "?p + ?k \<le> length content" "?k < 2 ^ 63" "take ?k (drop ?p content) = take n (drop ?p content)"
    using assms(2,3) by auto
  have pos: "?p + ?k = min (?p + n) (length content)" using assms(2) by auto
  have rem: "(if length content > ?p then length content - ?p else 0) = ?r" by simp
  show ?thesis
  proof (cases "?k = 0")
    case True
    then have "h_position h = min (?p + n) (length content)" "take n (drop ?p content) = []" using assms(2) by auto
    with True assms(1) show ?thesis unfolding fs_read_def Let_def size rem by (intro exI [of _ s]) simp
  next
    case False
    from read_at_file [OF assms(1) k(1)] obtain s' where
      s': "fs_read_at fe (int ?k) ?p h s = Some (Inr (take ?k (drop ?p content)), h, s')" "reads_file fe content h s'"
      by blast
    have "u64_add ?p ?k = ?p + ?k" using k(1) len(1) by (intro u64_add_exact) simp
    with s' k(2,3) pos False show ?thesis unfolding fs_read_def Let_def size rem by (intro exI [of _ s']) simp
  qed
qed

lemma reads_file_position [simp]: "reads_file fe content (h\<lparr>h_position := p\<rparr>) s \<longleftrightarrow> reads_file fe content h s"
  by (simp add: reads_file_def)

text \<open>
  Sequential reads run through the file: any sequence of them gives the bytes of the file in order
  from the cursor on, no byte twice and none left out, stops at its end, and leaves the cursor behind the
  last byte read.
\<close>

theorem sequential_reads_cover_file:
  assumes "reads_file fe content h s" and "h_position h \<le> length content" and "list_all (\<lambda>n. n < 2 ^ 63) ns"
  shows "\<exists>s'. read_pieces fe ns h s = Some (take (sum_list ns) (drop (h_position h) content),
    h\<lparr>h_position := min (h_position h + sum_list ns) (length content)\<rparr>, s')"
  using assms
proof (induction ns arbitrary: h s)
  case Nil
  then show ?case by simp
next
  case (Cons n ns)
  let ?p = "h_position h"
  let ?h = "h\<lparr>h_position := min (?p + n) (length content)\<rparr>"
  from fs_read_file [OF Cons.prems(1,2)] Cons.prems(3) obtain s1 where
    r: "fs_read fe (int n) h s = Some (Inr (take n (drop ?p content)), ?h, s1)" "reads_file fe content h s1" by auto
  from Cons.IH [of ?h s1] r(2) Cons.prems(3) obtain s' where
    s': "read_pieces fe ns ?h s1 = Some (take (sum_list ns) (drop (min (?p + n) (length content)) content),
      ?h\<lparr>h_position := min (min (?p + n) (length content) + sum_list ns) (length content)\<rparr>, s')" by auto
  have "drop (min (?p + n) (length content)) content = drop n (drop ?p content)"
    by (cases "?p + n \<le> length content") (simp_all add: add.commute min_def)
  then have "take n (drop ?p content) @ take (sum_list ns) (drop (min (?p + n) (length content)) content) =
      take (n + sum_list ns) (drop ?p content)" by (simp add: take_add)
  moreover have "min (min (?p + n) (length content) + sum_list ns) (length content) =
      min (?p + (n + sum_list ns)) (length content)" by simp
  ultimately show ?case using r(1) s' by simp
qed


text \<open>A server that answers every download with the whole file.\<close>

definition whole_file_env :: "unit drive_env" where
  "whole_file_env = lost_env
     \<lparr>exchange := (\<lambda>rq n. (\<lparr>transport_ok = True, status = 200, body = ''hello world'', retry_after = [],
        location = [], held_range = []\<rparr>, n))\<rparr>"

definition read_example :: file_handle where
  "read_example = (new_handle ''gdrive://a.txt'' (sample_meta\<lparr>meta_size := 11\<rparr>) my_auth)
     \<lparr>h_block_size := 4, block_key := build_block_key my_auth sample_meta, h_position := 3\<rparr>"

lemma whole_file_serves: "serves_bytes (create_client (plain_fs_env whole_file_env) my_auth) fid ''hello world''"
proof -
  have "\<exists>w'. download (create_client (plain_fs_env whole_file_env) my_auth) fid a b w =
      (Inr (no_response\<lparr>resp_ok := True, resp_status := 200, resp_body := ''hello world''\<rparr>), w')" for a b w
    by (simp add: download_def execute_with_retry_def execute_loop.simps do_http_def whole_file_env_def lost_env_def
        create_client_def plain_fs_env_def no_response_def Let_def)
  note dl = this
  show ?thesis
    unfolding serves_bytes_def
  proof (intro allI impI)
    fix a n w
    obtain w' where "download (create_client (plain_fs_env whole_file_env) my_auth) fid (int a) (int a + int n - 1) w =
        (Inr (no_response\<lparr>resp_ok := True, resp_status := 200, resp_body := ''hello world''\<rparr>), w')"
      using dl by blast
    then show "\<exists>r w'. download (create_client (plain_fs_env whole_file_env) my_auth) fid (int a) (int a + int n - 1) w = (Inr r, w') \<and>
        resp_ok r \<and> (resp_status r = 206 \<and> resp_body r = take n (drop a ''hello world'') \<or>
          resp_status r = 200 \<and> resp_body r = ''hello world'')"
      by (intro exI [of _ "no_response\<lparr>resp_ok := True, resp_status := 200, resp_body := ''hello world''\<rparr>"] exI [of _ w'])
         simp
  qed
qed

lemma read_example_reads: "reads_file (plain_fs_env whole_file_env) ''hello world'' read_example start_state"
  using whole_file_serves
  by (simp add: reads_file_def read_example_def new_handle_def start_state_def blocks_good_def accounts_def
      empty_block_cache_def ent_def total_bytes_def)

theorem read_returns_file_bytes_witness:
  "\<exists>s'. fs_read_at (plain_fs_env whole_file_env) 5 2 read_example start_state = Some (Inr ''llo w'', read_example, s')"
proof -
  have r: "serves_bytes (create_client (plain_fs_env whole_file_env) (h_auth read_example)) (meta_id (h_meta read_example)) ''hello world''"
    "meta_size (h_meta read_example) = int (length ''hello world'')" "length ''hello world'' < 2 ^ 63"
    "\<not> is_export read_example"
    "blocks_good (block_key read_example) (h_block_size read_example) ''hello world'' (block_store start_state)"
    using read_example_reads unfolding reads_file_def by blast+
  have "2 + 5 \<le> length ''hello world''" "take 5 (drop 2 ''hello world'') = ''llo w''" by simp_all
  with read_returns_file_bytes [OF r, of 2 5] show ?thesis by (metis of_nat_numeral)
qed

theorem sequential_reads_cover_file_witness:
  "\<exists>s'. read_pieces (plain_fs_env whole_file_env) [2, 5, 100] read_example start_state =
     Some (''lo world'', read_example\<lparr>h_position := 11\<rparr>, s')"
proof -
  have p: "h_position read_example = 3" by (simp add: read_example_def new_handle_def)
  have e: "take (sum_list [2, 5, 100]) (drop 3 ''hello world'') = ''lo world''"
    "min (3 + sum_list [2, 5, 100]) (length ''hello world'') = 11" "list_all (\<lambda>n::nat. n < 2 ^ 63) [2, 5, 100]"
    "3 \<le> length ''hello world''" by simp_all
  from sequential_reads_cover_file [OF read_example_reads, of "[2, 5, 100]"] show ?thesis unfolding p e using e(3,4) by blast
qed

end
