(* ===== verification/Frames.thy ===== *)
theory Frames
  imports Resolver
begin

text \<open>
  What an operation of the filesystem leaves alone, whatever its outcome: a relation between the state before
  and the state after that operations respect one after the other. The locale \<open>frame\<close> is the contract of such a
  relation; \<open>resolver_frame\<close> extends it by the four calls the resolver makes, and gives that resolving a path
  obeys the relation. Later theories interpret them: that only reads reach Drive, that cached metadata and
  blocks stay, that only requests of a kind are sent.
\<close>

definition obeys :: "('w fs_state \<Rightarrow> 'w fs_state \<Rightarrow> bool) \<Rightarrow> ('a, 'w) fs \<Rightarrow> bool" where
  "obeys rel f \<longleftrightarrow> (\<forall>s r s'. f s = Some (r, s') \<longrightarrow> rel s s')"

lemma obeysI: "(\<And>s r s'. f s = Some (r, s') \<Longrightarrow> rel s s') \<Longrightarrow> obeys rel f"
  unfolding obeys_def by blast

lemma obeysD: "obeys rel f \<Longrightarrow> f s = Some (r, s') \<Longrightarrow> rel s s'"
  unfolding obeys_def by blast

locale frame =
  fixes rel :: "'w fs_state \<Rightarrow> 'w fs_state \<Rightarrow> bool"
  assumes rel_refl: "rel s s"
    and rel_trans: "rel a b \<Longrightarrow> rel b c \<Longrightarrow> rel a c"
begin

lemma obeys_bind: "obeys rel m \<Longrightarrow> (\<And>x. obeys rel (f x)) \<Longrightarrow> obeys rel (fs_bind m f)"
  by (rule obeysI) (auto simp: fs_bind_Some dest: obeysD intro: rel_trans)

lemma obeys_still:
  "obeys rel (fs_ret x)" "obeys rel (fs_throw e)" "obeys rel (fs_error err ctx)" "obeys rel (fs_guard b e)"
  "obeys rel (throw_ambiguous ms ctx)"
  by (auto intro!: obeysI simp: rel_refl fs_guard_def throw_ambiguous_def split: if_splits)

end

locale resolver_frame = frame +
  assumes lists: "\<And>client pid nm folder ctx. obeys rel (list_by_name client pid nm folder ctx)"
    and looks: "\<And>nq q k. obeys rel (fs_paths (try_get nq q k))"
    and puts: "\<And>q k m. obeys rel (fs_paths_do (put q k m))"
    and fetches: "\<And>client fid ctx. obeys rel (fetch_metadata client fid ctx)"
begin

lemma obeys_walk: "obeys rel (resolve_segments fe client auth ctx segs canonical pid meta fresh)"
proof (induction segs arbitrary: canonical pid meta fresh)
  case (Cons seg rest)
  then show ?case
    by (auto simp: Let_def simp del: fs_paths_do_apply split: option.splits list.splits
        intro!: obeys_bind obeys_still lists looks puts)
qed (simp add: obeys_still)

lemma obeys_resolve: "kind uri = PATH \<Longrightarrow> obeys rel (try_resolve_path fe client auth uri)"
  unfolding try_resolve_path_def Let_def
  by (auto split: option.splits intro!: obeys_bind obeys_walk obeys_still fetches)

end

end
