(* ===== verification/Mutate.thy ===== *)
theory Mutate
  imports Frames
begin

text \<open>
  \<open>src/gdrive_mutate.cpp\<close>: removing, moving and creating, on an object found by its path. A removal or a
  move invalidates the cached paths it made wrong, after Drive accepted it.
\<close>

section \<open>Helpers\<close>

definition resolve_parent_id ::
    "'w fs_env \<Rightarrow> 'w drive_env \<Rightarrow> auth_context \<Rightarrow> string \<Rightarrow> (string, 'w) fs" where
  "resolve_parent_id fe client auth parent =
     (if parent = [] then fs_ret (root_folder_for auth)
      else case parse_gdrive_uri parent of
          Inl e \<Rightarrow> fs_throw (IOException (''gdrive: '' @ e))
        | Inr uri \<Rightarrow> fs_bind (resolve_path fe client auth uri) (\<lambda>m. fs_ret (meta_id m)))"

definition list_files_named_in_parent ::
    "'w drive_env \<Rightarrow> string \<Rightarrow> string \<Rightarrow> string \<Rightarrow> (drive_file_meta list, 'w) fs" where
  "list_files_named_in_parent client parent_id nm ctx =
     list_pages client (name_query parent_id nm False) ctx
       (''gdrive: malformed listing response resolving '' @ squote # ctx @ [squote]) [] []"

text \<open>A call whose failure is thrown.\<close>

definition checked :: "(drive_response, 'w) io \<Rightarrow> string \<Rightarrow> (drive_response, 'w) fs" where
  "checked m ctx = fs_bind (fs_io m) (\<lambda>resp. if resp_ok resp then fs_ret resp else fs_error (resp_error resp) ctx)"

definition invalidate_uri :: "auth_context \<Rightarrow> gdrive_uri \<Rightarrow> (unit, 'w) fs" where
  "invalidate_uri auth uri =
     (if kind uri = PATH then fs_paths_do (invalidate_prefix (path_key auth (canonical_path_of uri))) else fs_ret ())"

section \<open>Operations\<close>

definition mutate_remove_file ::
    "'w fs_env \<Rightarrow> 'w drive_env \<Rightarrow> auth_context \<Rightarrow> gdrive_uri \<Rightarrow> bool \<Rightarrow> (unit, 'w) fs" where
  "mutate_remove_file fe client auth uri permanent =
     fs_bind (resolve_path fe client auth uri) (\<lambda>m.
     fs_bind (fs_guard (\<not> is_folder m) (IOException (''gdrive: '' @ squote # to_string uri @ squote #
       '' is a directory -- use RemoveDirectory, not RemoveFile''))) (\<lambda>_.
     fs_bind (checked (delete_file client (meta_id m) permanent) (to_string uri)) (\<lambda>_.
     invalidate_uri auth uri)))"

definition mutate_remove_directory ::
    "'w fs_env \<Rightarrow> 'w drive_env \<Rightarrow> auth_context \<Rightarrow> gdrive_uri \<Rightarrow> bool \<Rightarrow> (unit, 'w) fs" where
  "mutate_remove_directory fe client auth uri permanent =
     fs_bind (resolve_path fe client auth uri) (\<lambda>m.
     fs_bind (fs_guard (is_folder m) (IOException (''gdrive: '' @ squote # to_string uri @ squote # '' is not a directory''))) (\<lambda>_.
     fs_bind (checked (delete_file client (meta_id m) permanent) (to_string uri)) (\<lambda>_.
     invalidate_uri auth uri)))"

definition mutate_create_directory ::
    "'w fs_env \<Rightarrow> 'w drive_env \<Rightarrow> auth_context \<Rightarrow> gdrive_uri \<Rightarrow> (unit, 'w) fs" where
  "mutate_create_directory fe client auth uri =
     fs_bind (fs_guard (kind uri = PATH \<and> segments uri \<noteq> []) (InvalidInputException
       (''gdrive: CreateDirectory needs a gdrive://path naming a folder, not '' @ squote # to_string uri @ [squote]))) (\<lambda>_.
     fs_bind (resolve_parent_id fe client auth (parent_path uri)) (\<lambda>parent_id.
     fs_bind (checked (upload client [] parent_id (file_name uri) folder_mime_type [] []) (to_string uri)) (\<lambda>_.
     fs_paths_do (invalidate_prefix (path_key auth (parent_path uri))))))"

text \<open>The objects that already carry the target's name, without the one that is moved.\<close>

definition others_at_dest :: "drive_file_meta \<Rightarrow> drive_file_meta list \<Rightarrow> drive_file_meta list" where
  "others_at_dest source existing = filter (\<lambda>m. meta_id m \<noteq> meta_id source) existing"

definition cannot_overwrite :: "gdrive_uri \<Rightarrow> drive_file_meta list \<Rightarrow> exn" where
  "cannot_overwrite target existing = IOException
     (''gdrive: cannot overwrite '' @ squote # to_string target @ squote # '': '' @ decimal (length existing) @
      '' files already share that name in the destination folder (ids: '' @ comma_list (map meta_id existing) @
      ''). Remove or rename them with the gdrive://id:<fileId> form before overwriting.'')"

definition mutate_move_file ::
    "'w fs_env \<Rightarrow> 'w drive_env \<Rightarrow> auth_context \<Rightarrow> gdrive_uri \<Rightarrow> gdrive_uri \<Rightarrow> bool \<Rightarrow> (unit, 'w) fs" where
  "mutate_move_file fe client auth source target permanent =
     fs_bind (fs_guard (kind target \<noteq> FILE_ID) (InvalidInputException
       ''gdrive: MoveFile target must be a gdrive://path naming the new location, not an id: form'')) (\<lambda>_.
     fs_bind (resolve_path fe client auth source) (\<lambda>source_meta.
     fs_bind (if kind source = PATH then resolve_parent_id fe client auth (parent_path source) else fs_ret [])
       (\<lambda>old_parent_id.
     fs_bind (fs_guard (file_name target \<noteq> []) (IOException
       (''gdrive: move target '' @ squote # to_string target @ squote # '' does not name a file''))) (\<lambda>_.
     fs_bind (resolve_parent_id fe client auth (parent_path target)) (\<lambda>new_parent_id.
     fs_bind (list_files_named_in_parent client new_parent_id (file_name target) (to_string target)) (\<lambda>found.
     let existing = others_at_dest source_meta found in
     fs_bind (fs_guard (length existing \<le> 1) (cannot_overwrite target existing)) (\<lambda>_.
     fs_bind (checked (move client (meta_id source_meta) new_parent_id (file_name target) old_parent_id) (to_string source)) (\<lambda>_.
     fs_bind (if length existing = 1
              then fs_bind (checked (delete_file client (meta_id (hd existing)) permanent) (to_string target)) (\<lambda>_. fs_ret ())
              else fs_ret ()) (\<lambda>_.
     fs_bind (invalidate_uri auth source) (\<lambda>_.
     invalidate_uri auth target))))))))))"

section \<open>What is sent to Drive\<close>

text \<open>\<open>quiet f\<close>: whatever the operation does, it sends no request that changes Drive.\<close>

definition only_reads :: "http_request list \<Rightarrow> bool" where
  "only_reads rqs \<longleftrightarrow> list_all (\<lambda>rq. rq_method rq = GET) rqs"

definition reads_only :: "'w world \<Rightarrow> 'w world \<Rightarrow> bool" where
  "reads_only w w' \<longleftrightarrow> (\<exists>rqs. sent w' = sent w @ rqs \<and> only_reads rqs)"

definition quiet :: "('a, 'w) fs \<Rightarrow> bool" where
  "quiet f \<longleftrightarrow> obeys (\<lambda>s s'. reads_only (world s) (world s')) f"

named_theorems quiet_intros \<open>operations that only read\<close>

lemma only_reads_append [simp]: "only_reads (a @ b) \<longleftrightarrow> only_reads a \<and> only_reads b"
  by (simp add: only_reads_def)

lemma only_reads_Nil [simp]: "only_reads []"
  by (simp add: only_reads_def)

lemma reads_only_refl [simp]: "reads_only w w"
  by (simp add: reads_only_def)

lemma reads_only_trans: "reads_only a b \<Longrightarrow> reads_only b c \<Longrightarrow> reads_only a c"
  unfolding reads_only_def by (metis append.assoc only_reads_append)

lemma reads_only_update [simp]:
  "reads_only w (w'\<lparr>net := n\<rparr>) \<longleftrightarrow> reads_only w w'" "reads_only (w\<lparr>net := n\<rparr>) w' \<longleftrightarrow> reads_only w w'"
  by (simp_all add: reads_only_def)

lemma quietI: "(\<And>s r s'. f s = Some (r, s') \<Longrightarrow> reads_only (world s) (world s')) \<Longrightarrow> quiet f"
  unfolding quiet_def by (rule obeysI)

lemma quietD: "quiet f \<Longrightarrow> f s = Some (r, s') \<Longrightarrow> reads_only (world s) (world s')"
  unfolding quiet_def by (rule obeysD)

interpretation reading: frame "\<lambda>s s'. reads_only (world s) (world s')"
  by unfold_locales (auto intro: reads_only_trans)

lemmas quiet_bind [quiet_intros] = reading.obeys_bind [folded quiet_def]

lemma quiet_ret [quiet_intros]: "quiet (fs_ret x)" "quiet (fs_throw e)" "quiet (fs_error err ctx)"
  "quiet (fs_guard b e)" "quiet (fs_paths f)" "quiet (fs_paths_do g)" "quiet (throw_ambiguous ms ctx)"
  by (auto intro!: quietI simp: fs_guard_def fs_paths_apply throw_ambiguous_def split: if_splits)

lemma execute_reads: "execute_with_retry env c w = (r, w') \<Longrightarrow> c_method c = GET \<Longrightarrow> reads_only w w'"
  using execute_with_retry_sent [of env c w]
  by (force simp: reads_only_def only_reads_def same_request_def list_all_iff split: prod.splits)

lemma list_loop_reads: "list_loop env query acc tok w = Some y \<Longrightarrow> reads_only w (snd y)"
proof (induction rule: list_loop.raw_induct [rotated, consumes 1, case_names step])
  case (step loop env query acc tok w y)
  obtain r w1 where e: "execute_with_retry env (list_call env query tok) w = (r, w1)" by fastforce
  have w1: "reads_only w w1" using execute_reads [OF e] by (simp add: list_call_def)
  obtain a b where y: "y = (a, b)" by fastforce
  show ?case
  proof (cases "b = w1")
    case True
    with w1 y show ?thesis by simp
  next
    case False
    with step(2) [unfolded y] e obtain acc' tok' where "loop env query acc' tok' w1 = Some y"
      by (auto simp: y split: sum.splits if_splits option.splits prod.splits)
    from reads_only_trans [OF w1 step(1) [OF this]] show ?thesis .
  qed
qed

lemma list_pages_reads:
  "list_pages client query ctx malformed matches token s = Some y \<Longrightarrow> reads_only (world s) (world (snd y))"
proof (induction rule: list_pages.raw_induct [rotated, consumes 1, case_names step])
  case (step loop client query ctx malformed matches token s y)
  from step(2) obtain r w where l: "list_loop client query [] token (world s) = Some (r, w)"
    by (auto split: option.splits)
  note w = list_loop_reads [OF l, unfolded snd_conv]
  obtain a b where y: "y = (a, b)" by fastforce
  show ?case
  proof (cases "world b = w")
    case False
    with step(2) [unfolded y] l obtain matches' token' where "loop client query ctx malformed matches' token' (s\<lparr>world := w\<rparr>) = Some y"
      by (auto simp: y split: sum.splits if_splits option.splits prod.splits)
    from reads_only_trans [OF w step(1) [OF this, simplified]] show ?thesis .
  qed (use w y in simp)
qed

lemma quiet_list [quiet_intros]:
  "quiet (list_by_name client pid nm folder ctx)" "quiet (list_files_named_in_parent client pid nm ctx)"
  "quiet (list_children client pid ctx)"
  by (auto intro!: quietI simp: list_by_name_def list_files_named_in_parent_def list_children_def
      dest: list_pages_reads)

lemma quiet_io: "(\<And>w r w'. m w = (r, w') \<Longrightarrow> reads_only w w') \<Longrightarrow> quiet (fs_io m)"
  by (rule quietI) (auto simp: fs_io_def split: prod.splits)

lemma quiet_fetch_metadata [quiet_intros]: "quiet (fetch_metadata client fid ctx)"
  unfolding fetch_metadata_def
proof (intro quiet_bind quiet_io)
  show "reads_only w w'" if "get_metadata client fid w = (r, w')" for w r w'
    using execute_reads [OF that [unfolded get_metadata_def]] by simp
  show "quiet (if \<not> resp_ok x then if err_kind (resp_error x) = NOT_FOUND then fs_ret None else fs_error (resp_error x) ctx
      else case parse_file_meta (parse_json client) (resp_body x) of
          None \<Rightarrow> fs_throw (IOException (''gdrive: malformed metadata response for '' @ squote # ctx @ [squote]))
        | Some m \<Rightarrow> fs_ret (Some m))" for x
    by (auto intro: quiet_intros split: option.splits)
qed

lemma quiet_get_or_fetch [quiet_intros]: "quiet fetch \<Longrightarrow> quiet (get_or_fetch_metadata key fid fetch)"
  by (rule quietI)
     (auto simp: get_or_fetch_metadata_def dest!: quietD split: metadata_plan.splits option.splits sum.splits
       prod.splits meta_answer.splits)

interpretation read_resolving: resolver_frame "\<lambda>s s'. reads_only (world s) (world s')"
  by unfold_locales (unfold quiet_def [symmetric], (rule quiet_intros)+)

lemmas quiet_resolve_segments [quiet_intros] = read_resolving.obeys_walk [folded quiet_def]

lemma quiet_try_resolve [quiet_intros]: "quiet (try_resolve_path fe client auth uri)"
  unfolding try_resolve_path_def Let_def
  by (auto intro!: quiet_intros split: option.splits)

lemma quiet_resolve [quiet_intros]: "quiet (resolve_path fe client auth uri)"
  unfolding resolve_path_def by (auto intro!: quiet_intros split: option.splits)

lemma quiet_resolve_parent [quiet_intros]: "quiet (resolve_parent_id fe client auth parent)"
  unfolding resolve_parent_id_def by (auto intro!: quiet_intros split: sum.splits)

lemma quiet_invalidate [quiet_intros]: "quiet (invalidate_uri auth uri)"
  unfolding invalidate_uri_def by (auto intro!: quiet_intros)

text \<open>
  \<open>traced Q f\<close>: a run of \<open>f\<close> only reads and throws, or it only reads and what follows satisfies \<open>Q\<close>, a
  relation of the world before, the outcome and the world after.
\<close>

definition traced :: "('w world \<Rightarrow> 'a outcome \<Rightarrow> 'w world \<Rightarrow> bool) \<Rightarrow> ('a, 'w) fs \<Rightarrow> bool" where
  "traced Q f \<longleftrightarrow> (\<forall>s r s'. f s = Some (r, s') \<longrightarrow>
     reads_only (world s) (world s') \<and> isl r \<or> (\<exists>w. reads_only (world s) w \<and> Q w r (world s')))"

lemma traced_bind: "quiet m \<Longrightarrow> (\<And>x. traced Q (f x)) \<Longrightarrow> traced Q (fs_bind m f)"
  unfolding traced_def
proof (intro allI impI)
  fix s r s'
  assume q: "quiet m" and f: "\<And>x. \<forall>s r s'. f x s = Some (r, s') \<longrightarrow>
     reads_only (world s) (world s') \<and> isl r \<or> (\<exists>w. reads_only (world s) w \<and> Q w r (world s'))"
    and "fs_bind m f s = Some (r, s')"
  then consider e where "m s = Some (Inl e, s')" "r = Inl e" | x t where "m s = Some (Inr x, t)" "f x t = Some (r, s')"
    by (auto simp: fs_bind_Some)
  then show "reads_only (world s) (world s') \<and> isl r \<or> (\<exists>w. reads_only (world s) w \<and> Q w r (world s'))"
  proof cases
    case 2
    from quietD [OF q 2(1)] f [rule_format, OF 2(2)] show ?thesis by (blast intro: reads_only_trans)
  qed (use quietD [OF q] in auto)
qed

lemma traced_bind_ok:
  "quiet m \<Longrightarrow> (\<And>x s s'. m s = Some (Inr x, s') \<Longrightarrow> traced Q (f x)) \<Longrightarrow> traced Q (fs_bind m f)"
  unfolding traced_def
proof (intro allI impI)
  fix s r s'
  assume q: "quiet m" and f: "\<And>x s s'. m s = Some (Inr x, s') \<Longrightarrow> \<forall>s r s'. f x s = Some (r, s') \<longrightarrow>
     reads_only (world s) (world s') \<and> isl r \<or> (\<exists>w. reads_only (world s) w \<and> Q w r (world s'))"
    and "fs_bind m f s = Some (r, s')"
  then consider e where "m s = Some (Inl e, s')" "r = Inl e" | x t where "m s = Some (Inr x, t)" "f x t = Some (r, s')"
    by (auto simp: fs_bind_Some)
  then show "reads_only (world s) (world s') \<and> isl r \<or> (\<exists>w. reads_only (world s) w \<and> Q w r (world s'))"
  proof cases
    case 2
    from quietD [OF q 2(1)] f [OF 2(1), rule_format, OF 2(2)] show ?thesis by (blast intro: reads_only_trans)
  qed (use quietD [OF q] in auto)
qed

lemma traced_now:
  assumes "\<And>s r s'. f s = Some (r, s') \<Longrightarrow> Q (world s) r (world s')"
  shows "traced Q f"
  unfolding traced_def using assms reads_only_refl by blast

section \<open>Properties\<close>

text \<open>
  What may follow the reads of a move: the call that moves the source, and, when Drive accepted it and
  another object carried the name, the call that deletes that one.
\<close>

definition move_then_delete ::
    "'w drive_env \<Rightarrow> gdrive_uri \<Rightarrow> bool \<Rightarrow> 'w world \<Rightarrow> unit outcome \<Rightarrow> 'w world \<Rightarrow> bool" where
  "move_then_delete client target permanent w r w' \<longleftrightarrow>
     (\<exists>src pid old m w2. move client src pid (file_name target) old w = (m, w2) \<and>
        (isl m \<and> isl r \<and> w' = w2 \<or>
         (\<exists>resp. m = Inr resp \<and> \<not> resp_ok resp) \<and> isl r \<and> w' = w2 \<or>
         (\<exists>resp. m = Inr resp \<and> resp_ok resp) \<and>
           (r = Inr () \<and> w' = w2 \<or>
            (\<exists>victim d. victim \<noteq> src \<and> delete_file client victim permanent w2 = (d, w') \<and>
               (r = Inr () \<longleftrightarrow> (\<exists>resp. d = Inr resp \<and> resp_ok resp))))))"

lemma checked_Some:
  "checked m ctx s = Some (r, s') \<longleftrightarrow>
     (\<exists>x w. m (world s) = (x, w) \<and> s' = s\<lparr>world := w\<rparr> \<and>
        (case x of Inl e \<Rightarrow> r = Inl e
         | Inr resp \<Rightarrow> r = (if resp_ok resp then Inr resp else throw_gdrive_error (resp_error resp) ctx)))"
  by (auto simp: checked_def fs_bind_def fs_io_def split: prod.splits sum.splits)

lemma isl_throw_gdrive_error [simp]: "isl (throw_gdrive_error e ctx)"
  by (simp add: throw_gdrive_error_def Let_def)

lemma invalidate_uri_apply:
  "invalidate_uri auth uri s = Some (Inr (), s\<lparr>paths :=
     (if kind uri = PATH then invalidate_prefix (path_key auth (canonical_path_of uri)) (paths s) else paths s)\<rparr>)"
  by (simp add: invalidate_uri_def)

lemma move_tail_traced:
  assumes "length existing \<le> 1" "existing = others_at_dest source_meta found"
    and "fs_bind (checked (move client (meta_id source_meta) pid (file_name target) old) ctx) (\<lambda>_.
       fs_bind (if length existing = 1
                then fs_bind (checked (delete_file client (meta_id (hd existing)) permanent) ctx') (\<lambda>_. fs_ret ())
                else fs_ret ()) (\<lambda>_.
       fs_bind (invalidate_uri auth source) (\<lambda>_. invalidate_uri auth target))) s = Some (r, s')"
  shows "move_then_delete client target permanent (world s) r (world s')"
proof -
  obtain m w2 where m: "move client (meta_id source_meta) pid (file_name target) old (world s) = (m, w2)" by fastforce
  show ?thesis
  proof (cases "\<exists>resp. m = Inr resp \<and> resp_ok resp")
    case False
    with assms(3) m have "isl r \<and> world s' = w2"
      by (cases m) (auto simp: fs_bind_def [of "checked _ _"] checked_def fs_bind_def fs_io_def throw_gdrive_error_def Let_def)
    moreover have "isl m \<or> (\<exists>resp. m = Inr resp \<and> \<not> resp_ok resp)" using False by (cases m) auto
    ultimately show ?thesis using m unfolding move_then_delete_def by blast
  next
    case True
    then obtain resp where resp: "m = Inr resp" "resp_ok resp" by blast
    show ?thesis
    proof (cases "length existing = 1")
      case False
      with assms(3) m resp have "r = Inr () \<and> world s' = w2"
        by (auto simp: checked_def fs_bind_def fs_io_def invalidate_uri_apply)
      with m resp show ?thesis unfolding move_then_delete_def by blast
    next
      case one: True
      then obtain v where v: "existing = [v]" by (cases existing) auto
      then have "v \<in> set (others_at_dest source_meta found)" using assms(2) by simp
      then have ne: "meta_id v \<noteq> meta_id source_meta" by (auto simp: others_at_dest_def)
      obtain d w3 where d: "delete_file client (meta_id v) permanent w2 = (d, w3)" by fastforce
      from assms(3) m resp v d have "world s' = w3 \<and> (r = Inr () \<longleftrightarrow> (\<exists>resp. d = Inr resp \<and> resp_ok resp))"
        by (cases d)
           (auto simp: checked_def fs_bind_def fs_io_def invalidate_uri_apply throw_gdrive_error_def Let_def
             split: if_split_asm)
      with m resp ne d show ?thesis unfolding move_then_delete_def by blast
    qed
  qed
qed


section \<open>A run that overwrites\<close>

text \<open>
  A folder \<open>d\<close> with the files \<open>a.csv\<close> and \<open>b.csv\<close>, on a server that accepts every change with status 200:
  a move and a move to the trash succeed, a permanent deletion, which expects 204, fails.
\<close>

definition folder_d :: drive_file_meta where
  "folder_d = sample_meta\<lparr>meta_id := ''d1'', meta_name := ''d'', mime_type := folder_mime_type\<rparr>"

definition victim :: drive_file_meta where
  "victim = sample_meta\<lparr>meta_id := ''x2'', meta_name := ''b.csv''\<rparr>"

definition two_files_env :: "unit drive_env" where
  "two_files_env = table_env [(list_path (name_query ''d1'' ''a.csv'' False), [sample_meta]),
     (list_path (name_query ''d1'' ''b.csv'' False), [victim])]"

definition path_uri :: "string list \<Rightarrow> gdrive_uri" where
  "path_uri segs = \<lparr>kind = PATH, file_id = [], segments = segs\<rparr>"

text \<open>Both parents and the source are cached already.\<close>

definition warm_state :: "unit fs_state" where
  "warm_state = start_state\<lparr>paths := put 3 (path_key my_auth ''d/a.csv'') sample_meta
     (put 3 (path_key my_auth ''d'') folder_d empty_path_cache)\<rparr>"

lemma list_files_eq: "list_files_named_in_parent client pid nm ctx = list_by_name client pid nm False ctx"
  by (simp add: list_files_named_in_parent_def list_by_name_def)

lemma warm_paths: "path_inv (paths warm_state)" "max_entries (paths warm_state) = 0"
  "view (paths warm_state) (path_key my_auth ''d/a.csv'') = Some (sample_meta, 3)"
  "view (paths warm_state) (path_key my_auth ''d'') = Some (folder_d, 3)"
proof -
  have wf: "wf_key (path_key my_auth p)" for p by (simp add: my_auth_def wf_auth_def wf_identity_def)
  have e: "path_inv empty_path_cache" "max_entries empty_path_cache = 0"
    by (simp_all add: empty_path_cache_def path_inv_def)
  note one = put_unbounded [where k = "path_key my_auth ''d''" and q = 3 and m = folder_d, OF e wf]
  note two = put_unbounded [where k = "path_key my_auth ''d/a.csv''" and q = 3 and m = sample_meta, OF one(1,2) wf]
  show "path_inv (paths warm_state)" "max_entries (paths warm_state) = 0"
    "view (paths warm_state) (path_key my_auth ''d/a.csv'') = Some (sample_meta, 3)"
    "view (paths warm_state) (path_key my_auth ''d'') = Some (folder_d, 3)"
    using two(1,2) two(3) [OF wf] one(3) [OF wf] by (simp_all add: warm_state_def)
qed

text \<open>\<open>warm s\<close>: an unbounded cache that knows the folder and the source.\<close>

definition warm :: "'w fs_state \<Rightarrow> bool" where
  "warm s \<longleftrightarrow> path_inv (paths s) \<and> max_entries (paths s) = 0 \<and>
     view (paths s) (path_key my_auth ''d/a.csv'') = Some (sample_meta, 3) \<and>
     view (paths s) (path_key my_auth ''d'') = Some (folder_d, 3)"

lemma wf_my_auth [simp]: "wf_auth my_auth"
  by (simp add: my_auth_def wf_auth_def wf_identity_def)

lemma warm_start: "warm warm_state"
  using warm_paths by (simp add: warm_def)

lemma warm_world [simp]: "warm (s\<lparr>world := w\<rparr>) \<longleftrightarrow> warm s"
  by (simp add: warm_def)

lemma warm_hit:
  assumes "warm s" "(p, m) \<in> {(''d'', folder_d), (''d/a.csv'', sample_meta)}"
  shows "\<exists>f c. try_get nq q (path_key my_auth p) (paths s) = (Some (m, f), c) \<and> warm (s\<lparr>paths := c\<rparr>)"
proof -
  let ?get = "try_get nq q (path_key my_auth p) (paths s)"
  have g: "grows (paths s) (snd ?get)" using grows_get [of "paths s" "path_key my_auth p"] assms(1) by (simp add: warm_def)
  have v: "view (paths s) (path_key my_auth p) = Some (m, 3)" using assms by (auto simp: warm_def)
  then have "fst ?get \<noteq> None" by (simp add: try_get_miss)
  then obtain m' f where h: "fst ?get = Some (m', f)" by auto
  from try_get_hit [OF h] v have "m' = m" by auto
  moreover have "warm (s\<lparr>paths := snd ?get\<rparr>)"
    using g growsD [OF g] assms(1) by (simp add: warm_def grows_def)
  ultimately show ?thesis using h by (intro exI [of _ f] exI [of _ "snd ?get"]) (simp add: prod_eq_iff)
qed

lemma resolve_source:
  assumes "warm s"
  shows "\<exists>s'. resolve_path fe client my_auth (path_uri [''d'', ''a.csv'']) s = Some (Inr sample_meta, s') \<and> warm s' \<and>
    world s' = world s"
proof -
  obtain f c where c: "try_get (no_query fe) (active_query fe) (path_key my_auth ''d'') (paths s) = (Some (folder_d, f), c)"
    "warm (s\<lparr>paths := c\<rparr>)" using warm_hit [OF assms, of "''d''" folder_d] by blast
  obtain f' c' where c': "try_get (no_query fe) (active_query fe) (path_key my_auth ''d/a.csv'') c = (Some (sample_meta, f'), c')"
    "warm (s\<lparr>paths := c'\<rparr>)" using warm_hit [OF c(2), of "''d/a.csv''" sample_meta "no_query fe" "active_query fe"] by auto
  have "append_segment [] ''d'' = ''d''" "append_segment ''d'' ''a.csv'' = ''d/a.csv''"
    by (simp_all add: append_segment_def)
  with c c' show ?thesis
    by (simp add: resolve_path_def try_resolve_path_def path_uri_def fs_bind_def fs_paths_apply Let_def)
qed

lemma parse_parent: "parse_gdrive_uri (parent_path (path_uri [''d'', nm])) = Inr (path_uri [''d''])"
proof -
  have "parent_path (path_uri [''d'', nm]) = ''gdrive://d''" by (simp add: parent_path_def path_uri_def scheme_def)
  moreover have "parse_gdrive_uri ''gdrive://d'' = Inr (path_uri [''d''])" by code_simp
  ultimately show ?thesis by simp
qed

lemma resolve_parent_d:
  assumes "warm s"
  shows "\<exists>s'. resolve_parent_id fe client my_auth (parent_path (path_uri [''d'', nm])) s = Some (Inr ''d1'', s') \<and>
    warm s' \<and> world s' = world s"
proof -
  obtain f c where c: "try_get (no_query fe) (active_query fe) (path_key my_auth ''d'') (paths s) = (Some (folder_d, f), c)"
    "warm (s\<lparr>paths := c\<rparr>)" using warm_hit [OF assms, of "''d''" folder_d] by blast
  have "append_segment [] ''d'' = ''d''" "parent_path (path_uri [''d'', nm]) \<noteq> []" "meta_id folder_d = ''d1''"
    by (simp_all add: append_segment_def parent_path_def path_uri_def scheme_def folder_d_def)
  with c parse_parent show ?thesis
    by (simp add: resolve_parent_id_def resolve_path_def try_resolve_path_def path_uri_def [of "[''d'']"] fs_bind_def
        fs_paths_apply Let_def)
qed

lemma two_files_move: "\<exists>resp w'. move two_files_env fid pid nm old w = (Inr resp, w') \<and> resp_ok resp"
  by (simp add: move_def execute_with_retry_def execute_loop.simps do_http_def two_files_env_def table_env_def lost_env_def Let_def)

lemma two_files_delete:
  "\<exists>resp w'. delete_file two_files_env fid permanent w = (Inr resp, w') \<and> (resp_ok resp \<longleftrightarrow> \<not> permanent)"
proof (cases permanent)
  case False
  then show ?thesis
    by (simp add: delete_file_def execute_with_retry_def execute_loop.simps do_http_def two_files_env_def table_env_def
        lost_env_def Let_def)
next
  case True
  have "parse_error_body (parse_json two_files_env) b = empty_body" for b
    by (simp add: parse_error_body_def parse_object_def object_member_def two_files_env_def table_env_def listing_to_json_def)
  then have "err_kind (classify_drive_error (parse_json two_files_env) 200 b []) = UNKNOWN" for b
    by (simp add: classify_drive_error_def empty_body_def classify_from_status_def Let_def)
  moreover have "exchange two_files_env rq n = (\<lparr>transport_ok = True, status = 200, body = rq_path rq, retry_after = [],
      location = [], held_range = []\<rparr>, n)" "token_of two_files_env n = (Inr ''tok'', n)" for rq n
    by (simp_all add: two_files_env_def table_env_def lost_env_def)
  ultimately show ?thesis using True
    by (simp add: delete_file_def execute_with_retry_def execute_loop.simps do_http_def try_refresh_def is_retryable_def Let_def)
qed

lemma overwrite_run:
  "\<exists>r s'. mutate_move_file fe two_files_env my_auth (path_uri [''d'', ''a.csv'']) (path_uri [''d'', ''b.csv''])
     permanent warm_state = Some (r, s') \<and> (isl r \<longleftrightarrow> permanent)"
proof -
  let ?a = "path_uri [''d'', ''a.csv'']" and ?b = "path_uri [''d'', ''b.csv'']"
  obtain s1 where s1: "resolve_path fe two_files_env my_auth ?a warm_state = Some (Inr sample_meta, s1)" "warm s1"
    using resolve_source [OF warm_start] by blast
  obtain s2 where s2: "resolve_parent_id fe two_files_env my_auth (parent_path ?a) s1 = Some (Inr ''d1'', s2)" "warm s2"
    using resolve_parent_d [OF s1(2)] by blast
  obtain s3 where s3: "resolve_parent_id fe two_files_env my_auth (parent_path ?b) s2 = Some (Inr ''d1'', s3)" "warm s3"
    using resolve_parent_d [OF s2(2)] by blast
  have "wf_table [(list_path (name_query ''d1'' ''a.csv'' False), [sample_meta]),
     (list_path (name_query ''d1'' ''b.csv'' False), [victim])]"
    by (simp add: wf_table_def list_path_inject name_query_iff) (simp add: victim_def wf_meta_def sample_meta_def)
  from table_lists [OF this, of "''d1''" "''b.csv''" False "to_string ?b" s3]
  obtain w where w: "list_files_named_in_parent two_files_env ''d1'' ''b.csv'' (to_string ?b) s3 =
      Some (Inr [victim], s3\<lparr>world := w\<rparr>)"
    by (auto simp: list_files_eq two_files_env_def table_lookup_def list_path_inject name_query_iff)
  obtain resp w1 where m: "move two_files_env ''x1'' ''d1'' ''b.csv'' ''d1'' w = (Inr resp, w1)" "resp_ok resp"
    using two_files_move by blast
  obtain resp' w2 where d: "delete_file two_files_env ''x2'' permanent w1 = (Inr resp', w2)" "resp_ok resp' \<longleftrightarrow> \<not> permanent"
    using two_files_delete by blast
  have names: "kind ?a = PATH" "kind ?b = PATH" "file_name ?b = ''b.csv''" "meta_id sample_meta = ''x1''" "meta_id victim = ''x2''"
    "others_at_dest sample_meta [victim] = [victim]"
    by (simp_all add: path_uri_def file_name_def sample_meta_def victim_def others_at_dest_def)
  have list: "list_files_named_in_parent two_files_env ''d1'' ''b.csv'' (to_string ?b) s3 = Some (Inr [victim], s3\<lparr>world := w\<rparr>)"
    using w .
  show ?thesis
    using s1 s2 s3 list m d
    by (cases permanent)
       (simp_all add: mutate_move_file_def fs_guard_def fs_bind_def names checked_def fs_io_def invalidate_uri_apply
         throw_gdrive_error_def Let_def)
qed


section \<open>The cache after a change\<close>

text \<open>
  \<open>keeps P m\<close>: when \<open>m\<close> ends with an outcome in \<open>P\<close>, an unbounded cache still holds every path it held.
\<close>

definition keeps :: "('a outcome \<Rightarrow> bool) \<Rightarrow> ('a, 'w) fs \<Rightarrow> bool" where
  "keeps P m \<longleftrightarrow> (\<forall>s r s'. m s = Some (r, s') \<longrightarrow> P r \<longrightarrow> path_inv (paths s) \<longrightarrow> max_entries (paths s) = 0 \<longrightarrow>
     grows (paths s) (paths s'))"

abbreviation keeps_all :: "('a, 'w) fs \<Rightarrow> bool" where
  "keeps_all m \<equiv> keeps (\<lambda>_. True) m"

named_theorems keeps_intros \<open>operations that lose no cached path\<close>

lemma keepsI:
  "(\<And>s r s'. m s = Some (r, s') \<Longrightarrow> P r \<Longrightarrow> path_inv (paths s) \<Longrightarrow> max_entries (paths s) = 0 \<Longrightarrow>
     grows (paths s) (paths s')) \<Longrightarrow> keeps P m"
  unfolding keeps_def by blast

lemma keepsD:
  "keeps P m \<Longrightarrow> m s = Some (r, s') \<Longrightarrow> P r \<Longrightarrow> path_inv (paths s) \<Longrightarrow> max_entries (paths s) = 0 \<Longrightarrow>
     grows (paths s) (paths s')"
  unfolding keeps_def by blast

lemma keeps_bind:
  assumes "keeps_all m" "\<And>x. keeps P (f x)"
  shows "keeps P (fs_bind m f)"
proof (rule keepsI)
  fix s r s'
  assume a: "fs_bind m f s = Some (r, s')" "P r" "path_inv (paths s)" "max_entries (paths s) = 0"
  then consider e where "m s = Some (Inl e, s')" | x t where "m s = Some (Inr x, t)" "f x t = Some (r, s')"
    by (auto simp: fs_bind_Some)
  then show "grows (paths s) (paths s')"
  proof cases
    case 1
    from keepsD [OF assms(1) this] a show ?thesis by simp
  next
    case 2
    from keepsD [OF assms(1) 2(1)] a have g: "grows (paths s) (paths t)" by simp
    with keepsD [OF assms(2) 2(2) a(2)] show ?thesis by (simp add: grows_def)
  qed
qed

lemma keeps_same: "(\<And>s r s'. m s = Some (r, s') \<Longrightarrow> paths s' = paths s) \<Longrightarrow> keeps P m"
  by (rule keepsI) (simp add: grows_refl)

lemma keeps_simple [keeps_intros]:
  "keeps P (fs_ret x)" "keeps P (fs_throw e)" "keeps P (fs_error err ctx)" "keeps P (fs_io io)"
  "keeps P' (list_files_named_in_parent client pid nm ctx)" "keeps P'' (fetch_metadata client fid ctx)" "keeps P3 (fs_guard b e)"
  by (rule keeps_same; auto simp: fs_guard_def fs_io_def list_files_eq dest: list_by_name_paths fetch_metadata_paths
      split: if_splits prod.splits)+

lemma keeps_checked [keeps_intros]: "keeps P (checked m ctx)"
  by (rule keeps_same) (auto simp: checked_Some)

text \<open>The metadata of an id is kept apart from the paths.\<close>

lemma grows_entries: "path_inv c \<Longrightarrow> max_entries c = 0 \<Longrightarrow> entries c' = entries c \<Longrightarrow> max_entries c' = 0 \<Longrightarrow> grows c c'"
  by (simp add: grows_def path_inv_def view_def)

lemma metadata_ops_entries [simp]:
  "entries (snd (metadata_lookup k fid c)) = entries c" "max_entries (snd (metadata_lookup k fid c)) = max_entries c"
  "entries (metadata_erase k fid c) = entries c" "max_entries (metadata_erase k fid c) = max_entries c"
  "entries (metadata_resolve p a c) = entries c" "max_entries (metadata_resolve p a c) = max_entries c"
  by (simp_all add: metadata_lookup_def metadata_erase_def metadata_resolve_def Let_def split: option.split)

lemma get_or_fetch_entries:
  assumes "get_or_fetch_metadata key fid (fetch_metadata client fid' ctx) s = Some (r, s')"
  shows "entries (paths s') = entries (paths s) \<and> max_entries (paths s') = max_entries (paths s)"
proof -
  obtain plan c where l: "metadata_lookup key fid (paths s) = (plan, c)" by fastforce
  have c: "entries c = entries (paths s)" "max_entries c = max_entries (paths s)"
    using metadata_ops_entries(1,2) [of key fid "paths s"] by (simp_all add: l)
  show ?thesis
    using assms c fetch_metadata_paths [of client fid' ctx "s\<lparr>paths := c\<rparr>"]
    by (cases plan) (fastforce simp: get_or_fetch_metadata_def l split: option.splits sum.splits prod.splits meta_answer.splits)+
qed

lemma keeps_try_resolve [keeps_intros]:
  assumes "wf_auth auth"
  shows "keeps P (try_resolve_path fe client auth uri)"
proof (rule keepsI)
  fix s r s'
  assume r: "try_resolve_path fe client auth uri s = Some (r, s')" and inv: "path_inv (paths s)" "max_entries (paths s) = 0"
  show "grows (paths s) (paths s')"
  proof (cases "kind uri")
    case PATH
    from try_resolve_path_walk [OF r PATH] obtain r1 t where
      t: "resolve_segments fe client auth (to_string uri) (segments uri) [] (root_folder_for auth) None False s = Some (r1, t)"
      "paths s' = paths t" by blast
    from resolve_segments_grows [OF assms t(1) inv] t(2) show ?thesis by simp
  next
    case FILE_ID
    with r obtain r1 where
      "get_or_fetch_metadata (path_key auth []) (file_id uri) (fetch_metadata client (file_id uri) (to_string uri)) s = Some (r1, s')"
      by (auto simp: try_resolve_path_def fs_bind_Some Let_def)
    from get_or_fetch_entries [OF this] inv show ?thesis by (simp add: grows_entries)
  qed
qed

lemma keeps_resolve [keeps_intros]: "wf_auth auth \<Longrightarrow> keeps P (resolve_path fe client auth uri)"
  unfolding resolve_path_def by (auto intro!: keeps_bind keeps_intros split: option.splits)

lemma keeps_resolve_parent [keeps_intros]: "wf_auth auth \<Longrightarrow> keeps P (resolve_parent_id fe client auth parent)"
  unfolding resolve_parent_id_def by (auto intro!: keeps_bind keeps_intros split: sum.splits)

lemma keeps_invalidate [keeps_intros]: "keeps isl (invalidate_uri auth uri)"
  "keeps isl (fs_bind (invalidate_uri auth uri) (\<lambda>_. invalidate_uri auth uri'))"
  by (auto simp: keeps_def invalidate_uri_apply fs_bind_def)

text \<open>
  A move that fails leaves the cache as it was: every cached path, the source's old one included, is
  still answered with the metadata it had, also when Drive has accepted the move and only the removal of
  the replaced object was refused.
\<close>

theorem failed_move_keeps_cache:
  assumes "mutate_move_file fe client auth source target permanent s = Some (r, s')" and "isl r"
    and "wf_auth auth" and "path_inv (paths s)" and "max_entries (paths s) = 0"
    and "wf_key k" and "view (paths s) k = Some x"
  shows "view (paths s') k = Some x"
proof -
  have "keeps isl (mutate_move_file fe client auth source target permanent)"
    unfolding mutate_move_file_def Let_def
    by (intro keeps_bind keeps_intros assms(3)) (auto intro!: keeps_bind keeps_intros assms(3) simp del: split_paired_All)
  from growsD [OF keepsD [OF this assms(1,2,4,5)] assms(6,7)] show ?thesis .
qed

theorem failed_move_keeps_cache_witness:
  "\<exists>r s'. mutate_move_file (plain_fs_env two_files_env) two_files_env my_auth (path_uri [''d'', ''a.csv''])
      (path_uri [''d'', ''b.csv'']) True warm_state = Some (r, s') \<and> isl r \<and>
    view (paths s') (path_key my_auth ''d/a.csv'') = Some (sample_meta, 3)"
proof -
  obtain r s' where r: "mutate_move_file (plain_fs_env two_files_env) two_files_env my_auth (path_uri [''d'', ''a.csv''])
      (path_uri [''d'', ''b.csv'']) True warm_state = Some (r, s')" "isl r"
    using overwrite_run [where permanent = True and fe = "plain_fs_env two_files_env"] by blast
  from failed_move_keeps_cache [OF r wf_my_auth warm_paths(1,2) _ warm_paths(3)] r show ?thesis by simp
qed

lemma covers_below:
  "segs \<noteq> [] \<Longrightarrow> covers (path_key auth (join slash segs)) (path_key auth (join slash (segs @ rest)))"
  using join_append_Cons [of segs rest slash]
  by (cases "rest = []") (auto simp: covers_def same_identity_def path_key_def starts_with_iff)

lemma invalidate_uri_forgets:
  assumes "wf_auth auth" "wf_uri uri" "kind uri = PATH" "segments uri \<noteq> []"
  shows "view (paths (snd (the (invalidate_uri auth uri s)))) (path_key auth (join slash (segments uri @ rest))) = None"
    and "view c (path_key auth p) = None \<Longrightarrow> view (invalidate_prefix (path_key auth q) c) (path_key auth p) = None"
  using assms covers_below [of "segments uri" auth rest]
  by (simp_all add: invalidate_uri_apply view_invalidate canonical_path_of_join)

text \<open>The last step of an operation that succeeds.\<close>

lemma fs_bind_last: "fs_bind m f s = Some (Inr x, s') \<Longrightarrow> \<exists>y t. m s = Some (Inr y, t) \<and> f y t = Some (Inr x, s')"
  by (auto simp: fs_bind_Some)

lemma ends_with_invalidation:
  assumes "invalidate_uri auth uri t = Some (Inr x, s')"
  shows "s' = snd (the (invalidate_uri auth uri t))"
  using assms by simp

text \<open>
  What was removed is forgotten: after a removal of a file or of a directory by its path succeeded,
  neither that path nor any path below it is cached.
\<close>

theorem removed_path_forgotten:
  assumes "(if dir then mutate_remove_directory else mutate_remove_file) fe client auth uri permanent s = Some (Inr (), s')"
    and "wf_auth auth" and "wf_uri uri" and "kind uri = PATH" and "segments uri \<noteq> []"
  shows "view (paths s') (path_key auth (join slash (segments uri @ rest))) = None"
proof -
  from assms(1) obtain t where "invalidate_uri auth uri t = Some (Inr (), s')"
    unfolding mutate_remove_directory_def mutate_remove_file_def
    by (cases dir) (auto dest!: fs_bind_last)
  from ends_with_invalidation [OF this] invalidate_uri_forgets(1) [OF assms(2-5)] show ?thesis by metis
qed

theorem removed_path_forgotten_witness:
  "\<exists>s'. mutate_remove_file (plain_fs_env two_files_env) two_files_env my_auth (path_uri [''d'', ''a.csv'']) False warm_state =
      Some (Inr (), s') \<and> view (paths s') (path_key my_auth ''d/a.csv/x'') = None"
proof -
  let ?uri = "path_uri [''d'', ''a.csv'']"
  obtain s1 where s1: "resolve_path (plain_fs_env two_files_env) two_files_env my_auth ?uri warm_state = Some (Inr sample_meta, s1)"
    using resolve_source [OF warm_start] by blast
  obtain resp w where "delete_file two_files_env (meta_id sample_meta) False (world s1) = (Inr resp, w)" "resp_ok resp"
    using two_files_delete by blast
  with s1 obtain s' where s': "mutate_remove_file (plain_fs_env two_files_env) two_files_env my_auth ?uri False warm_state =
      Some (Inr (), s')"
    by (simp add: mutate_remove_file_def fs_bind_def fs_guard_def checked_def fs_io_def invalidate_uri_apply)
  then have "(if False then mutate_remove_directory else mutate_remove_file) (plain_fs_env two_files_env) two_files_env
      my_auth ?uri False warm_state = Some (Inr (), s')" by simp
  from removed_path_forgotten [OF this wf_my_auth, of "[''x'']"] s' show ?thesis
    by (simp add: path_uri_def wf_uri_def wf_segment_def)
qed

text \<open>
  After a move from a path to a path succeeded, neither the old place nor the new one is cached, nor
  anything below them: the next resolution asks Drive and finds the moved object, not the replaced one.
\<close>

theorem moved_paths_forgotten:
  assumes "mutate_move_file fe client auth source target permanent s = Some (Inr (), s')"
    and "wf_auth auth" and "wf_uri source" and "wf_uri target" and "kind source = PATH" and "kind target = PATH"
    and "segments source \<noteq> []" and "segments target \<noteq> []"
  shows "view (paths s') (path_key auth (join slash (segments source @ rest))) = None \<and>
    view (paths s') (path_key auth (join slash (segments target @ rest))) = None"
proof -
  from assms(1) obtain t t' where t: "invalidate_uri auth source t = Some (Inr (), t')" "invalidate_uri auth target t' = Some (Inr (), s')"
    unfolding mutate_move_file_def Let_def by (auto dest!: fs_bind_last)
  note src = invalidate_uri_forgets(1) [OF assms(2,3,5,7), of t rest]
  note dst = invalidate_uri_forgets(1) [OF assms(2,4,6,8), of t' rest]
  have "paths s' = invalidate_prefix (path_key auth (canonical_path_of target)) (paths t')"
    using t(2) assms(6) by (auto simp: invalidate_uri_apply)
  moreover have "view (paths t') (path_key auth (join slash (segments source @ rest))) = None"
    using src ends_with_invalidation [OF t(1)] by metis
  ultimately have "view (paths s') (path_key auth (join slash (segments source @ rest))) = None"
    using invalidate_uri_forgets(2) [OF assms(2,4,6,8)] by simp
  with dst ends_with_invalidation [OF t(2)] show ?thesis by metis
qed

theorem moved_paths_forgotten_witness:
  "\<exists>s'. mutate_move_file (plain_fs_env two_files_env) two_files_env my_auth (path_uri [''d'', ''a.csv''])
      (path_uri [''d'', ''b.csv'']) False warm_state = Some (Inr (), s') \<and>
    view (paths s') (path_key my_auth ''d/a.csv'') = None"
proof -
  obtain r s' where r: "mutate_move_file (plain_fs_env two_files_env) two_files_env my_auth (path_uri [''d'', ''a.csv''])
      (path_uri [''d'', ''b.csv'']) False warm_state = Some (r, s')" "\<not> isl r"
    using overwrite_run [where permanent = False and fe = "plain_fs_env two_files_env"] by blast
  then have ok: "mutate_move_file (plain_fs_env two_files_env) two_files_env my_auth (path_uri [''d'', ''a.csv''])
      (path_uri [''d'', ''b.csv'']) False warm_state = Some (Inr (), s')" by (cases r) auto
  have "wf_uri (path_uri [''d'', ''a.csv''])" "wf_uri (path_uri [''d'', ''b.csv''])"
    by (simp_all add: path_uri_def wf_uri_def wf_segment_def)
  with moved_paths_forgotten [OF ok wf_my_auth, of "[]"] have "view (paths s') (path_key my_auth ''d/a.csv'') = None"
    by (simp add: path_uri_def)
  with ok show ?thesis by blast
qed

lemma no_double_slash: "wf_path segs \<Longrightarrow> \<not> starts_with (join slash segs) (''gdrive://'' @ x)"
proof
  assume wf: "wf_path segs" and "starts_with (join slash segs) (''gdrive://'' @ x)"
  then obtain r where r: "join slash segs = ''gdrive:'' @ slash # slash # x @ r" by (auto simp: starts_with_iff)
  obtain seg rest where segs: "segs = seg # rest" using r by (cases segs) auto
  show False
  proof (cases "rest = []")
    case True
    with r segs wf have "slash \<notin> set (''gdrive:'' @ slash # slash # x @ r)" by simp
    then show False by simp
  next
    case False
    with r segs have "seg @ slash # join slash rest = ''gdrive:'' @ slash # slash # x @ r" by (simp add: join_Cons)
    moreover have "slash \<notin> set seg" "slash \<notin> set ''gdrive:''" using wf segs by simp_all
    ultimately have e: "join slash rest = slash # x @ r" using sep_append_eq by metis
    obtain y ys where ys: "rest = y # ys" using False by (cases rest) auto
    with e wf segs show False by (cases y; cases ys) (auto simp: join_Cons)
  qed
qed

lemma create_key_covers_nothing:
  assumes "wf_path segs" shows "\<not> covers (path_key auth (parent_path uri)) (path_key auth (join slash segs))"
proof -
  have "\<exists>x. parent_path uri = ''gdrive://'' @ x" unfolding parent_path_def scheme_def by (metis append_Nil2)
  then obtain x where x: "parent_path uri = ''gdrive://'' @ x" by blast
  from no_double_slash [OF assms, of "x @ [slash]"] no_double_slash [OF assms, of x] show ?thesis
    by (auto simp: covers_def path_key_def x starts_with_iff)
qed

text \<open>
  Creating a directory invalidates nothing, although it means to drop the parent: the key it builds
  holds the full URI of the parent, and no cached path is written like that. Every path that an unbounded
  cache held, the parent and its children included, is still answered with what was stored.
\<close>

theorem create_directory_drops_nothing:
  assumes "mutate_create_directory fe client auth uri s = Some (r, s')"
    and "wf_auth auth" and "path_inv (paths s)" and "max_entries (paths s) = 0"
    and "wf_path segs" and "view (paths s) (path_key auth (join slash segs)) = Some x"
  shows "view (paths s') (path_key auth (join slash segs)) = Some x"
proof -
  let ?upload = "checked (upload client [] pid (file_name uri) folder_mime_type [] []) (to_string uri)"
  let ?k = "path_key auth (join slash segs)"
  let ?up = "fs_bind (fs_guard (kind uri = PATH \<and> segments uri \<noteq> []) (InvalidInputException
       (''gdrive: CreateDirectory needs a gdrive://path naming a folder, not '' @ squote # to_string uri @ [squote]))) (\<lambda>_.
     fs_bind (resolve_parent_id fe client auth (parent_path uri)) (\<lambda>parent_id.
     checked (upload client [] parent_id (file_name uri) folder_mime_type [] []) (to_string uri)))"
  have split: "mutate_create_directory fe client auth uri s =
      fs_bind ?up (\<lambda>_. fs_paths_do (invalidate_prefix (path_key auth (parent_path uri)))) s"
    by (auto simp: mutate_create_directory_def fs_bind_def split: option.splits sum.splits)
  have keep: "keeps_all ?up"
    using assms(2) by (intro keeps_bind keeps_intros)
  from assms(1) split consider e where "?up s = Some (Inl e, s')"
    | y t where "?up s = Some (Inr y, t)" "s' = t\<lparr>paths := invalidate_prefix (path_key auth (parent_path uri)) (paths t)\<rparr>"
    by (auto simp: fs_bind_def split: option.splits sum.splits)
  then show ?thesis
  proof cases
    case 1
    from growsD [OF keepsD [OF keep this] _ assms(6)] assms(2-4) show ?thesis by simp
  next
    case 2
    from growsD [OF keepsD [OF keep 2(1)] _ assms(6)] assms(2-4) have "view (paths t) ?k = Some x" by simp
    moreover have "view (paths s') ?k = view (paths t) ?k"
      using 2(2) create_key_covers_nothing [OF assms(5), of auth uri] assms(2) by (simp add: view_invalidate)
    ultimately show ?thesis by simp
  qed
qed

theorem create_directory_drops_nothing_witness:
  "\<exists>r s'. mutate_create_directory (plain_fs_env two_files_env) two_files_env my_auth (path_uri [''d'', ''new'']) warm_state =
      Some (r, s') \<and> view (paths s') (path_key my_auth ''d'') = Some (folder_d, 3)"
proof -
  let ?uri = "path_uri [''d'', ''new'']"
  obtain s1 where s1: "resolve_parent_id (plain_fs_env two_files_env) two_files_env my_auth (parent_path ?uri) warm_state =
      Some (Inr ''d1'', s1)" using resolve_parent_d [OF warm_start] by blast
  have "kind ?uri = PATH" "segments ?uri \<noteq> []" by (simp_all add: path_uri_def)
  with s1 obtain r s' where r: "mutate_create_directory (plain_fs_env two_files_env) two_files_env my_auth ?uri warm_state = Some (r, s')"
    by (fastforce simp: mutate_create_directory_def fs_bind_def fs_guard_def checked_def fs_io_def split: sum.splits prod.splits)
  from create_directory_drops_nothing [OF r wf_my_auth warm_paths(1,2), of "[''d'']"] r warm_paths(4) show ?thesis by simp
qed

end
