(* ===== verification/OpenFile.thy ===== *)
theory OpenFile
  imports ReadPath Mutate
begin

text \<open>
  Opening a file and the small operations of \<open>src/gdrive_filesystem.cpp\<close> that put a path and a secret
  in front of the resolver, the mutations and the listings, and \<open>src/gdrive_export.cpp\<close>.
\<close>

section \<open>Native formats\<close>

definition sheet_mime_type :: string where
  "sheet_mime_type = ''application/vnd.google-apps.spreadsheet''"

definition doc_mime_type :: string where
  "doc_mime_type = ''application/vnd.google-apps.document''"

definition export_mime_type_for :: "drive_file_meta \<Rightarrow> string \<Rightarrow> string" where
  "export_mime_type_for m docs_setting =
     (if mime_type m = sheet_mime_type then ''text/csv''
      else if mime_type m = doc_mime_type then
        (if docs_setting = ''text/markdown'' then ''text/markdown'' else ''text/plain'')
      else ''text/plain'')"

definition fetch_export ::
    "'w drive_env \<Rightarrow> drive_file_meta \<Rightarrow> string \<Rightarrow> string \<Rightarrow> (string, 'w) fs" where
  "fetch_export client m export_mime ctx =
     fs_bind (checked (export_file client (meta_id m) export_mime) ctx) (\<lambda>resp. fs_ret (resp_body resp))"

section \<open>Opening for writing\<close>

definition malformed_folder :: "string \<Rightarrow> exn" where
  "malformed_folder path = IOException (''gdrive: malformed metadata response creating folder for '' @ squote # path @ [squote])"

definition file_in_the_way :: "string \<Rightarrow> string \<Rightarrow> exn" where
  "file_in_the_way segment path = IOException
     (''gdrive: cannot create directory '' @ squote # segment @ squote # '' under '' @ squote # path @ squote #
      '': a file of that name already exists. Creating a folder beside it would leave two entries with one name, '' @
      ''which Drive allows and which would make both unaddressable by path.'')"

text \<open>The folder of the name \<open>segment\<close> in \<open>parent_id\<close>, made and cached.\<close>

definition create_folder ::
    "'w fs_env \<Rightarrow> 'w drive_env \<Rightarrow> string \<Rightarrow> cache_key \<Rightarrow> string \<Rightarrow> string \<Rightarrow> (string, 'w) fs" where
  "create_folder fe client path key parent_id segment =
     fs_bind (checked (upload client [] parent_id segment folder_mime_type [] []) path) (\<lambda>resp.
       case parse_file_meta (parse_json client) (resp_body resp) of
         None \<Rightarrow> fs_throw (malformed_folder path)
       | Some created \<Rightarrow>
           fs_bind (fs_paths_do (put (active_query fe) key created)) (\<lambda>_. fs_ret (meta_id created)))"

definition last_that :: "('a \<Rightarrow> bool) \<Rightarrow> 'a list \<Rightarrow> 'a option" where
  "last_that P xs = (let ys = filter P xs in if ys = [] then None else Some (last ys))"

text \<open>
  A parent segment that the cache does not answer with a folder: \<open>Some\<close> is the id of the folder that is
  there, \<open>None\<close> says that nothing of that name is there.
\<close>

definition probe_folder ::
    "'w fs_env \<Rightarrow> 'w drive_env \<Rightarrow> string \<Rightarrow> cache_key \<Rightarrow> string \<Rightarrow> string \<Rightarrow> (string option, 'w) fs" where
  "probe_folder fe client path key parent_id segment =
     fs_bind (list_by_name client parent_id segment True path) (\<lambda>matches.
       case matches of
         m # _ # _ \<Rightarrow> throw_ambiguous matches path
       | [m] \<Rightarrow> fs_bind (fs_paths_do (put (active_query fe) key m)) (\<lambda>_. fs_ret (Some (meta_id m)))
       | [] \<Rightarrow>
           fs_bind (list_by_name client parent_id segment False path) (\<lambda>any_kind.
             if last_that (\<lambda>m. \<not> is_folder m) any_kind \<noteq> None then fs_throw (file_in_the_way segment path)
             else case last_that is_folder any_kind of
                 Some m \<Rightarrow> fs_bind (fs_paths_do (put (active_query fe) key m)) (\<lambda>_. fs_ret (Some (meta_id m)))
               | None \<Rightarrow> fs_ret None))"

text \<open>The walk over the parents. The result is the id of the last one and whether it was just made.\<close>

fun walk_parents ::
    "'w fs_env \<Rightarrow> 'w drive_env \<Rightarrow> auth_context \<Rightarrow> string \<Rightarrow> string list \<Rightarrow> string \<Rightarrow> string \<Rightarrow> bool \<Rightarrow> (string \<times> bool, 'w) fs" where
  "walk_parents fe client auth path [] accum parent_id is_new = fs_ret (parent_id, is_new)"
| "walk_parents fe client auth path (segment # rest) accum parent_id is_new =
     (let accum = append_segment accum segment; key = path_key auth accum;
          made = fs_bind (create_folder fe client path key parent_id segment)
                   (\<lambda>i. walk_parents fe client auth path rest accum i True);
          probe = fs_bind (probe_folder fe client path key parent_id segment) (\<lambda>found.
                    case found of
                      Some i \<Rightarrow> walk_parents fe client auth path rest accum i False
                    | None \<Rightarrow> made) in
      if is_new then made
      else
        fs_bind (fs_paths (try_get (no_query fe) (active_query fe) key)) (\<lambda>hit.
          case hit of
            None \<Rightarrow> probe
          | Some (m, _) \<Rightarrow>
              if is_folder m then walk_parents fe client auth path rest accum (meta_id m) False
              else fs_bind (fs_paths_do (invalidate_prefix key)) (\<lambda>_. probe)))"

text \<open>The id of the object that the write replaces, \<open>[]\<close> if there is none.\<close>

definition find_existing :: "'w drive_env \<Rightarrow> string \<Rightarrow> string \<Rightarrow> string \<Rightarrow> (string, 'w) fs" where
  "find_existing client path parent_id nm =
     fs_bind (list_by_name client parent_id nm False path) (\<lambda>matches.
       case matches of [] \<Rightarrow> fs_ret [] | [m] \<Rightarrow> fs_ret (meta_id m) | _ \<Rightarrow> throw_ambiguous matches path)"

definition open_for_writing ::
    "'w fs_env \<Rightarrow> 'w drive_env \<Rightarrow> auth_context \<Rightarrow> string \<Rightarrow> gdrive_uri \<Rightarrow> (file_handle, 'w) fs" where
  "open_for_writing fe client auth path uri =
     (if kind uri = FILE_ID then fs_ret (write_handle fe path (file_id uri) [] [] auth)
      else
        fs_bind (fs_guard (file_name uri \<noteq> [])
          (IOException (''gdrive: '' @ squote # path @ squote # '' does not name a file to write''))) (\<lambda>_.
        fs_bind (walk_parents fe client auth path (butlast (segments uri)) [] (root_folder_for auth) False)
          (\<lambda>(parent_id, is_new).
        fs_bind (if is_new then fs_ret [] else find_existing client path parent_id (file_name uri)) (\<lambda>existing_id.
        fs_ret (write_handle fe path existing_id parent_id (file_name uri) auth)))))"

section \<open>Opening for reading\<close>

definition begin_query_here :: "'w fs_env \<Rightarrow> (unit, 'w) fs" where
  "begin_query_here fe =
     fs_bind (fs_paths_do (begin_query (active_query fe))) (\<lambda>_.
     fs_paths_do (set_max_entries (get_ubigint_setting fe ''gdrive_path_cache_entries'' 4096)))"

text \<open>The refresh of a leaf that the cache answered: a failure other than absence keeps what was cached.\<close>

definition refresh_fetch :: "'w drive_env \<Rightarrow> drive_file_meta \<Rightarrow> (drive_file_meta option, 'w) fs" where
  "refresh_fetch client m =
     fs_bind (fs_io (get_metadata client (meta_id m))) (\<lambda>resp.
       fs_ret (if \<not> resp_ok resp then (if err_kind (resp_error resp) = NOT_FOUND then None else Some m)
               else case parse_file_meta (parse_json client) (resp_body resp) of None \<Rightarrow> Some m | Some f \<Rightarrow> Some f))"

definition assume_immutable :: "'w fs_env \<Rightarrow> string \<Rightarrow> bool" where
  "assume_immutable fe path =
     (let prefixes = get_string_setting fe ''gdrive_immutable_prefixes'' [] in
      prefixes \<noteq> [] \<and> path_matches_any_prefix path prefixes)"

definition current_metadata ::
    "'w fs_env \<Rightarrow> 'w drive_env \<Rightarrow> auth_context \<Rightarrow> string \<Rightarrow> gdrive_uri \<Rightarrow> drive_file_meta \<Rightarrow> bool \<Rightarrow> (drive_file_meta option, 'w) fs" where
  "current_metadata fe client auth path uri m leaf_is_fresh =
     (if kind uri \<noteq> FILE_ID \<and> \<not> (leaf_is_fresh \<or> assume_immutable fe path) then
        fs_bind (get_or_fetch_metadata (path_key auth []) (meta_id m) (refresh_fetch client m)) (\<lambda>found.
          case found of
            Some refreshed \<Rightarrow> fs_ret (Some refreshed)
          | None \<Rightarrow>
              fs_bind (fs_paths_do (invalidate_prefix (path_key auth (canonical_path_of uri)))) (\<lambda>_.
              fs_bind (try_resolve_path fe client auth uri) (\<lambda>r. fs_ret (map_option fst r))))
      else fs_ret (Some m))"

definition read_handle ::
    "'w fs_env \<Rightarrow> 'w drive_env \<Rightarrow> auth_context \<Rightarrow> string \<Rightarrow> drive_file_meta \<Rightarrow> (file_handle, 'w) fs" where
  "read_handle fe client auth path m =
     (let h = (new_handle path m auth)
            \<lparr>h_block_size := get_ubigint_setting fe ''gdrive_block_size_bytes'' 16777216,
             block_key := build_block_key auth m\<rparr> in
      fs_bind (fs_blocks_do (set_capacity (get_ubigint_setting fe ''gdrive_block_cache_bytes'' 268435456))) (\<lambda>_.
      if is_native_google_format m then
        fs_bind (fetch_export client m
          (export_mime_type_for m (get_string_setting fe ''gdrive_docs_export_mime'' ''text/plain'')) path) (\<lambda>content.
        fs_ret (h\<lparr>is_export := True, export_buffer := content, h_meta := m\<lparr>meta_size := int (length content)\<rparr>\<rparr>))
      else fs_ret h))"

text \<open>What an open gives when nothing is there: no handle if the flags ask for that, else an exception.\<close>

definition absent :: "bool \<Rightarrow> gdrive_uri \<Rightarrow> (file_handle option, 'w) fs" where
  "absent null_if_absent uri = (if null_if_absent then fs_ret None else fs_throw (no_such_file uri))"

definition open_for_reading ::
    "'w fs_env \<Rightarrow> 'w drive_env \<Rightarrow> auth_context \<Rightarrow> bool \<Rightarrow> string \<Rightarrow> gdrive_uri \<Rightarrow> (file_handle option, 'w) fs" where
  "open_for_reading fe client auth null_if_absent path uri =
     fs_bind (begin_query_here fe) (\<lambda>_.
     fs_bind (try_resolve_path fe client auth uri) (\<lambda>r.
       case r of
         None \<Rightarrow> absent null_if_absent uri
       | Some (m, leaf_is_fresh) \<Rightarrow>
           fs_bind (fs_guard (\<not> is_folder m)
             (IOException (''gdrive: '' @ squote # to_string uri @ squote # '' is a directory, not a file''))) (\<lambda>_.
           fs_bind (current_metadata fe client auth path uri m leaf_is_fresh) (\<lambda>current.
             case current of
               None \<Rightarrow> absent null_if_absent uri
             | Some m \<Rightarrow> fs_bind (read_handle fe client auth path m) (\<lambda>h. fs_ret (Some h))))))"

section \<open>The operations\<close>

definition parsed_uri :: "string \<Rightarrow> (gdrive_uri, 'w) fs" where
  "parsed_uri path = (case parse_gdrive_uri path of
     Inl e \<Rightarrow> fs_throw (IOException (''gdrive: '' @ e)) | Inr uri \<Rightarrow> fs_ret uri)"

definition open_file :: "'w fs_env \<Rightarrow> string \<Rightarrow> bool \<Rightarrow> bool \<Rightarrow> (file_handle option, 'w) fs" where
  "open_file fe path for_writing null_if_absent =
     fs_bind (require_opener fe path) (\<lambda>_.
     fs_bind (parsed_uri path) (\<lambda>uri.
     fs_bind (fs_guard (has_secret fe) (no_secret path)) (\<lambda>_.
     fs_bind (get_auth_context fe path) (\<lambda>auth.
     let client = create_client fe auth in
     if for_writing then fs_bind (open_for_writing fe client auth path uri) (\<lambda>h. fs_ret (Some h))
     else open_for_reading fe client auth null_if_absent path uri))))"

text \<open>\<open>FileExists\<close> and \<open>DirectoryExists\<close>: only absence is \<open>False\<close>.\<close>

definition file_exists :: "'w fs_env \<Rightarrow> string \<Rightarrow> (bool, 'w) fs" where
  "file_exists fe path =
     fs_bind (require_opener fe path) (\<lambda>_.
     if \<not> has_secret fe then fs_ret False
     else case parse_gdrive_uri path of
         Inl _ \<Rightarrow> fs_ret False
       | Inr uri \<Rightarrow>
           fs_bind (get_auth_context fe path) (\<lambda>auth.
           fs_bind (try_resolve_path fe (create_client fe auth) auth uri) (\<lambda>r.
           fs_ret (case r of None \<Rightarrow> False | Some (m, _) \<Rightarrow> \<not> is_folder m))))"

definition directory_exists :: "'w fs_env \<Rightarrow> string \<Rightarrow> (bool, 'w) fs" where
  "directory_exists fe path =
     fs_bind (require_opener fe path) (\<lambda>_.
     if \<not> has_secret fe then fs_ret False
     else case parse_gdrive_uri path of
         Inl _ \<Rightarrow> fs_ret False
       | Inr uri \<Rightarrow>
           if kind uri = PATH \<and> segments uri = [] then fs_ret True
           else
             fs_bind (get_auth_context fe path) (\<lambda>auth.
             fs_bind (try_resolve_path fe (create_client fe auth) auth uri) (\<lambda>r.
             fs_ret (case r of None \<Rightarrow> False | Some (m, _) \<Rightarrow> is_folder m))))"

text \<open>A path, its auth context and a client bound to it, as the changing operations begin.\<close>

definition with_path ::
    "'w fs_env \<Rightarrow> string \<Rightarrow> ('w drive_env \<Rightarrow> auth_context \<Rightarrow> gdrive_uri \<Rightarrow> (unit, 'w) fs) \<Rightarrow> (unit, 'w) fs" where
  "with_path fe path act =
     fs_bind (require_opener fe path) (\<lambda>_.
     fs_bind (parsed_uri path) (\<lambda>uri.
     fs_bind (get_auth_context fe path) (\<lambda>auth. act (create_client fe auth) auth uri)))"

definition permanent_delete :: "'w fs_env \<Rightarrow> bool" where
  "permanent_delete fe = get_bool_setting fe ''gdrive_permanent_delete'' False"

definition create_directory :: "'w fs_env \<Rightarrow> string \<Rightarrow> (unit, 'w) fs" where
  "create_directory fe path = with_path fe path (mutate_create_directory fe)"

definition remove_directory :: "'w fs_env \<Rightarrow> string \<Rightarrow> (unit, 'w) fs" where
  "remove_directory fe path =
     with_path fe path (\<lambda>client auth uri. mutate_remove_directory fe client auth uri (permanent_delete fe))"

definition remove_file :: "'w fs_env \<Rightarrow> string \<Rightarrow> (unit, 'w) fs" where
  "remove_file fe path =
     with_path fe path (\<lambda>client auth uri. mutate_remove_file fe client auth uri (permanent_delete fe))"

definition move_file :: "'w fs_env \<Rightarrow> string \<Rightarrow> string \<Rightarrow> (unit, 'w) fs" where
  "move_file fe source target =
     fs_bind (require_opener fe source) (\<lambda>_.
     fs_bind (parsed_uri source) (\<lambda>src.
     fs_bind (parsed_uri target) (\<lambda>dst.
     fs_bind (get_auth_context fe source) (\<lambda>auth.
     mutate_move_file fe (create_client fe auth) auth src dst (permanent_delete fe)))))"

text \<open>\<open>CanHandleFile\<close> and \<open>ResolveOrThrow\<close>.\<close>

definition can_handle_file :: "string \<Rightarrow> bool" where
  "can_handle_file path = is_gdrive_uri path"

definition resolve_or_throw :: "'w fs_env \<Rightarrow> gdrive_uri \<Rightarrow> (drive_file_meta, 'w) fs" where
  "resolve_or_throw fe uri =
     fs_bind (fs_guard (has_secret fe) (no_secret (to_string uri))) (\<lambda>_.
     fs_bind (get_auth_context fe (to_string uri)) (\<lambda>auth.
     resolve_path fe (create_client fe auth) auth uri))"

text \<open>
  What a handle says of itself. DuckDB's timestamp parser is the parameter \<open>from_string\<close>; a time that it does
  not take is the epoch.
\<close>

definition normalise_rfc3339 :: "string \<Rightarrow> string" where
  "normalise_rfc3339 s =
     (let s = (case find_char CHR ''T'' s of None \<Rightarrow> s | Some i \<Rightarrow> s[i := CHR '' '']) in
      if s \<noteq> [] \<and> last s = CHR ''Z'' then butlast s @ ''+00'' else s)"

definition parse_rfc3339 :: "(string \<Rightarrow> int option) \<Rightarrow> string \<Rightarrow> int" where
  "parse_rfc3339 from_string s =
     (if s = [] then 0 else case from_string (normalise_rfc3339 s) of None \<Rightarrow> 0 | Some t \<Rightarrow> t)"

definition get_last_modified_time :: "(string \<Rightarrow> int option) \<Rightarrow> file_handle \<Rightarrow> int" where
  "get_last_modified_time from_string h = parse_rfc3339 from_string (modified_time (h_meta h))"

definition seek_position :: "file_handle \<Rightarrow> nat" where
  "seek_position h = h_position h"

definition canonicalize_path :: "string \<Rightarrow> string" where
  "canonicalize_path path = path"

section \<open>On a Drive that keeps still\<close>

text \<open>\<open>folder_at kids root segs i\<close>: the path leads to a folder with the id \<open>i\<close>; the empty path to the root.\<close>

definition folder_at :: "drive_tree \<Rightarrow> string \<Rightarrow> string list \<Rightarrow> string \<Rightarrow> bool" where
  "folder_at kids root segs i \<longleftrightarrow>
     (if segs = [] then i = root else \<exists>d. names kids root segs d \<and> is_folder d \<and> i = meta_id d)"

lemma folder_at_stands: "folder_at kids root segs i \<Longrightarrow> \<exists>meta. stands kids root segs meta i"
  by (auto simp: folder_at_def stands_def split: if_splits intro: exI [of _ None] exI [of _ "Some _"])

lemma folder_at_first:
  assumes "folder_at kids root (pre @ seg # rest) i" "unambiguous kids"
  shows "\<exists>d. names kids root (pre @ [seg]) d \<and> is_folder d"
proof (cases "rest = []")
  case False
  from assms(1) obtain m where "names kids root ((pre @ [seg]) @ rest) m" by (auto simp: folder_at_def)
  from names_append [OF this _ False] obtain d where d: "names kids root (pre @ [seg]) d" "kids (meta_id d) \<noteq> []" by auto
  have "\<exists>p. d \<in> set (kids p)" using d(1) by (auto simp: names_snoc split: if_split_asm)
  with assms(2) d(2) have "is_folder d" unfolding unambiguous_def by blast
  with d(1) show ?thesis by blast
qed (use assms(1) in \<open>auto simp: folder_at_def\<close>)

lemma kid_of_name:
  assumes "stands kids root pre meta pid" "unambiguous kids" "names kids root (pre @ [seg]) d"
    and "folder \<longrightarrow> is_folder d"
  shows "filter (\<lambda>m. meta_name m = seg \<and> (folder \<longrightarrow> is_folder m)) (kids pid) = [d]"
proof -
  let ?found = "filter (\<lambda>m. meta_name m = seg \<and> (folder \<longrightarrow> is_folder m)) (kids pid)"
  from stands_absent [OF assms(1,2), of seg "[]" d] assms(3) obtain d' where
    d': "d' \<in> set (kids pid)" "meta_name d' = seg" by auto
  with stands_step [OF assms(1) d'(1)] names_unique [OF assms(2,3), of d'] have "d' = d" by simp
  with d' assms(4) have mem: "d \<in> set ?found" by simp
  have "distinct (map meta_name (kids pid))" using assms(2) by (simp add: unambiguous_def)
  from filter_by_name [OF this, of seg "\<lambda>m. folder \<longrightarrow> is_folder m"]
  consider "?found = []" | m where "?found = [m]" by blast
  then show ?thesis
  proof cases
    case (2 m)
    with mem show ?thesis by simp
  qed (use mem in simp)
qed

lemma no_kid_of_name:
  assumes "stands kids root pre meta pid" "\<not> (\<exists>d. names kids root (pre @ [seg]) d)"
  shows "filter (\<lambda>m. meta_name m = seg \<and> P m) (kids pid) = []"
  using stands_step [OF assms(1)] assms(2) by (auto simp: filter_empty_conv)

text \<open>Parents that are there are found, and nothing is made.\<close>

lemma walk_parents_existing:
  assumes "serves client kids" "unambiguous kids" "wf_auth auth"
  shows "cache_sound kids auth (paths s) \<Longrightarrow> wf_path (pre @ segs) \<Longrightarrow>
    stands kids (root_folder_for auth) pre meta pid \<Longrightarrow> folder_at kids (root_folder_for auth) (pre @ segs) i \<Longrightarrow>
    folder_at kids (root_folder_for auth) pre pid \<Longrightarrow>
    \<exists>s'. walk_parents fe client auth path segs (join slash pre) pid False s = Some (Inr (i, False), s') \<and>
      cache_sound kids auth (paths s') \<and> reads_only (world s) (world s')"
proof (induction segs arbitrary: pre meta pid s)
  case Nil
  have "pid = i"
    using Nil.prems(4,5) names_unique [OF assms(2)] by (auto simp: folder_at_def split: if_splits)
  with Nil show ?case by simp
next
  case (Cons seg rest)
  let ?root = "root_folder_for auth" and ?path = "pre @ [seg]"
  let ?key = "path_key auth (join slash ?path)"
  have wf: "wf_path ?path" "wf_path (?path @ rest)" using Cons.prems(2) by simp_all
  have can: "append_segment (join slash pre) seg = join slash ?path"
    using append_segment_join Cons.prems(2) by (simp add: wf_path_def)
  from folder_at_first [OF Cons.prems(4) assms(2)] obtain d where d: "names kids ?root ?path d" "is_folder d" by blast
  then have next_: "stands kids ?root ?path (Some d) (meta_id d)" "folder_at kids ?root (?path @ rest) i"
    "folder_at kids ?root ?path (meta_id d)"
    using Cons.prems(4) by (auto simp: stands_def folder_at_def)
  let ?get = "try_get (no_query fe) (active_query fe) ?key (paths s)"
  let ?s = "s\<lparr>paths := snd ?get\<rparr>"
  have snd: "cache_sound kids auth (paths ?s)" using cache_sound_get [OF Cons.prems(1) assms(3)] by simp
  show ?case
  proof (cases "fst ?get")
    case (Some hit)
    obtain m f where hit: "hit = (m, f)" by fastforce
    with Some try_get_hit obtain g where "view (paths s) ?key = Some (m, g)" by metis
    with cache_soundD [OF Cons.prems(1) _ wf(1)] have "names kids ?root ?path m" by simp
    with names_unique [OF assms(2) d(1)] have m: "m = d" by blast
    have "walk_parents fe client auth path (seg # rest) (join slash pre) pid False s =
        walk_parents fe client auth path rest (join slash ?path) (meta_id d) False ?s"
      using Some hit m d(2) can by (simp add: fs_bind_def fs_paths_apply Let_def del: walk_parents.simps(1))
    moreover from Cons.IH [OF snd wf(2) next_] obtain s' where
      "walk_parents fe client auth path rest (join slash ?path) (meta_id d) False ?s = Some (Inr (i, False), s')"
      "cache_sound kids auth (paths s')" "reads_only (world ?s) (world s')" by blast
    ultimately show ?thesis by (intro exI [of _ s']) simp
  next
    case None
    have found: "filter (\<lambda>m. meta_name m = seg \<and> (True \<longrightarrow> is_folder m)) (kids pid) = [d]"
      by (rule kid_of_name [OF Cons.prems(3) assms(2) d(1)]) (simp add: d(2))
    obtain w where l: "list_by_name client pid seg True path ?s = Some (Inr [d], ?s\<lparr>world := w\<rparr>)"
      using assms(1) [unfolded serves_def, rule_format, of pid seg True path ?s] found by auto
    have ro: "reads_only (world s) w" using quietD [OF quiet_list(1) l] by simp
    let ?t = "?s\<lparr>world := w, paths := put (active_query fe) ?key d (paths ?s)\<rparr>"
    have snd': "cache_sound kids auth (paths ?t)" using cache_sound_put [OF snd assms(3) _ wf(1) d(1)] by simp
    have "walk_parents fe client auth path (seg # rest) (join slash pre) pid False s =
        walk_parents fe client auth path rest (join slash ?path) (meta_id d) False ?t"
      using None l can
      by (simp add: probe_folder_def fs_bind_def fs_paths_apply Let_def del: walk_parents.simps(1))
    moreover from Cons.IH [OF snd' wf(2) next_] obtain s' where
      "walk_parents fe client auth path rest (join slash ?path) (meta_id d) False ?t = Some (Inr (i, False), s')"
      "cache_sound kids auth (paths s')" "reads_only (world ?t) (world s')" by blast
    ultimately show ?thesis using reads_only_trans [OF ro] by (intro exI [of _ s']) simp
  qed
qed



text \<open>Resolving a path leaves the cached metadata of ids and the cached blocks alone.\<close>

definition same_metadata :: "'w fs_state \<Rightarrow> 'w fs_state \<Rightarrow> bool" where
  "same_metadata s s' \<longleftrightarrow> metadata_entries (paths s') = metadata_entries (paths s) \<and>
     metadata_generation (paths s') = metadata_generation (paths s) \<and> block_store s' = block_store s"

lemma list_by_name_blocks: "list_by_name client pid nm folder ctx s = Some (r, s') \<Longrightarrow> block_store s' = block_store s"
  using list_pages_paths unfolding list_by_name_def by fastforce

lemma fetch_metadata_blocks: "fetch_metadata client fid ctx s = Some (r, s') \<Longrightarrow> block_store s' = block_store s"
  by (auto simp: fetch_metadata_def fs_bind_Some fs_io_def split: prod.splits if_splits option.splits)

interpretation metadata_frame: resolver_frame same_metadata
proof unfold_locales
  show "obeys same_metadata (list_by_name client pid nm folder ctx)" for client :: "'a drive_env" and pid nm folder ctx
    by (rule obeysI) (auto simp: same_metadata_def dest: list_by_name_paths list_by_name_blocks)
  show "obeys same_metadata (fetch_metadata client fid ctx)" for client :: "'a drive_env" and fid ctx
    by (rule obeysI) (auto simp: same_metadata_def dest: fetch_metadata_paths fetch_metadata_blocks)
qed (auto intro!: obeysI simp: same_metadata_def fs_paths_apply try_get_def put_def Let_def split: option.splits)

lemma cache_sound_shrink:
  assumes "cache_sound kids auth c" "wf_auth auth" "path_inv c'"
    and "\<And>k x. wf_key k \<Longrightarrow> view c' k = Some x \<Longrightarrow> view c k = Some x"
  shows "cache_sound kids auth c'"
  using assms(3) by (rule cache_soundI) (use assms cache_soundD in \<open>metis wf_path_key\<close>)

lemma begin_query_sound:
  assumes "cache_sound kids auth (paths s)" "wf_auth auth"
  shows "\<exists>c. begin_query_here fe s = Some (Inr (), s\<lparr>paths := c\<rparr>) \<and> cache_sound kids auth c \<and>
    metadata_generation c = active_query fe \<and>
    (metadata_generation (paths s) \<noteq> active_query fe \<longrightarrow> metadata_entries c = [])"
proof -
  let ?b = "begin_query (active_query fe) (paths s)"
  let ?n = "get_ubigint_setting fe ''gdrive_path_cache_entries'' 4096"
  have inv: "path_inv (paths s)" using assms(1) by (simp add: cache_sound_def)
  then have inv1: "path_inv ?b" using path_inv_apply [of _ 0 "Begin (active_query fe)"] by simp
  then have inv2: "path_inv (set_max_entries ?n ?b)" using path_inv_apply [of _ 0 "SetMax ?n"] by simp
  have "view (paths s) k = Some x" if "wf_key k" "view (set_max_entries ?n ?b) k = Some x" for k x
  proof -
    have "view ?b k = Some x" using apply_op_view(1) [OF inv1 _ that(1), of "SetMax ?n" 0 x] that(2) by simp
    then show ?thesis by (simp add: view_def begin_query_def split: if_splits)
  qed
  from cache_sound_shrink [OF assms inv2 this] have "cache_sound kids auth (set_max_entries ?n ?b)" by blast
  moreover have "begin_query_here fe s = Some (Inr (), s\<lparr>paths := set_max_entries ?n ?b\<rparr>)"
    by (simp add: begin_query_here_def fs_bind_def)
  ultimately show ?thesis
    by (intro exI [of _ "set_max_entries ?n ?b"]) (simp add: set_max_entries_def begin_query_def)
qed

text \<open>What Drive documents of \<open>files.get\<close>: the metadata of an object that is there.\<close>

definition serves_metadata :: "'w drive_env \<Rightarrow> drive_tree \<Rightarrow> bool" where
  "serves_metadata client kids \<longleftrightarrow>
     (\<forall>p. \<forall>m\<in>set (kids p). \<forall>s. \<exists>w. refresh_fetch client m s = Some (Inr (Some m), s\<lparr>world := w\<rparr>))"

lemma get_or_fetch_first:
  assumes "metadata_entries (paths s) = []" "\<And>s. \<exists>w. fetch s = Some (Inr (Some m), s\<lparr>world := w\<rparr>)"
  shows "\<exists>s'. get_or_fetch_metadata key fid fetch s = Some (Inr (Some m), s') \<and> block_store s' = block_store s"
proof (cases "metadata_generation (paths s) = 0")
  case True
  from assms(2) obtain w where "fetch s = Some (Inr (Some m), s\<lparr>world := w\<rparr>)" by blast
  with True show ?thesis by (simp add: get_or_fetch_metadata_def metadata_lookup_def)
next
  case False
  let ?p = "Suc (next_promise (paths s))"
  obtain c where c: "metadata_lookup key fid (paths s) = (Fetch ?p, c)"
    using False assms(1) by (simp add: metadata_lookup_def Let_def)
  from assms(2) obtain w where "fetch (s\<lparr>paths := c\<rparr>) = Some (Inr (Some m), s\<lparr>paths := c, world := w\<rparr>)" by blast
  with c show ?thesis by (simp add: get_or_fetch_metadata_def)
qed

lemma names_in_kids: "names kids root segs m \<Longrightarrow> \<exists>p. m \<in> set (kids p)"
  by (cases rule: names.cases) auto

text \<open>The handle that a read of the file \<open>d\<close> gets.\<close>

definition reads_handle :: "auth_context \<Rightarrow> drive_file_meta \<Rightarrow> file_handle \<Rightarrow> bool" where
  "reads_handle auth d h \<longleftrightarrow> h_position h = 0 \<and> \<not> is_write h \<and> block_key h = build_block_key auth d \<and>
     (if is_native_google_format d then is_export h \<and> get_file_size h = int (length (export_buffer h))
      else \<not> is_export h \<and> h_meta h = d)"

definition plain_handle :: "'w fs_env \<Rightarrow> auth_context \<Rightarrow> string \<Rightarrow> drive_file_meta \<Rightarrow> file_handle" where
  "plain_handle fe auth path d = (new_handle path d auth)
     \<lparr>h_block_size := get_ubigint_setting fe ''gdrive_block_size_bytes'' 16777216,
      block_key := build_block_key auth d\<rparr>"

lemma read_handle_plain:
  "\<not> is_native_google_format d \<Longrightarrow> read_handle fe client auth path d s = Some (Inr (plain_handle fe auth path d),
     s\<lparr>block_store := set_capacity (get_ubigint_setting fe ''gdrive_block_cache_bytes'' 268435456) (block_store s)\<rparr>)"
  by (simp add: read_handle_def fs_bind_def plain_handle_def Let_def)

lemma plain_handle_reads: "\<not> is_native_google_format d \<Longrightarrow> reads_handle auth d (plain_handle fe auth path d)"
  by (simp add: plain_handle_def reads_handle_def new_handle_def)

lemma read_handle_result:
  "\<exists>r s'. read_handle fe client auth path d s = Some (r, s') \<and> (\<forall>h. r = Inr h \<longrightarrow> reads_handle auth d h) \<and>
     (\<not> is_native_google_format d \<longrightarrow> (\<exists>h. r = Inr h))"
proof (cases "is_native_google_format d")
  case False
  then show ?thesis by (simp add: read_handle_plain plain_handle_reads)
next
  case True
  let ?s = "s\<lparr>block_store := set_capacity (get_ubigint_setting fe ''gdrive_block_cache_bytes'' 268435456) (block_store s)\<rparr>"
  let ?mime = "export_mime_type_for d (get_string_setting fe ''gdrive_docs_export_mime'' ''text/plain'')"
  obtain x t where x: "fetch_export client d ?mime path ?s = Some (x, t)"
    by (fastforce simp: fetch_export_def checked_def fs_bind_def fs_io_def split: sum.splits prod.splits)
  show ?thesis
  proof (cases x)
    case (Inl e)
    with True x show ?thesis by (simp add: read_handle_def fs_bind_def Let_def)
  next
    case (Inr content)
    with True x show ?thesis
      by (simp add: read_handle_def fs_bind_def Let_def reads_handle_def new_handle_def get_file_size_def)
  qed
qed

lemma current_metadata_live:
  assumes "serves_metadata client kids" "m \<in> set (kids p)" "metadata_entries (paths s) = []"
  shows "\<exists>s'. current_metadata fe client auth path uri m fresh s = Some (Inr (Some m), s') \<and> block_store s' = block_store s"
proof (cases "kind uri \<noteq> FILE_ID \<and> \<not> (fresh \<or> assume_immutable fe path)")
  case True
  have "\<exists>w. refresh_fetch client m t = Some (Inr (Some m), t\<lparr>world := w\<rparr>)" for t
    using assms(1,2) unfolding serves_metadata_def by blast
  from get_or_fetch_first [OF assms(3) this] obtain s' where
    "get_or_fetch_metadata (path_key auth []) (meta_id m) (refresh_fetch client m) s = Some (Inr (Some m), s')"
    "block_store s' = block_store s" by blast
  with True show ?thesis by (simp add: current_metadata_def fs_bind_def)
qed (auto simp: current_metadata_def)

text \<open>The part of an open before the handle: the query begins and the path resolves.\<close>

lemma open_resolves:
  assumes "serves client kids" "unambiguous kids" "wf_auth auth" "cache_sound kids auth (paths s)"
    and "wf_uri uri" "kind uri = PATH" "segments uri \<noteq> []" "metadata_generation (paths s) \<noteq> active_query fe"
  shows "\<exists>b r t. begin_query_here fe s = Some (Inr (), b) \<and> try_resolve_path fe client auth uri b = Some (Inr r, t) \<and>
    (\<forall>m. (\<exists>f. r = Some (m, f)) \<longleftrightarrow> names kids (root_folder_for auth) (segments uri) m) \<and>
    metadata_entries (paths t) = [] \<and> block_store t = block_store s"
proof -
  from begin_query_sound [OF assms(4,3)] assms(8) obtain c where
    c: "begin_query_here fe s = Some (Inr (), s\<lparr>paths := c\<rparr>)" "cache_sound kids auth c" "metadata_entries c = []"
    by blast
  from try_resolve_correct [OF assms(1-3) _ assms(5-7), of "s\<lparr>paths := c\<rparr>" fe] c(2) obtain r t where
    t: "try_resolve_path fe client auth uri (s\<lparr>paths := c\<rparr>) = Some (Inr r, t)"
      "\<forall>m. (\<exists>f. r = Some (m, f)) \<longleftrightarrow> names kids (root_folder_for auth) (segments uri) m" by auto
  from obeysD [OF metadata_frame.obeys_resolve [OF assms(6)] t(1)] c(3)
  have "metadata_entries (paths t) = []" "block_store t = block_store s" by (simp_all add: same_metadata_def)
  with c(1) t show ?thesis by blast
qed


text \<open>A Drive whose metadata replies cannot be parsed: an open keeps what the listing said.\<close>

lemma table_metadata: "serves_metadata (table_env tbl) kids"
proof -
  have g: "\<exists>w'. get_metadata (table_env tbl) fid w =
      (Inr (no_response\<lparr>resp_ok := True, resp_status := 200,
        resp_body := api @ ''/'' @ url_encode fid @ ''?fields='' @ url_encode file_fields_mask @ ''&'' @ all_drives_params\<rparr>), w')"
    for fid w
    by (simp add: get_metadata_def execute_with_retry_def execute_loop.simps do_http_def table_env_def
        lost_env_def no_response_def Let_def)
  have p: "parse_file_meta (parse_json (table_env tbl)) b = None" for b
    by (simp add: parse_file_meta_def parse_object_def table_env_def listing_to_json_def
        parse_file_meta_object_def string_member_def)
  have "\<exists>w. refresh_fetch (table_env tbl) m s = Some (Inr (Some m), s\<lparr>world := w\<rparr>)" for m s
  proof -
    obtain w resp where "get_metadata (table_env tbl) (meta_id m) (world s) = (Inr resp, w)" "resp_ok resp"
      using g [of "meta_id m" "world s"] by auto
    then show ?thesis by (intro exI [of _ w]) (simp add: refresh_fetch_def fs_bind_def fs_io_def p)
  qed
  then show ?thesis by (simp add: serves_metadata_def)
qed

lemmas one_file_metadata = table_metadata [of "[(list_path (name_query ''root'' ''a.csv'' False), [sample_meta])]",
  folded one_file_env_def]


text \<open>
  C14. Existence is what Drive says, never a guess: with a secret, \<open>FileExists\<close> answers whether a file is
  at the path and \<open>DirectoryExists\<close> whether a folder is, and neither fails.
\<close>

theorem existence_is_correct:
  assumes "has_opener fe" and "has_secret fe" and "parse_gdrive_uri path = Inr uri" and "kind uri = PATH"
    and "segments uri \<noteq> []" and "fst (auth_for fe path (net (world s))) = Inr auth"
    and "serves (create_client fe auth) kids" and "unambiguous kids" and "wf_auth auth"
    and "cache_sound kids auth (paths s)"
  shows "(\<exists>s'. file_exists fe path s =
      Some (Inr (\<exists>m. names kids (root_folder_for auth) (segments uri) m \<and> \<not> is_folder m), s')) \<and>
    (\<exists>s'. directory_exists fe path s =
      Some (Inr (\<exists>m. names kids (root_folder_for auth) (segments uri) m \<and> is_folder m), s'))"
proof -
  let ?at = "names kids (root_folder_for auth) (segments uri)"
  obtain n where n: "auth_for fe path (net (world s)) = (Inr auth, n)" using assms(6) by (metis prod.collapse)
  let ?s = "s\<lparr>world := (world s)\<lparr>net := n\<rparr>\<rparr>"
  from try_resolve_correct [OF assms(7-9) _ parse_wf [OF assms(3)] assms(4,5), of ?s fe] assms(10)
  obtain r t where t: "try_resolve_path fe (create_client fe auth) auth uri ?s = Some (Inr r, t)"
    "\<And>m. (\<exists>f. r = Some (m, f)) \<longleftrightarrow> ?at m" by auto
  have step: "get_auth_context fe path s = Some (Inr auth, ?s)"
    by (simp add: get_auth_context_def fs_io_def n)
  have ex: "(case r of None \<Rightarrow> False | Some (m, _) \<Rightarrow> P m) \<longleftrightarrow> (\<exists>m. ?at m \<and> P m)" for P
    unfolding t(2) [symmetric] by (auto split: option.splits)
  show ?thesis
    using step t(1) assms(1-5)
    by (simp add: file_exists_def directory_exists_def fs_bind_def require_opener_def fs_guard_def ex)
qed

theorem existence_is_correct_witness:
  "\<exists>s'. file_exists (plain_fs_env one_file_env) ''gdrive://a.csv'' start_state = Some (Inr True, s')"
proof -
  let ?fe = "plain_fs_env one_file_env"
  have parse: "parse_gdrive_uri ''gdrive://a.csv'' = Inr (path_uri [''a.csv''])" by code_simp
  have client: "create_client ?fe my_auth = one_file_env"
    by (simp add: create_client_def plain_fs_env_def my_auth_def one_file_env_def table_env_def lost_env_def)
  have "unambiguous one_file_tree" by (simp add: unambiguous_def one_file_tree_def sample_meta_def)
  moreover have "cache_sound one_file_tree my_auth (paths start_state)" by (simp add: start_state_def empty_cache_sound)
  moreover have "fst (auth_for ?fe ''gdrive://a.csv'' (net (world start_state))) = Inr my_auth"
    by (simp add: plain_fs_env_def my_auth_def)
  moreover have "has_opener ?fe" "has_secret ?fe" "kind (path_uri [''a.csv'']) = PATH" "segments (path_uri [''a.csv'']) = [''a.csv'']"
    by (simp_all add: plain_fs_env_def path_uri_def)
  moreover have "names one_file_tree ''root'' [''a.csv''] sample_meta"
    using names.first [of sample_meta one_file_tree "''root''"] by (simp add: one_file_tree_def sample_meta_def)
  moreover have "root_folder_for my_auth = ''root''" by (simp add: root_folder_for_def my_auth_def)
  ultimately obtain s' where "file_exists ?fe ''gdrive://a.csv'' start_state =
      Some (Inr (\<exists>m. names one_file_tree ''root'' [''a.csv''] m \<and> \<not> is_folder m), s')"
    and n: "names one_file_tree ''root'' [''a.csv''] sample_meta"
    using existence_is_correct [where fe = ?fe and path = "''gdrive://a.csv''" and auth = my_auth and s = start_state
        and kids = one_file_tree, OF _ _ parse] one_file_serves client
    by simp blast
  moreover have "\<exists>m. names one_file_tree ''root'' [''a.csv''] m \<and> \<not> is_folder m" using n sample_kinds(1) by blast
  ultimately show ?thesis by simp
qed

section \<open>Opening and reading together\<close>

lemma blocks_good_capacity:
  assumes "blocks_good key bs content c"
  shows "blocks_good key bs content (set_capacity n c)"
proof -
  have acc: "accounts (c\<lparr>capacity_bytes := n\<rparr>)" using assms by (simp add: blocks_good_def accounts_def)
  have "ent c k = Some (g, b)" if "ent (set_capacity n c) k = Some (g, b)" for k g b
    using ent_evict(1) [OF acc] that by (simp add: set_capacity_def ent_def)
  with blocks_goodD [OF assms] evict_locked_accounts [OF acc] show ?thesis
    unfolding blocks_good_def by (simp add: set_capacity_def) blast
qed

lemma open_reads_plain:
  assumes "serves client kids" "unambiguous kids" "wf_auth auth" "cache_sound kids auth (paths s)"
    and "wf_uri uri" "kind uri = PATH" "segments uri \<noteq> []" "metadata_generation (paths s) \<noteq> active_query fe"
    and "serves_metadata client kids" "names kids (root_folder_for auth) (segments uri) d"
    and "\<not> is_folder d" "\<not> is_native_google_format d"
  shows "\<exists>t. open_for_reading fe client auth null_ok path uri s = Some (Inr (Some (plain_handle fe auth path d)), t) \<and>
    block_store t = set_capacity (get_ubigint_setting fe ''gdrive_block_cache_bytes'' 268435456) (block_store s)"
proof -
  from open_resolves [OF assms(1-8)] obtain b r t where
    t: "begin_query_here fe s = Some (Inr (), b)" "try_resolve_path fe client auth uri b = Some (Inr r, t)"
      "\<And>m. (\<exists>f. r = Some (m, f)) \<longleftrightarrow> names kids (root_folder_for auth) (segments uri) m"
      "metadata_entries (paths t) = []" "block_store t = block_store s" by blast
  from t(3) [of d] assms(10) obtain f where f: "r = Some (d, f)" by blast
  from names_in_kids [OF assms(10)] obtain p where "d \<in> set (kids p)" by blast
  from current_metadata_live [OF assms(9) this t(4)] obtain u where
    u: "current_metadata fe client auth path uri d f t = Some (Inr (Some d), u)" "block_store u = block_store t" by blast
  with t(1,2,5) f assms(11,12) show ?thesis
    by (simp add: open_for_reading_def fs_bind_def fs_guard_def read_handle_plain)
qed

text \<open>
  C7. Opening a path and reading the handle to the end gives the bytes of the file the path names: the
  whole of it, in order, whatever the sizes of the reads, with the block cache or without it, whatever
  earlier queries left in either cache.
\<close>

theorem open_then_read:
  assumes "has_opener fe" and "has_secret fe" and "parse_gdrive_uri path = Inr uri" and "kind uri = PATH"
    and "segments uri \<noteq> []" and "fst (auth_for fe path (net (world s))) = Inr auth"
    and "serves (create_client fe auth) kids" and "unambiguous kids" and "wf_auth auth"
    and "cache_sound kids auth (paths s)" and "metadata_generation (paths s) \<noteq> active_query fe"
    and "serves_metadata (create_client fe auth) kids"
    and "names kids (root_folder_for auth) (segments uri) d" and "\<not> is_folder d" and "\<not> is_native_google_format d"
    and "serves_bytes (create_client fe auth) (meta_id d) content" and "meta_size d = int (length content)"
    and "length content < 2 ^ 63"
    and "blocks_good (build_block_key auth d) (get_ubigint_setting fe ''gdrive_block_size_bytes'' 16777216) content (block_store s)"
    and "list_all (\<lambda>n. n < 2 ^ 63) ns" and "sum_list ns \<ge> length content"
  shows "\<exists>h t h' t'. open_file fe path False null_ok s = Some (Inr (Some h), t) \<and>
    read_pieces fe ns h t = Some (content, h', t') \<and> h_position h' = length content"
proof -
  obtain n where n: "auth_for fe path (net (world s)) = (Inr auth, n)" using assms(6) by (metis prod.collapse)
  let ?s = "s\<lparr>world := (world s)\<lparr>net := n\<rparr>\<rparr>" and ?h = "plain_handle fe auth path d"
  have same: "cache_sound kids auth (paths ?s)" "metadata_generation (paths ?s) \<noteq> active_query fe"
    using assms(10,11) by simp_all
  from open_reads_plain [OF assms(7-9) same(1) parse_wf [OF assms(3)] assms(4,5) same(2) assms(12-15)] obtain t where
    t: "open_for_reading fe (create_client fe auth) auth null_ok path uri ?s = Some (Inr (Some ?h), t)"
      "block_store t = set_capacity (get_ubigint_setting fe ''gdrive_block_cache_bytes'' 268435456) (block_store s)" by auto
  have "get_auth_context fe path s = Some (Inr auth, ?s)" by (simp add: get_auth_context_def fs_io_def n)
  with t(1) assms(1-3) have o: "open_file fe path False null_ok s = Some (Inr (Some ?h), t)"
    by (simp add: open_file_def fs_bind_def require_opener_def fs_guard_def parsed_uri_def)
  have "reads_file fe content ?h t"
    using assms(16-18) blocks_good_capacity [OF assms(19)]
    by (simp add: reads_file_def plain_handle_def new_handle_def t(2))
  from sequential_reads_cover_file [OF this _ assms(20)] assms(21) obtain t' where
    "read_pieces fe ns ?h t = Some (content, ?h\<lparr>h_position := length content\<rparr>, t')"
    by (auto simp: plain_handle_def new_handle_def)
  with o show ?thesis by fastforce
qed

text \<open>A Drive on which every file holds the address it is downloaded from, with one file on it.\<close>

definition echo_content :: string where
  "echo_content = api @ ''/x1?alt=media&'' @ all_drives_params"

definition echo_meta :: drive_file_meta where
  "echo_meta = sample_meta\<lparr>meta_size := int (length echo_content)\<rparr>"

definition echo_env :: "unit drive_env" where
  "echo_env = table_env [(list_path (name_query ''root'' ''a.csv'' False), [echo_meta])]"

definition echo_tree :: drive_tree where
  "echo_tree p = (if p = ''root'' then [echo_meta] else [])"

lemma echo_size: "length echo_content \<le> 1000"
  by (simp add: echo_content_def api_def all_drives_params_def)

lemma echo_meta_simps [simp]:
  "meta_name echo_meta = ''a.csv''" "\<not> is_folder echo_meta" "wf_meta echo_meta" "meta_id echo_meta = ''x1''"
  "\<not> is_native_google_format echo_meta"
  by (simp_all add: echo_meta_def sample_meta_def is_folder_def folder_mime_type_def wf_meta_def
      is_native_google_format_def native_google_apps_prefix_def order.strict_trans1 [OF echo_size])

lemma echo_serves: "serves echo_env echo_tree"
  unfolding echo_env_def
proof (rule table_serves)
  fix p nm f
  show "table_lookup [(list_path (name_query ''root'' ''a.csv'' False), [echo_meta])] (list_path (name_query p nm f)) =
      filter (\<lambda>m. meta_name m = nm \<and> (f \<longrightarrow> is_folder m)) (echo_tree p)"
    by (auto simp: table_lookup_def list_path_inject name_query_iff echo_tree_def)
qed (simp add: wf_table_def)

lemma echo_bytes: "serves_bytes echo_env ''x1'' echo_content"
proof -
  have x: "url_encode ''x1'' = ''x1''" by code_simp
  have "\<exists>w'. download echo_env ''x1'' a b w =
      (Inr (no_response\<lparr>resp_ok := True, resp_status := 200, resp_body := echo_content\<rparr>), w')" for a b w
    by (simp add: download_def execute_with_retry_def execute_loop.simps do_http_def echo_env_def table_env_def lost_env_def
        no_response_def Let_def echo_content_def x)
  then show ?thesis unfolding serves_bytes_def by fastforce
qed

theorem open_then_read_witness:
  "\<exists>h t h' t'. open_file (plain_fs_env echo_env) ''gdrive://a.csv'' False True start_state = Some (Inr (Some h), t) \<and>
    read_pieces (plain_fs_env echo_env) [7, 0, 1000] h t = Some (echo_content, h', t') \<and> h_position h' = length echo_content"
proof -
  let ?fe = "plain_fs_env echo_env"
  have parse: "parse_gdrive_uri ''gdrive://a.csv'' = Inr (path_uri [''a.csv''])" by code_simp
  have client: "create_client ?fe my_auth = echo_env"
    by (simp add: create_client_def plain_fs_env_def my_auth_def echo_env_def table_env_def lost_env_def)
  have root: "root_folder_for my_auth = ''root''" "wf_auth my_auth" "serves_metadata echo_env echo_tree"
    using table_metadata by (simp_all add: echo_env_def root_folder_for_def) (simp add: my_auth_def)
  have "unambiguous echo_tree" by (simp add: unambiguous_def echo_tree_def)
  moreover have "cache_sound echo_tree my_auth (paths start_state)" by (simp add: start_state_def empty_cache_sound)
  moreover have "fst (auth_for ?fe ''gdrive://a.csv'' (net (world start_state))) = Inr my_auth"
    by (simp add: plain_fs_env_def my_auth_def)
  moreover have "has_opener ?fe" "has_secret ?fe" "kind (path_uri [''a.csv'']) = PATH" "segments (path_uri [''a.csv'']) = [''a.csv'']"
    by (simp_all add: plain_fs_env_def path_uri_def)
  moreover have "names echo_tree ''root'' [''a.csv''] echo_meta"
    using names.first [of echo_meta echo_tree "''root''"] by (simp add: echo_tree_def)
  moreover have "metadata_generation (paths start_state) \<noteq> active_query ?fe"
    by (simp add: start_state_def empty_path_cache_def plain_fs_env_def)
  moreover have "blocks_good k bs echo_content (block_store start_state)" for k bs
    by (simp add: start_state_def blocks_good_def accounts_def empty_block_cache_def ent_def total_bytes_def)
  moreover have "meta_size echo_meta = int (length echo_content)" by (simp add: echo_meta_def)
  moreover have "length echo_content < 2 ^ 63" "length echo_content \<le> sum_list [7, 0, 1000::nat]" using echo_size by simp_all
  ultimately show ?thesis
    using echo_serves echo_bytes root
    by (intro open_then_read [OF _ _ parse, where auth = my_auth and kids = echo_tree and d = echo_meta])
       (simp_all add: client)
qed

end
