(* ===== verification/Listing.thy ===== *)
theory Listing
  imports OpenFile Glob
begin

text \<open>
  Listing a directory and globbing (\<open>ListFiles\<close> and \<open>Glob\<close> of \<open>src/gdrive_filesystem.cpp\<close>). Drive cannot
  match patterns: a glob lists the folder of its literal prefix, the whole tree below it if the pattern
  may match deeper, and matches locally. The recursion over the tree is a loop over the entries still to
  be emitted; it need not end, as a graph of folders need not be a tree.
\<close>

section \<open>ListFiles\<close>

definition name_count :: "string \<Rightarrow> string list \<Rightarrow> nat" where
  "name_count nm nms = length (filter (\<lambda>n. n = nm) nms)"

text \<open>What the callback gets for every child: its name, or the \<open>id:\<close> form if a sibling shares it.\<close>

definition listed_names :: "drive_file_meta list \<Rightarrow> (string \<times> bool) list" where
  "listed_names children = map (\<lambda>c.
     (if name_count (meta_name c) (map meta_name children) > 1 then ''id:'' @ meta_id c else meta_name c, is_folder c)) children"

definition list_files_in :: "'w fs_env \<Rightarrow> string \<Rightarrow> ((string \<times> bool) list option, 'w) fs" where
  "list_files_in fe directory =
     fs_bind (require_opener fe directory) (\<lambda>_.
     if \<not> has_secret fe then fs_ret None
     else case parse_gdrive_uri directory of
         Inl _ \<Rightarrow> fs_ret None
       | Inr uri \<Rightarrow>
           fs_bind (get_auth_context fe directory) (\<lambda>auth.
           let client = create_client fe auth in
           fs_bind (if kind uri = PATH \<and> segments uri = [] then fs_ret (root_folder_for auth)
                    else
                      fs_bind (resolve_path fe client auth uri) (\<lambda>m.
                      fs_bind (fs_guard (is_folder m)
                        (IOException (''gdrive: '' @ squote # directory @ squote # '' is not a directory''))) (\<lambda>_.
                      fs_ret (meta_id m)))) (\<lambda>parent_id.
           fs_bind (list_children client parent_id directory) (\<lambda>children.
           fs_ret (Some (listed_names children))))))"

section \<open>Glob\<close>

definition disambiguate_path :: "string \<Rightarrow> drive_file_meta \<Rightarrow> bool \<Rightarrow> string" where
  "disambiguate_path parent m name_is_ambiguous =
     (if name_is_ambiguous then scheme @ ''id:'' @ meta_id m else join_gdrive_path parent (meta_name m))"

type_synonym listing = "(string \<times> drive_file_meta) list"

definition rel_path :: "string \<Rightarrow> string \<Rightarrow> string" where
  "rel_path pre nm = (if pre = [] then nm else pre @ slash # nm)"

definition under :: "string \<Rightarrow> drive_file_meta list \<Rightarrow> listing" where
  "under pre children = map (\<lambda>c. (rel_path pre (meta_name c), c)) children"

text \<open>\<open>list_folder\<close>: \<open>todo\<close> are the entries still to be emitted, in order.\<close>

partial_function (option) list_tree ::
    "'w drive_env \<Rightarrow> string \<Rightarrow> bool \<Rightarrow> listing \<Rightarrow> listing \<Rightarrow> 'w fs_state \<Rightarrow> (listing outcome \<times> 'w fs_state) option" where
  "list_tree client path deep todo listed s =
     (case todo of
        [] \<Rightarrow> Some (Inr listed, s)
      | (rel, child) # rest \<Rightarrow>
          if deep \<and> is_folder child then
            (case list_children client (meta_id child) path s of
               None \<Rightarrow> None
             | Some (Inl e, s) \<Rightarrow> Some (Inl e, s)
             | Some (Inr children, s) \<Rightarrow> list_tree client path deep (under rel children @ rest) (listed @ [(rel, child)]) s)
          else list_tree client path deep rest (listed @ [(rel, child)]) s)"

definition list_folder :: "'w drive_env \<Rightarrow> string \<Rightarrow> bool \<Rightarrow> string \<Rightarrow> (listing, 'w) fs" where
  "list_folder client path deep parent_id =
     fs_bind (list_children client parent_id path) (\<lambda>children. list_tree client path deep (under [] children) [])"

text \<open>The entries that are cached: unambiguous ones, with no ambiguous ancestor.\<close>

definition rel_count :: "string \<Rightarrow> listing \<Rightarrow> nat" where
  "rel_count rel listing = name_count rel (map fst listing)"

definition under_ambiguous :: "listing \<Rightarrow> string \<Rightarrow> bool" where
  "under_ambiguous listing rel \<longleftrightarrow>
     list_ex (\<lambda>(amb, _). rel_count amb listing \<noteq> 1 \<and> length rel > length amb \<and> take (length amb) rel = amb \<and>
       rel ! length amb = slash) listing"

definition cache_listing ::
    "'w fs_env \<Rightarrow> auth_context \<Rightarrow> string \<Rightarrow> listing \<Rightarrow> path_cache \<Rightarrow> path_cache" where
  "cache_listing fe auth pre listing c =
     foldl (\<lambda>c (rel, m). put (active_query fe) (path_key auth (rel_path pre rel)) m c) c
       (filter (\<lambda>(rel, m). rel_count rel listing = 1 \<and> \<not> under_ambiguous listing rel) listing)"

definition entry_parent :: "string \<Rightarrow> string" where
  "entry_parent path =
     (let before = rev (dropWhile (\<lambda>c. c \<noteq> slash) (rev path)) in if before = [] then [] else butlast before)"

definition matches_of :: "string \<Rightarrow> string \<Rightarrow> listing \<Rightarrow> string list" where
  "matches_of pattern pre listing =
     map (\<lambda>(rel, m). disambiguate_path (entry_parent (rel_path pre rel)) m (rel_count rel listing > 1))
       (filter (\<lambda>(rel, m). match_path pattern (rel_path pre rel) \<and> \<not> is_folder m) listing)"

text \<open>A path without metacharacters, as a glob: it is its own result if a file is there.\<close>

definition glob_literal ::
    "'w fs_env \<Rightarrow> 'w drive_env \<Rightarrow> auth_context \<Rightarrow> gdrive_uri \<Rightarrow> string \<Rightarrow> (string list, 'w) fs" where
  "glob_literal fe client auth uri path =
     fs_bind (try_resolve_path fe client auth uri) (\<lambda>r.
       fs_ret (case r of None \<Rightarrow> [] | Some (m, _) \<Rightarrow> if is_folder m then [] else [path]))"

definition glob_pattern ::
    "'w fs_env \<Rightarrow> 'w drive_env \<Rightarrow> auth_context \<Rightarrow> string \<Rightarrow> string \<Rightarrow> (string list, 'w) fs" where
  "glob_pattern fe client auth path pattern =
     (if \<not> has_glob_metacharacters pattern then
        (case parse_gdrive_uri (scheme @ pattern) of
           Inl _ \<Rightarrow> fs_ret []
         | Inr uri \<Rightarrow> glob_literal fe client auth uri (scheme @ pattern))
      else
        let split = split_glob pattern;
            pre = literal_prefix split;
            search = (\<lambda>parent_id.
              fs_bind (list_folder client path (recursive split) parent_id) (\<lambda>listing.
              fs_bind (fs_paths_do (cache_listing fe auth pre listing)) (\<lambda>_.
              fs_ret (matches_of pattern pre listing)))) in
        if pre = [] then search (root_folder_for auth)
        else
          fs_bind (parsed_uri (scheme @ pre)) (\<lambda>uri.
          fs_bind (try_resolve_path fe client auth uri) (\<lambda>r.
            case r of None \<Rightarrow> fs_ret [] | Some (m, _) \<Rightarrow> search (meta_id m))))"

fun glob_patterns ::
    "'w fs_env \<Rightarrow> 'w drive_env \<Rightarrow> auth_context \<Rightarrow> string \<Rightarrow> string list \<Rightarrow> string list \<Rightarrow> (string list, 'w) fs" where
  "glob_patterns fe client auth path [] found = fs_ret found"
| "glob_patterns fe client auth path (pattern # rest) found =
     fs_bind (glob_pattern fe client auth path pattern) (\<lambda>more. glob_patterns fe client auth path rest (found @ more))"

text \<open>The results without repetitions, the first of each kept.\<close>

fun first_only :: "string list \<Rightarrow> string list \<Rightarrow> string list" where
  "first_only seen [] = []"
| "first_only seen (x # xs) = (if x \<in> set seen then first_only seen xs else x # first_only (x # seen) xs)"

definition glob :: "'w fs_env \<Rightarrow> string \<Rightarrow> (string list, 'w) fs" where
  "glob fe path =
     fs_bind (require_opener fe path) (\<lambda>_.
     fs_bind (fs_guard (has_secret fe) (no_secret path)) (\<lambda>_.
     fs_bind (begin_query_here fe) (\<lambda>_.
       case parse_gdrive_uri path of
         Inl e \<Rightarrow> if is_file_id_fallback_glob_probe path then fs_ret [] else fs_throw (IOException (''gdrive: '' @ e))
       | Inr uri \<Rightarrow>
           fs_bind (get_auth_context fe path) (\<lambda>auth.
           let client = create_client fe auth in
           if kind uri = FILE_ID \<or> \<not> has_glob_metacharacters path then glob_literal fe client auth uri path
           else
             let expanded = expand_braces (drop (length scheme) path) in
             fs_bind (fs_guard (expanded \<noteq> []) (InvalidInputException (''gdrive: glob pattern '' @ squote # path @ squote #
               '' is too large to expand (brace-alternation overflow)''))) (\<lambda>_.
             fs_bind (glob_patterns fe client auth path expanded []) (\<lambda>found.
             let found = first_only [] found in
             if found = [] then glob_literal fe client auth uri path else fs_ret found))))))"

section \<open>The listing of a tree\<close>

text \<open>
  What a listing should hold: the objects in the folder \<open>pid\<close>, in preorder, each followed by the tree below
  it. The depth \<open>n\<close> bounds the recursion; a rank of the folders that decreases downwards bounds the depth.
\<close>

fun subtree :: "nat \<Rightarrow> drive_tree \<Rightarrow> bool \<Rightarrow> string \<Rightarrow> string \<Rightarrow> listing" where
  "subtree 0 kids deep pre pid = []"
| "subtree (Suc n) kids deep pre pid =
     concat (map (\<lambda>c. (rel_path pre (meta_name c), c) #
       (if deep \<and> is_folder c then subtree n kids deep (rel_path pre (meta_name c)) (meta_id c) else [])) (kids pid))"

definition ranked :: "(string \<Rightarrow> nat) \<Rightarrow> drive_tree \<Rightarrow> bool" where
  "ranked rank kids \<longleftrightarrow> (\<forall>p. \<forall>m\<in>set (kids p). is_folder m \<longrightarrow> rank (meta_id m) < rank p)"

definition lists :: "'w drive_env \<Rightarrow> drive_tree \<Rightarrow> bool" where
  "lists client kids \<longleftrightarrow>
     (\<forall>pid ctx s. \<exists>w. list_children client pid ctx s = Some (Inr (kids pid), s\<lparr>world := w\<rparr>))"

definition entry_tree :: "nat \<Rightarrow> drive_tree \<Rightarrow> bool \<Rightarrow> string \<times> drive_file_meta \<Rightarrow> listing" where
  "entry_tree n kids deep x = x # (if deep \<and> is_folder (snd x) then subtree n kids deep (fst x) (meta_id (snd x)) else [])"

lemma subtree_entries: "subtree (Suc n) kids deep pre pid = concat (map (entry_tree n kids deep) (under pre (kids pid)))"
  by (simp add: under_def entry_tree_def o_def cong: if_cong)

lemma subtree_enough:
  assumes "ranked rank kids"
  shows "rank pid < n \<Longrightarrow> rank pid < m \<Longrightarrow> subtree n kids deep pre pid = subtree m kids deep pre pid"
proof (induction n arbitrary: m pre pid)
  case (Suc n)
  then obtain m' where m: "m = Suc m'" by (cases m) auto
  have "subtree n kids deep (rel_path pre (meta_name c)) (meta_id c) = subtree m' kids deep (rel_path pre (meta_name c)) (meta_id c)"
    if "c \<in> set (kids pid)" "is_folder c" for c
  proof -
    have "rank (meta_id c) < rank pid" using assms that by (auto simp: ranked_def)
    with Suc.IH [of "meta_id c" m'] Suc.prems m show ?thesis by simp
  qed
  then show ?case unfolding m subtree.simps by (intro arg_cong [of _ _ concat] map_cong) auto
qed simp

lemma list_tree_returns:
  assumes "lists client kids" "ranked rank kids"
  shows "(\<forall>x\<in>set todo. is_folder (snd x) \<longrightarrow> rank (meta_id (snd x)) < n) \<Longrightarrow>
    \<exists>w. list_tree client path deep todo listed s =
      Some (Inr (listed @ concat (map (entry_tree n kids deep) todo)), s\<lparr>world := w\<rparr>)"
proof (induction "length (concat (map (entry_tree n kids deep) todo))" arbitrary: todo listed s rule: less_induct)
  case less
  show ?case
  proof (cases todo)
    case Nil
    then show ?thesis by (intro exI [of _ "world s"]) (simp add: list_tree.simps)
  next
    case (Cons x rest)
    obtain rel c where x: "x = (rel, c)" by fastforce
    show ?thesis
    proof (cases "deep \<and> is_folder c")
      case False
      have e: "entry_tree n kids deep x = [x]" using False by (auto simp: entry_tree_def x)
      have "length (concat (map (entry_tree n kids deep) rest)) < length (concat (map (entry_tree n kids deep) todo))"
        unfolding Cons by (simp add: entry_tree_def)
      from less.hyps [OF this, of "listed @ [x]" s] less.prems Cons obtain w where
        "list_tree client path deep rest (listed @ [x]) s =
          Some (Inr ((listed @ [x]) @ concat (map (entry_tree n kids deep) rest)), s\<lparr>world := w\<rparr>)" by auto
      with Cons x False e show ?thesis by (intro exI [of _ w], subst list_tree.simps) auto
    next
      case True
      with less.prems Cons x have rk: "rank (meta_id c) < n" by auto
      then obtain k where k: "n = Suc k" by (cases n) auto
      let ?kids = "under rel (kids (meta_id c))"
      have "entry_tree n kids deep y = entry_tree k kids deep y" if "y \<in> set ?kids" for y
      proof -
        have "is_folder (snd y) \<longrightarrow> rank (meta_id (snd y)) < rank (meta_id c)"
          using that assms(2) by (auto simp: under_def ranked_def)
        then have "is_folder (snd y) \<Longrightarrow> subtree n kids deep (fst y) (meta_id (snd y)) = subtree k kids deep (fst y) (meta_id (snd y))"
          using rk k by (intro subtree_enough [OF assms(2)]) simp_all
        then show ?thesis by (auto simp: entry_tree_def simp del: subtree.simps)
      qed
      then have same: "concat (map (entry_tree n kids deep) ?kids) = subtree n kids deep rel (meta_id c)"
        unfolding k subtree_entries by (intro arg_cong [of _ _ concat] map_cong) (simp_all add: k)
      have e: "concat (map (entry_tree n kids deep) todo) = x # concat (map (entry_tree n kids deep) (?kids @ rest))"
        using True x Cons same by (simp add: entry_tree_def)
      have lt: "length (concat (map (entry_tree n kids deep) (?kids @ rest))) < length (concat (map (entry_tree n kids deep) todo))"
        unfolding e by simp
      have ranks: "\<forall>y\<in>set (?kids @ rest). is_folder (snd y) \<longrightarrow> rank (meta_id (snd y)) < n"
        using less.prems Cons assms(2) rk by (fastforce simp: under_def ranked_def)
      obtain w0 where l: "list_children client (meta_id c) path s = Some (Inr (kids (meta_id c)), s\<lparr>world := w0\<rparr>)"
        using assms(1) unfolding lists_def by blast
      from less.hyps [OF lt ranks, of "listed @ [x]" "s\<lparr>world := w0\<rparr>"] obtain w where
        "list_tree client path deep (?kids @ rest) (listed @ [x]) (s\<lparr>world := w0\<rparr>) =
          Some (Inr ((listed @ [x]) @ concat (map (entry_tree n kids deep) (?kids @ rest))), s\<lparr>world := w\<rparr>)" by auto
      with l True Cons x e show ?thesis by (intro exI [of _ w], subst list_tree.simps) simp
    qed
  qed
qed

lemma list_folder_returns:
  assumes "lists client kids" "ranked rank kids" "rank pid < n"
  shows "\<exists>w. list_folder client path deep pid s = Some (Inr (subtree n kids deep [] pid), s\<lparr>world := w\<rparr>)"
proof -
  obtain w0 where l: "list_children client pid path s = Some (Inr (kids pid), s\<lparr>world := w0\<rparr>)"
    using assms(1) unfolding lists_def by blast
  obtain k where k: "n = Suc k" using assms(3) by (cases n) auto
  have "\<forall>x\<in>set (under [] (kids pid)). is_folder (snd x) \<longrightarrow> rank (meta_id (snd x)) < k"
    using assms(2,3) k by (fastforce simp: under_def ranked_def)
  from list_tree_returns [OF assms(1,2) this, of path deep "[]" "s\<lparr>world := w0\<rparr>"] l show ?thesis
    by (auto simp: list_folder_def fs_bind_def k subtree_entries simp del: subtree.simps)
qed

section \<open>What a listing holds\<close>

lemma names_single: "names kids root [seg] m \<longleftrightarrow> m \<in> set (kids root) \<and> meta_name m = seg"
  using names_snoc [of kids root "[]" seg m] by auto

lemma names_Cons:
  "names kids root (seg # rest) m \<longleftrightarrow>
     (\<exists>c\<in>set (kids root). meta_name c = seg \<and> (if rest = [] then m = c else names kids (meta_id c) rest m))"
proof (induction rest arbitrary: m rule: rev_induct)
  case Nil
  show ?case by (auto simp: names_single)
next
  case (snoc x rest)
  have "names kids root (seg # rest @ [x]) m \<longleftrightarrow>
      meta_name m = x \<and> (\<exists>d. names kids root (seg # rest) d \<and> m \<in> set (kids (meta_id d)))"
    using names_snoc [of kids root "seg # rest" x m] by simp
  also have "\<dots> \<longleftrightarrow> (\<exists>c\<in>set (kids root). meta_name c = seg \<and> names kids (meta_id c) (rest @ [x]) m)"
    unfolding snoc.IH by (cases "rest = []") (auto simp: names_single names_snoc)
  finally show ?case by simp
qed

text \<open>Names as they can stand in a path.\<close>

definition plain_names :: "drive_tree \<Rightarrow> bool" where
  "plain_names kids \<longleftrightarrow> (\<forall>p. \<forall>m\<in>set (kids p). meta_name m \<noteq> [] \<and> slash \<notin> set (meta_name m))"

lemma names_wf_path: "plain_names kids \<Longrightarrow> names kids root segs m \<Longrightarrow> wf_path segs \<and> segs \<noteq> []"
  by (rotate_tac 1, induction rule: names.induct) (auto simp: plain_names_def)

definition below :: "string \<Rightarrow> string list \<Rightarrow> string" where
  "below pre segs = rel_path pre (join slash segs)"

lemma below_Cons: "pre \<noteq> [] \<or> seg \<noteq> [] \<Longrightarrow> rest \<noteq> [] \<Longrightarrow> below pre (seg # rest) = below (rel_path pre seg) rest"
  by (auto simp: below_def rel_path_def join_Cons)

lemma child_names:
  "names kids pid segs m \<longleftrightarrow>
    (\<exists>c\<in>set (kids pid). segs = [meta_name c] \<and> m = c \<or>
       (\<exists>rest. rest \<noteq> [] \<and> segs = meta_name c # rest \<and> names kids (meta_id c) rest m))"
proof (cases segs)
  case (Cons x xs)
  have "\<not> names kids i [] m" for i by auto
  then show ?thesis by (cases "xs = []") (auto simp: Cons names_Cons)
qed auto

lemma one_or_more:
  "(\<exists>segs. (segs = [x] \<and> P \<or> (\<exists>rest. rest \<noteq> [] \<and> segs = x # rest \<and> N rest)) \<and>
      (deep \<or> length segs = 1) \<and> rel = f segs) \<longleftrightarrow>
    rel = f [x] \<and> P \<or> deep \<and> (\<exists>rest. rest \<noteq> [] \<and> N rest \<and> rel = f (x # rest))"
  by auto

lemma below_child:
  assumes "plain_names kids" "c \<in> set (kids pid)" "names kids (meta_id c) rest m"
  shows "below (rel_path pre (meta_name c)) rest = below pre (meta_name c # rest)"
proof -
  have "meta_name c \<noteq> []" using assms(1,2) by (simp add: plain_names_def)
  moreover have "rest \<noteq> []" using assms(3) by auto
  ultimately show ?thesis by (simp add: below_Cons)
qed

lemma leaf_names:
  assumes "unambiguous kids" "c \<in> set (kids pid)" "\<not> is_folder c"
  shows "\<not> names kids (meta_id c) segs m"
proof
  assume n: "names kids (meta_id c) segs m"
  then obtain x xs where "segs = x # xs" by (cases segs) auto
  with n assms show False by (auto simp: names_Cons unambiguous_def)
qed

lemma subtree_member:
  assumes "ranked rank kids" "unambiguous kids" "plain_names kids"
  shows "rank pid < n \<Longrightarrow>
    (rel, m) \<in> set (subtree n kids deep pre pid) \<longleftrightarrow>
      (\<exists>segs. names kids pid segs m \<and> (deep \<or> length segs = 1) \<and> rel = below pre segs)"
proof (induction n arbitrary: pre pid)
  case (Suc n)
  have IH: "(rel, m) \<in> set (subtree n kids deep (rel_path pre (meta_name c)) (meta_id c)) \<longleftrightarrow>
      (\<exists>segs. names kids (meta_id c) segs m \<and> (deep \<or> length segs = 1) \<and> rel = below pre (meta_name c # segs))"
    if "c \<in> set (kids pid)" "is_folder c" for c
  proof -
    have "rank (meta_id c) < rank pid" using assms(1) that by (auto simp: ranked_def)
    with Suc below_child [OF assms(3) that(1)] show ?thesis by (simp cong: conj_cong)
  qed
  have "(rel, m) \<in> set (subtree (Suc n) kids deep pre pid) \<longleftrightarrow>
      (\<exists>c\<in>set (kids pid). (rel, m) = (rel_path pre (meta_name c), c) \<or>
         deep \<and> is_folder c \<and> (rel, m) \<in> set (subtree n kids deep (rel_path pre (meta_name c)) (meta_id c)))"
    by (auto split: if_splits)
  also have "\<dots> \<longleftrightarrow> (\<exists>c\<in>set (kids pid). (rel, m) = (below pre [meta_name c], c) \<or>
      deep \<and> (\<exists>segs. segs \<noteq> [] \<and> names kids (meta_id c) segs m \<and> rel = below pre (meta_name c # segs)))"
  proof (rule bex_cong [OF refl])
    fix c assume c: "c \<in> set (kids pid)"
    have "segs \<noteq> []" if "names kids (meta_id c) segs m" for segs using that by auto
    with IH [OF c] leaf_names [OF assms(2) c]
    have "deep \<Longrightarrow> is_folder c \<and> (rel, m) \<in> set (subtree n kids deep (rel_path pre (meta_name c)) (meta_id c)) \<longleftrightarrow>
        (\<exists>segs. segs \<noteq> [] \<and> names kids (meta_id c) segs m \<and> rel = below pre (meta_name c # segs))"
      by (cases "is_folder c") auto
    then show "((rel, m) = (rel_path pre (meta_name c), c) \<or>
        deep \<and> is_folder c \<and> (rel, m) \<in> set (subtree n kids deep (rel_path pre (meta_name c)) (meta_id c))) \<longleftrightarrow>
      ((rel, m) = (below pre [meta_name c], c) \<or>
        deep \<and> (\<exists>segs. segs \<noteq> [] \<and> names kids (meta_id c) segs m \<and> rel = below pre (meta_name c # segs)))"
      by (cases deep) (simp_all add: below_def)
  qed
  also have "\<dots> \<longleftrightarrow> (\<exists>segs. names kids pid segs m \<and> (deep \<or> length segs = 1) \<and> rel = below pre segs)"
    unfolding prod.inject one_or_more [where f = "below pre" and rel = rel and deep = deep, symmetric]
    by (subst child_names) blast
  finally show ?case .
qed simp

lemma below_inject:
  "wf_path segs \<Longrightarrow> wf_path segs' \<Longrightarrow> segs \<noteq> [] \<Longrightarrow> segs' \<noteq> [] \<Longrightarrow> below pre segs = below pre segs' \<longleftrightarrow> segs = segs'"
  using join_path_inject [of segs segs'] by (auto simp: below_def rel_path_def)

text \<open>The entries under one child all begin with its name.\<close>

lemma block_paths:
  assumes "ranked rank kids" "unambiguous kids" "plain_names kids" "rank pid < Suc n" "c \<in> set (kids pid)"
    and "rel \<in> fst ` set ((rel_path pre (meta_name c), c) #
       (if deep \<and> is_folder c then subtree n kids deep (rel_path pre (meta_name c)) (meta_id c) else []))"
  shows "\<exists>rest. wf_path (meta_name c # rest) \<and> rel = below pre (meta_name c # rest)"
proof (cases "rel = rel_path pre (meta_name c)")
  case True
  with assms(3,5) show ?thesis by (intro exI [of _ "[]"]) (auto simp: plain_names_def below_def)
next
  case False
  with assms(6) obtain m where m: "is_folder c" "(rel, m) \<in> set (subtree n kids deep (rel_path pre (meta_name c)) (meta_id c))"
    by (auto split: if_splits)
  then have "rank (meta_id c) < n" using assms(1,4,5) by (fastforce simp: ranked_def)
  with m(2) subtree_member [OF assms(1-3), of "meta_id c" n rel m deep "rel_path pre (meta_name c)"] obtain segs where
    segs: "names kids (meta_id c) segs m" "rel = below (rel_path pre (meta_name c)) segs" by blast
  from names_wf_path [OF assms(3) segs(1)] assms(3,5) segs(2) below_Cons [of pre "meta_name c" segs]
  show ?thesis by (intro exI [of _ segs]) (auto simp: plain_names_def)
qed

lemma subtree_distinct:
  assumes "ranked rank kids" "unambiguous kids" "plain_names kids"
  shows "rank pid < n \<Longrightarrow> distinct (map fst (subtree n kids deep pre pid))"
proof (induction n arbitrary: pre pid)
  case (Suc n)
  let ?block = "\<lambda>c. map fst ((rel_path pre (meta_name c), c) #
     (if deep \<and> is_folder c then subtree n kids deep (rel_path pre (meta_name c)) (meta_id c) else []))"
  have paths: "\<exists>rest. wf_path (meta_name c # rest) \<and> rel = below pre (meta_name c # rest)"
    if "c \<in> set (kids pid)" "rel \<in> set (?block c)" for c rel
    using block_paths [OF assms Suc.prems that(1), of rel pre deep] that(2) by auto
  have d: "distinct (map meta_name (kids pid))" using assms(2) by (simp add: unambiguous_def)
  have disjoint: "c = c'" if "c \<in> set (kids pid)" "c' \<in> set (kids pid)" "rel \<in> set (?block c)" "rel \<in> set (?block c')" for c c' rel
  proof -
    from paths [OF that(1,3)] paths [OF that(2,4)] below_inject have "meta_name c = meta_name c'" by blast
    with d that(1,2) show ?thesis by (auto simp: distinct_map inj_on_def)
  qed
  have "distinct (?block c)" if c: "c \<in> set (kids pid)" for c
  proof (cases "deep \<and> is_folder c")
    case True
    then have r: "rank (meta_id c) < n" using assms(1) c Suc.prems by (fastforce simp: ranked_def)
    have "rel_path pre (meta_name c) \<noteq> rel" if "(rel, m) \<in> set (subtree n kids deep (rel_path pre (meta_name c)) (meta_id c))" for rel m
    proof -
      from that subtree_member [OF assms r] obtain segs where
        segs: "names kids (meta_id c) segs m" "rel = below (rel_path pre (meta_name c)) segs" by blast
      from names_wf_path [OF assms(3) segs(1)] have w: "wf_path segs" "segs \<noteq> []" by auto
      have "meta_name c \<noteq> [] \<and> slash \<notin> set (meta_name c)" using assms(3) c by (simp add: plain_names_def)
      with w below_Cons [of pre "meta_name c" segs] segs(2) below_inject [of "[meta_name c]" "meta_name c # segs" pre]
      show ?thesis by (auto simp: below_def)
    qed
    with Suc.IH [OF r] True show ?thesis by fastforce
  qed auto
  note each = this
  have "distinct (concat (map ?block (kids pid)))"
  proof (rule distinct_concat)
    have "c = c'" if "c \<in> set (kids pid)" "c' \<in> set (kids pid)" "?block c = ?block c'" for c c'
      using disjoint [OF that(1,2), of "rel_path pre (meta_name c)"] that(3) by simp
    with d show "distinct (map ?block (kids pid))" by (simp add: distinct_map inj_on_def)
    show "distinct ys" if "ys \<in> set (map ?block (kids pid))" for ys
      using that each by auto
    show "set ys \<inter> set zs = {}" if ys: "ys \<in> set (map ?block (kids pid))" and zs: "zs \<in> set (map ?block (kids pid))"
      and ne: "ys \<noteq> zs" for ys zs
    proof -
      from ys zs obtain c c' where c: "c \<in> set (kids pid)" "c' \<in> set (kids pid)" "ys = ?block c" "zs = ?block c'"
        unfolding set_map by blast
      show ?thesis
      proof (rule ccontr)
        assume "set ys \<inter> set zs \<noteq> {}"
        then obtain rel where "rel \<in> set (?block c)" "rel \<in> set (?block c')" unfolding c(3,4) by blast
        from disjoint [OF c(1,2) this] have "c = c'" .
        with ne show False unfolding c(3,4) by blast
      qed
    qed
  qed
  then show ?case by (simp add: map_concat o_def if_distrib cong: if_cong)
qed simp

lemma rel_count_distinct: "distinct (map fst xs) \<Longrightarrow> (rel, m) \<in> set xs \<Longrightarrow> rel_count rel xs = 1"
proof (induction xs)
  case (Cons x xs)
  have "filter (\<lambda>n. n = rel) (map fst xs) = []" if "rel \<notin> fst ` set xs" using that by (auto simp: filter_empty_conv)
  with Cons show ?case by (cases "fst x = rel") (auto simp: rel_count_def name_count_def rev_image_eqI)
qed simp

section \<open>A glob finds exactly the matching files\<close>

lemma stands_names:
  assumes "stands kids root before meta pid" "unambiguous kids" "tail \<noteq> []"
  shows "names kids root (before @ tail) m \<longleftrightarrow> names kids pid tail m"
proof (cases meta)
  case None
  with assms(1) show ?thesis by (simp add: stands_def)
next
  case (Some d)
  then have d: "names kids root before d" "pid = meta_id d" using assms(1) by (auto simp: stands_def)
  show ?thesis using assms(3)
  proof (induction tail arbitrary: m rule: rev_induct)
    case (snoc x tail)
    show ?case
    proof (cases "tail = []")
      case True
      have "before \<noteq> []" using d(1) by auto
      moreover have "(\<exists>d'. names kids root before d' \<and> m \<in> set (kids (meta_id d'))) \<longleftrightarrow> m \<in> set (kids pid)"
        using d names_unique [OF assms(2) d(1)] by blast
      ultimately show ?thesis using True by (simp add: names_snoc [of _ _ before] names_single conj_commute)
    next
      case False
      then show ?thesis using snoc.IH names_snoc [of kids root "before @ tail" x m] names_snoc [of kids pid tail x m] by simp
    qed
  qed simp
qed

lemma rel_path_join: "wf_path before \<Longrightarrow> tail \<noteq> [] \<Longrightarrow> rel_path (join slash before) (join slash tail) = join slash (before @ tail)"
proof (cases "before = []")
  case False
  assume "wf_path before" "tail \<noteq> []"
  then have "join slash before \<noteq> []" using False last_join [of before slash] by (auto simp: wf_path_def)
  with False \<open>tail \<noteq> []\<close> join_append_Cons [of before tail slash] show ?thesis by (simp add: rel_path_def)
qed (simp add: rel_path_def)

lemma entry_parent_join:
  assumes "slash \<notin> set n"
  shows "entry_parent (join slash (xs @ [n])) = join slash xs"
proof (cases "xs = []")
  case True
  have "dropWhile (\<lambda>c. c \<noteq> slash) (rev n) = []" using assms by (simp add: dropWhile_eq_Nil_conv) blast
  with True show ?thesis by (simp add: entry_parent_def)
next
  case False
  have "dropWhile (\<lambda>c. c \<noteq> slash) (rev n @ slash # rev (join slash xs)) = slash # rev (join slash xs)"
    using assms by (subst dropWhile_append2) auto
  with False join_append_Cons [of xs "[n]" slash] show ?thesis by (simp add: entry_parent_def)
qed

lemma join_gdrive_path_join: "wf_path xs \<Longrightarrow> join_gdrive_path (join slash xs) n = scheme @ join slash (xs @ [n])"
proof (cases "xs = []")
  case False
  assume "wf_path xs"
  then have "join slash xs \<noteq> []" using False last_join [of xs slash] by (auto simp: wf_path_def)
  with False join_append_Cons [of xs "[n]" slash] show ?thesis by (simp add: join_gdrive_path_def)
qed (simp add: join_gdrive_path_def)

lemma names_last: "names kids root segs m \<Longrightarrow> last segs = meta_name m"
  by (cases rule: names.cases) auto

text \<open>Where the search of one pattern starts, and the result it gives from there.\<close>

definition search_from :: "'w fs_env \<Rightarrow> 'w drive_env \<Rightarrow> auth_context \<Rightarrow> string \<Rightarrow> string \<Rightarrow> bool \<Rightarrow> string \<Rightarrow> string \<Rightarrow> (string list, 'w) fs" where
  "search_from fe client auth path pattern deep pre parent_id =
     fs_bind (list_folder client path deep parent_id) (\<lambda>listing.
     fs_bind (fs_paths_do (cache_listing fe auth pre listing)) (\<lambda>_.
     fs_ret (matches_of pattern pre listing)))"

lemma puts_sound:
  assumes "wf_auth auth" "wf_path before" "plain_names kids"
    and "\<forall>(rel, m)\<in>set xs. \<exists>tail. tail \<noteq> [] \<and> rel = join slash tail \<and> names kids (root_folder_for auth) (before @ tail) m"
  shows "cache_sound kids auth c \<Longrightarrow>
    cache_sound kids auth (foldl (\<lambda>c (rel, m). put q (path_key auth (rel_path (join slash before) rel)) m c) c xs)"
  using assms(4)
proof (induction xs arbitrary: c)
  case (Cons x xs)
  obtain rel m where x: "x = (rel, m)" by fastforce
  with Cons.prems(2) obtain tail where tail: "tail \<noteq> []" "rel = join slash tail" "names kids (root_folder_for auth) (before @ tail) m"
    by auto
  have "cache_sound kids auth (put q (path_key auth (join slash (before @ tail))) m c)"
    by (rule cache_sound_put [OF Cons.prems(1) assms(1) _ _ tail(3)]) (use names_wf_path [OF assms(3) tail(3)] in auto)
  with Cons.IH Cons.prems(2) rel_path_join [OF assms(2) tail(1)] show ?case by (simp add: x tail(2))
qed simp

lemma listing_member:
  assumes "ranked rank kids" "unambiguous kids" "plain_names kids" "stands kids root before meta pid"
  shows "(rel, m) \<in> set (subtree (Suc (rank pid)) kids deep [] pid) \<longleftrightarrow>
      (\<exists>tail. tail \<noteq> [] \<and> names kids root (before @ tail) m \<and> (deep \<or> length tail = 1) \<and> rel = join slash tail)"
proof -
  have "(rel, m) \<in> set (subtree (Suc (rank pid)) kids deep [] pid) \<longleftrightarrow>
      (\<exists>tail. names kids pid tail m \<and> (deep \<or> length tail = 1) \<and> rel = below [] tail)"
    by (rule subtree_member [OF assms(1-3)]) simp
  moreover have "names kids pid tail m \<longleftrightarrow> tail \<noteq> [] \<and> names kids root (before @ tail) m" for tail
    using stands_names [OF assms(4,2), of tail m] by (cases "tail = []") auto
  moreover have "below [] tail = join slash tail" for tail by (simp add: below_def rel_path_def)
  ultimately show ?thesis by (simp only: conj_assoc)
qed

text \<open>A match whose path is its own is printed as the path it has.\<close>

lemma match_printed:
  assumes "plain_names kids" "wf_path before" "tail \<noteq> []" "names kids root (before @ tail) m"
  shows "disambiguate_path (entry_parent (rel_path (join slash before) (join slash tail))) m False =
    scheme @ join slash (before @ tail)"
proof -
  let ?segs = "before @ tail"
  have wf: "wf_path ?segs" "?segs \<noteq> []" using names_wf_path [OF assms(1,4)] by auto
  then have segs: "?segs = butlast ?segs @ [meta_name m]" using names_last [OF assms(4)] append_butlast_last_id by metis
  then have w: "wf_path (butlast ?segs)" "slash \<notin> set (meta_name m)" using wf(1) by (metis wf_path_simps(2,3))+
  have rp: "rel_path (join slash before) (join slash tail) = join slash (butlast ?segs @ [meta_name m])"
    using rel_path_join [OF assms(2,3)] segs by metis
  have "disambiguate_path (entry_parent (rel_path (join slash before) (join slash tail))) m False =
      scheme @ join slash (butlast ?segs @ [meta_name m])"
    unfolding rp entry_parent_join [OF w(2)] using join_gdrive_path_join [OF w(1)] by (simp add: disambiguate_path_def)
  also have "\<dots> = scheme @ join slash ?segs" using segs by (rule arg_cong [OF sym])
  finally show ?thesis .
qed

lemma set_matches_of:
  "set (matches_of pattern pre listing) =
     {disambiguate_path (entry_parent (rel_path pre rel)) m (rel_count rel listing > 1) | rel m.
        (rel, m) \<in> set listing \<and> match_path pattern (rel_path pre rel) \<and> \<not> is_folder m}"
  unfolding matches_of_def by force

lemma search_exact:
  assumes "lists client kids" "ranked rank kids" "unambiguous kids" "plain_names kids" "wf_auth auth"
    and "cache_sound kids auth (paths s)" "stands kids (root_folder_for auth) before meta pid" "wf_path before"
  shows "\<exists>r s'. search_from fe client auth path pattern deep (join slash before) pid s = Some (Inr r, s') \<and>
    cache_sound kids auth (paths s') \<and>
    set r = {scheme @ join slash (before @ tail) | tail m. tail \<noteq> [] \<and> names kids (root_folder_for auth) (before @ tail) m \<and>
      \<not> is_folder m \<and> match_path pattern (join slash (before @ tail)) \<and> (deep \<or> length tail = 1)}"
proof -
  let ?at = "names kids (root_folder_for auth)" and ?pre = "join slash before"
  define listing where "listing = subtree (Suc (rank pid)) kids deep [] pid"
  from list_folder_returns [OF assms(1,2), of pid "Suc (rank pid)" path deep s] obtain w where
    l: "list_folder client path deep pid s = Some (Inr listing, s\<lparr>world := w\<rparr>)" by (auto simp: listing_def)
  note mem = listing_member [OF assms(2-4,7), of _ _ deep, folded listing_def]
  have one: "\<not> rel_count rel listing > 1" if "(rel, m) \<in> set listing" for rel m
  proof -
    from rel_count_distinct [OF subtree_distinct [OF assms(2-4)] that [unfolded listing_def]] show ?thesis
      by (simp add: listing_def del: subtree.simps)
  qed
  let ?c = "cache_listing fe auth ?pre listing (paths s)"
  have "cache_sound kids auth ?c"
    unfolding cache_listing_def by (rule puts_sound [OF assms(5,8,4) _ assms(6)]) (use mem in auto)
  moreover have "search_from fe client auth path pattern deep ?pre pid s =
      Some (Inr (matches_of pattern ?pre listing), s\<lparr>world := w, paths := ?c\<rparr>)"
    using l by (simp add: search_from_def fs_bind_def)
  moreover have "x \<in> set (matches_of pattern ?pre listing) \<longleftrightarrow> (\<exists>tail m. x = scheme @ join slash (before @ tail) \<and> tail \<noteq> [] \<and>
      ?at (before @ tail) m \<and> \<not> is_folder m \<and> match_path pattern (join slash (before @ tail)) \<and> (deep \<or> length tail = 1))" for x
  proof -
    have "x \<in> set (matches_of pattern ?pre listing) \<longleftrightarrow> (\<exists>rel m. (rel, m) \<in> set listing \<and>
        x = disambiguate_path (entry_parent (rel_path ?pre rel)) m False \<and> match_path pattern (rel_path ?pre rel) \<and> \<not> is_folder m)"
      unfolding set_matches_of mem_Collect_eq using one by (intro ex_cong1) auto
    also have "\<dots> \<longleftrightarrow> (\<exists>tail m. tail \<noteq> [] \<and> ?at (before @ tail) m \<and> (deep \<or> length tail = 1) \<and>
        x = disambiguate_path (entry_parent (rel_path ?pre (join slash tail))) m False \<and>
        match_path pattern (rel_path ?pre (join slash tail)) \<and> \<not> is_folder m)"
      unfolding mem by blast
    also have "\<dots> \<longleftrightarrow> (\<exists>tail m. x = scheme @ join slash (before @ tail) \<and> tail \<noteq> [] \<and>
        ?at (before @ tail) m \<and> \<not> is_folder m \<and> match_path pattern (join slash (before @ tail)) \<and> (deep \<or> length tail = 1))"
      using match_printed [OF assms(4,8)] rel_path_join [OF assms(8)] by (intro ex_cong1) auto
    finally show ?thesis .
  qed
  ultimately show ?thesis
    by (intro exI [of _ "matches_of pattern ?pre listing"] exI [of _ "s\<lparr>world := w, paths := ?c\<rparr>"])
      (simp add: set_eq_iff)
qed

text \<open>A literal prefix that is written as a path is printed: no empty segment, no \<open>id:\<close> form, no dots.\<close>

definition canonical_prefix :: "string \<Rightarrow> bool" where
  "canonical_prefix pattern \<longleftrightarrow> literal_prefix (split_glob pattern) = [] \<or>
     (\<exists>u. parse_gdrive_uri (scheme @ literal_prefix (split_glob pattern)) = Inr u \<and> kind u = PATH \<and>
        to_string u = scheme @ literal_prefix (split_glob pattern))"

lemma match_wf_path:
  assumes "wf_path segs" "segs \<noteq> []"
  shows "match_path pattern (join slash segs) \<longleftrightarrow> path_ref (split_on_slash pattern) segs"
proof -
  have "split_on_slash (join slash segs) = segs"
    using assms unfolding split_on_slash_def by (intro split_at_join) (auto simp: wf_path_def)
  then show ?thesis
    using match_segments_ref [of "split_on_slash pattern" segs "\<lambda>_. None" 0 0] by (simp add: match_path_def memo_ok_def)
qed

lemma glob_pattern_search:
  "has_glob_metacharacters pattern \<Longrightarrow> glob_pattern fe client auth path pattern =
     (let pre = literal_prefix (split_glob pattern);
          search = search_from fe client auth path pattern (recursive (split_glob pattern)) pre in
      if pre = [] then search (root_folder_for auth)
      else fs_bind (parsed_uri (scheme @ pre)) (\<lambda>uri. fs_bind (try_resolve_path fe client auth uri) (\<lambda>r.
        case r of None \<Rightarrow> fs_ret [] | Some (m, _) \<Rightarrow> search (meta_id m))))"
  by (simp add: glob_pattern_def search_from_def Let_def)

text \<open>Which paths match, by the literal segments of the pattern and what follows them.\<close>

lemma match_splits:
  assumes "has_glob_metacharacters pattern" "wf_path segs" "segs \<noteq> []" "match_path pattern (join slash segs)"
    and "split_on_slash pattern = before @ g # rest" "\<forall>b\<in>set before. \<not> has_glob_metacharacters b"
    and "recursive (split_glob pattern) = (rest \<noteq> [] \<or> find_sub ''**'' (join slash (g # rest)) \<noteq> None)"
  shows "\<exists>tail. segs = before @ tail \<and> (recursive (split_glob pattern) \<or> length tail = 1)"
proof -
  from assms(4) match_wf_path [OF assms(2,3)] have "path_ref (before @ g # rest) segs" by (simp add: assms(5))
  then obtain tail where tail: "segs = before @ tail" "path_ref (g # rest) tail"
    using path_ref_literal_prefix [OF assms(6)] by blast
  have "length tail = 1" if "\<not> recursive (split_glob pattern)"
  proof -
    from that assms(7) have "rest = []" "g \<noteq> ''**''" by auto
    with tail(2) show ?thesis by (cases tail; cases "List.tl tail") auto
  qed
  with tail(1) show ?thesis by blast
qed

text \<open>The literal segments of a pattern, and where the paths are that it can match.\<close>

lemma pattern_parts:
  assumes "has_glob_metacharacters pattern" "plain_names kids"
  obtains before where "literal_prefix (split_glob pattern) = join slash before" "\<forall>b\<in>set before. slash \<notin> set b"
    "\<And>segs m. names kids root segs m \<Longrightarrow> match_path pattern (join slash segs) \<Longrightarrow>
      (\<exists>tail. segs = before @ tail \<and> (recursive (split_glob pattern) \<or> length tail = 1)) \<and> wf_path segs \<and> segs \<noteq> []"
proof -
  obtain before g rest where sp: "split_on_slash pattern = before @ g # rest" "\<forall>b\<in>set before. \<not> has_glob_metacharacters b"
    and pre: "literal_prefix (split_glob pattern) = join slash before"
    and deep: "recursive (split_glob pattern) = (rest \<noteq> [] \<or> find_sub ''**'' (join slash (g # rest)) \<noteq> None)"
    using split_glob_parts [OF assms(1)] by metis
  have "\<forall>b\<in>set before. slash \<notin> set b" using split_on_slash_free [of _ pattern] sp(1) by auto
  moreover have "(\<exists>tail. segs = before @ tail \<and> (recursive (split_glob pattern) \<or> length tail = 1)) \<and> wf_path segs \<and> segs \<noteq> []"
    if "names kids root segs m" "match_path pattern (join slash segs)" for segs m
    using match_splits [OF assms(1) _ _ that(2) sp deep] names_wf_path [OF assms(2) that(1)] by auto
  ultimately show thesis using pre that by blast
qed

text \<open>The files that a pattern should find.\<close>

definition matching_files :: "drive_tree \<Rightarrow> string \<Rightarrow> string \<Rightarrow> string set" where
  "matching_files kids root pattern = {scheme @ join slash segs | segs m. names kids root segs m \<and> \<not> is_folder m \<and>
     match_path pattern (join slash segs) \<and> join slash segs \<noteq> literal_prefix (split_glob pattern)}"

lemma join_wf_path: "wf_path segs \<Longrightarrow> segs \<noteq> [] \<Longrightarrow> join slash segs \<noteq> []"
  using last_join [of segs slash] by (auto simp: wf_path_def)

lemma glob_from_root:
  assumes "lists client kids" "ranked rank kids" "unambiguous kids" "plain_names kids" "wf_auth auth"
    and "cache_sound kids auth (paths s)" "has_glob_metacharacters pattern" "literal_prefix (split_glob pattern) = []"
  shows "\<exists>r s'. glob_pattern fe client auth path pattern s = Some (Inr r, s') \<and> cache_sound kids auth (paths s') \<and>
    set r = matching_files kids (root_folder_for auth) pattern"
proof -
  let ?root = "root_folder_for auth" and ?deep = "recursive (split_glob pattern)"
  obtain before where pre: "literal_prefix (split_glob pattern) = join slash before" and match:
    "\<And>segs m. names kids ?root segs m \<Longrightarrow> match_path pattern (join slash segs) \<Longrightarrow>
      (\<exists>tail. segs = before @ tail \<and> (?deep \<or> length tail = 1)) \<and> wf_path segs \<and> segs \<noteq> []"
    using pattern_parts [OF assms(7,4)] by metis
  have "stands kids ?root [] None ?root" by (simp add: stands_def)
  from search_exact [OF assms(1-6) this, of fe path pattern ?deep] obtain r s' where
    r: "search_from fe client auth path pattern ?deep [] ?root s = Some (Inr r, s')" "cache_sound kids auth (paths s')"
    "set r = {scheme @ join slash tail | tail m. tail \<noteq> [] \<and> names kids ?root tail m \<and> \<not> is_folder m \<and>
      match_path pattern (join slash tail) \<and> (?deep \<or> length tail = 1)}" by auto
  have "join slash segs \<noteq> [] \<and> (?deep \<or> length segs = 1)" if "names kids ?root segs m" "match_path pattern (join slash segs)" for segs m
  proof -
    note m = match [OF that]
    have "before = []"
    proof (rule ccontr)
      assume "before \<noteq> []"
      moreover have "wf_path before" using m wf_path_simps(3) by metis
      ultimately show False using join_wf_path assms(8) pre by metis
    qed
    with m join_wf_path show ?thesis by auto
  qed
  then have "set r = matching_files kids ?root pattern" unfolding r(3) matching_files_def assms(8) using match by (intro Collect_cong) blast
  with r(1,2) assms(8) show ?thesis
    unfolding glob_pattern_search [OF assms(7)]
    by (intro exI [of _ r] exI [of _ s']) (simp add: Let_def)
qed

text \<open>A literal prefix, as the segments of the path it is.\<close>

lemma prefix_segments:
  assumes "parse_gdrive_uri (scheme @ pre) = Inr u" "kind u = PATH" "to_string u = scheme @ pre" "pre \<noteq> []"
    "pre = join slash before" "\<forall>b\<in>set before. slash \<notin> set b"
  shows "segments u = before" "wf_path before" "before \<noteq> []"
proof -
  have wf: "wf_path (segments u)" using wf_uri_path [OF parse_wf [OF assms(1)] assms(2)] by simp
  have j: "join slash (segments u) = join slash before" using assms(2,3,5) by (simp add: to_string_def)
  then have "segments u \<noteq> []" "before \<noteq> []" using assms(4,5) by auto
  with j join_inject [of "segments u" before slash] wf assms(6) have "segments u = before" by (auto simp: wf_path_def)
  with wf \<open>before \<noteq> []\<close> show "segments u = before" "wf_path before" "before \<noteq> []" by auto
qed

lemma glob_from_prefix:
  assumes "lists client kids" "serves client kids" "ranked rank kids" "unambiguous kids" "plain_names kids" "wf_auth auth"
    and "cache_sound kids auth (paths s)" "has_glob_metacharacters pattern" "canonical_prefix pattern"
    and "literal_prefix (split_glob pattern) \<noteq> []"
  shows "\<exists>r s'. glob_pattern fe client auth path pattern s = Some (Inr r, s') \<and> cache_sound kids auth (paths s') \<and>
    set r = matching_files kids (root_folder_for auth) pattern"
proof -
  let ?root = "root_folder_for auth" and ?deep = "recursive (split_glob pattern)" and ?pre = "literal_prefix (split_glob pattern)"
  let ?at = "names kids ?root"
  obtain before where pre: "?pre = join slash before" "\<forall>b\<in>set before. slash \<notin> set b" and match:
    "\<And>segs m. ?at segs m \<Longrightarrow> match_path pattern (join slash segs) \<Longrightarrow>
      (\<exists>tail. segs = before @ tail \<and> (?deep \<or> length tail = 1)) \<and> wf_path segs \<and> segs \<noteq> []"
    using pattern_parts [OF assms(8,5)] by metis
  from assms(9,10) obtain u where u: "parse_gdrive_uri (scheme @ ?pre) = Inr u" "kind u = PATH" "to_string u = scheme @ ?pre"
    unfolding canonical_prefix_def by blast
  note segs = prefix_segments [OF u assms(10) pre]
  from try_resolve_correct [OF assms(2,4,6,7) parse_wf [OF u(1)] u(2)] segs(1,3) obtain r0 t where
    t: "try_resolve_path fe client auth u s = Some (Inr r0, t)" "cache_sound kids auth (paths t)"
    "\<And>m. (\<exists>f. r0 = Some (m, f)) \<longleftrightarrow> ?at before m" by blast
  have beyond: "\<exists>tail. segs = before @ tail \<and> tail \<noteq> [] \<and> (?deep \<or> length tail = 1)"
    if "?at segs m" "match_path pattern (join slash segs)" "join slash segs \<noteq> ?pre" for segs m
    using match [OF that(1,2)] that(3) pre by auto
  show ?thesis
  proof (cases r0)
    case None
    with t(3) have no: "\<not> ?at before m" for m by auto
    have "matching_files kids ?root pattern = {}"
      unfolding matching_files_def using beyond names_append [of kids ?root before] segs(3) no by blast
    with None t(1,2) u(1) assms(10) show ?thesis
      unfolding glob_pattern_search [OF assms(8)]
      by (intro exI [of _ "[]"] exI [of _ t]) (simp add: Let_def parsed_uri_def fs_bind_def)
  next
    case (Some x)
    obtain d f where x: "x = (d, f)" by fastforce
    with Some t(3) have d: "?at before d" by auto
    then have st: "stands kids ?root before (Some d) (meta_id d)" by (simp add: stands_def)
    from search_exact [OF assms(1,3-6) t(2) st, of fe path pattern ?deep] segs(2) obtain r s' where
      r: "search_from fe client auth path pattern ?deep ?pre (meta_id d) t = Some (Inr r, s')" "cache_sound kids auth (paths s')"
      "set r = {scheme @ join slash (before @ tail) | tail m. tail \<noteq> [] \<and> ?at (before @ tail) m \<and> \<not> is_folder m \<and>
        match_path pattern (join slash (before @ tail)) \<and> (?deep \<or> length tail = 1)}" unfolding pre by auto
    have "join slash (before @ tail) \<noteq> ?pre" if "?at (before @ tail) m" "tail \<noteq> []" for tail m
      using join_path_inject [of "before @ tail" before] names_wf_path [OF assms(5) that(1)] segs that(2) pre by auto
    then have "set r = matching_files kids ?root pattern" unfolding r(3) matching_files_def using beyond by blast
    with r(1,2) Some x t(1) u(1) assms(10) show ?thesis
      unfolding glob_pattern_search [OF assms(8)]
      by (intro exI [of _ r] exI [of _ s']) (simp add: Let_def parsed_uri_def fs_bind_def)
  qed
qed

text \<open>
  C11. A pattern finds exactly the files it matches: over a Drive that keeps still and is a tree with one
  object per path, the search of a pattern returns, and its result is the set of the paths, each in the
  form that opens again, of all files strictly below the literal prefix whose path the pattern matches:
  none is missed because the listing did not go deep enough, no folder and no other file is among them.
  Everything it put into the path cache is right.
\<close>

theorem glob_finds_matches:
  assumes "lists client kids" and "serves client kids" and "ranked rank kids" and "unambiguous kids"
    and "plain_names kids" and "wf_auth auth" and "cache_sound kids auth (paths s)"
    and "has_glob_metacharacters pattern" and "canonical_prefix pattern"
  shows "\<exists>r s'. glob_pattern fe client auth path pattern s = Some (Inr r, s') \<and> cache_sound kids auth (paths s') \<and>
    set r = {scheme @ join slash segs | segs m. names kids (root_folder_for auth) segs m \<and> \<not> is_folder m \<and>
      match_path pattern (join slash segs) \<and> join slash segs \<noteq> literal_prefix (split_glob pattern)}"
  using glob_from_root [OF assms(1,3-8)] glob_from_prefix [OF assms]
  unfolding matching_files_def by (cases "literal_prefix (split_glob pattern) = []") blast+

lemma children_query_iff:
  "in_parents p @ ''trashed=false'' = in_parents p' @ ''trashed=false'' \<longleftrightarrow> p = p'"
  "in_parents p @ ''trashed=false'' \<noteq> name_query p' nm f"
proof -
  show "in_parents p @ ''trashed=false'' = in_parents p' @ ''trashed=false'' \<longleftrightarrow> p = p'" by (simp add: in_parents_def)
  have r: "rev (in_parents p @ ''trashed=false'') ! 18 = CHR ''s''" "hd (rev (in_parents p @ ''trashed=false'')) = CHR ''e''"
    by (simp_all add: in_parents_def)
  have "rev (name_query p' nm False) ! 18 = squote" "hd (rev (name_query p' nm True)) = squote"
    by (simp_all add: name_query_def)
  with r show "in_parents p @ ''trashed=false'' \<noteq> name_query p' nm f" by (cases f) (auto simp del: rev_append)
qed

definition glob_env :: "unit drive_env" where
  "glob_env = table_env [(list_path (name_query ''root'' ''a.csv'' False), [sample_meta]),
     (list_path (in_parents ''root'' @ ''trashed=false''), [sample_meta])]"

lemma glob_env_serves: "serves glob_env one_file_tree" "lists glob_env one_file_tree"
proof -
  let ?tbl = "[(list_path (name_query ''root'' ''a.csv'' False), [sample_meta]),
     (list_path (in_parents ''root'' @ ''trashed=false''), [sample_meta])]"
  have wf: "wf_table ?tbl" using children_query_iff(2) by (simp add: wf_table_def list_path_inject) metis
  show "serves glob_env one_file_tree"
    unfolding glob_env_def
  proof (rule table_serves [OF wf])
    fix p nm f
    show "table_lookup ?tbl (list_path (name_query p nm f)) = filter (\<lambda>m. meta_name m = nm \<and> (f \<longrightarrow> is_folder m)) (one_file_tree p)"
      using children_query_iff(2) [of "''root''" p nm f]
      by (auto simp: table_lookup_def list_path_inject name_query_iff one_file_tree_def sample_meta_name)
  qed
  have found: "table_lookup ?tbl (list_path (in_parents pid @ ''trashed=false'')) = one_file_tree pid" for pid
    using children_query_iff(2) [of pid "''root''" "''a.csv''" False] children_query_iff(1) [of pid "''root''"]
    by (auto simp: table_lookup_def list_path_inject one_file_tree_def)
  show "lists glob_env one_file_tree"
    unfolding lists_def glob_env_def list_children_def found [symmetric]
    by (intro allI table_pages [OF wf])
qed

theorem glob_finds_matches_witness:
  "\<exists>r s'. glob_pattern (plain_fs_env glob_env) glob_env my_auth ''gdrive://*.csv'' ''*.csv'' start_state = Some (Inr r, s') \<and>
     ''gdrive://a.csv'' \<in> set r"
proof -
  have root: "root_folder_for my_auth = ''root''" by (simp add: root_folder_for_def my_auth_def)
  have "ranked (\<lambda>_. 0) one_file_tree" "unambiguous one_file_tree" "plain_names one_file_tree"
    by (simp_all add: ranked_def unambiguous_def plain_names_def one_file_tree_def sample_meta_def is_folder_def folder_mime_type_def)
  moreover have "cache_sound one_file_tree my_auth (paths start_state)" by (simp add: start_state_def empty_cache_sound)
  moreover have pat: "has_glob_metacharacters ''*.csv''" "literal_prefix (split_glob ''*.csv'') = []" "match_path ''*.csv'' ''a.csv''"
    by code_simp+
  moreover have "canonical_prefix ''*.csv''" by (simp add: canonical_prefix_def pat(2))
  ultimately obtain r s' where
    "glob_pattern (plain_fs_env glob_env) glob_env my_auth ''gdrive://*.csv'' ''*.csv'' start_state = Some (Inr r, s')"
    "set r = {scheme @ join slash segs | segs m. names one_file_tree ''root'' segs m \<and> \<not> is_folder m \<and>
      match_path ''*.csv'' (join slash segs) \<and> join slash segs \<noteq> []}"
    using glob_finds_matches [OF glob_env_serves(2,1), of "\<lambda>_. 0" my_auth start_state "''*.csv''" "plain_fs_env glob_env"
      "''gdrive://*.csv''"] root by auto
  moreover have "names one_file_tree ''root'' [''a.csv''] sample_meta"
    using names.first [of sample_meta one_file_tree "''root''"] by (simp add: one_file_tree_def sample_meta_def)
  then have "scheme @ join slash [''a.csv''] \<in> {scheme @ join slash segs | segs m. names one_file_tree ''root'' segs m \<and>
      \<not> is_folder m \<and> match_path ''*.csv'' (join slash segs) \<and> join slash segs \<noteq> []}"
    using sample_kinds(1) pat(3) by (intro CollectI exI [of _ "[''a.csv'']"] exI [of _ sample_meta]) simp
  moreover have "scheme @ join slash [''a.csv''] = ''gdrive://a.csv''" by (simp add: scheme_def)
  ultimately show ?thesis by metis
qed

end
