(* ===== verification/TokenSource.thy ===== *)
theory TokenSource
  imports Client
begin

text \<open>
  The token sources of \<open>src/gdrive_auth.cpp\<close> (\<open>CachedTokenSource\<close>, \<open>StaticTokenSource\<close>): the process-wide
  token cache, the memory of failed mints and the one mint at a time per credential. The mint function
  of a source and the clock act on the outside, of type \<open>'w\<close>; every reading of the clock is a step of it.
\<close>

section \<open>State\<close>

definition mint_failure_backoff_seconds :: int64 where "mint_failure_backoff_seconds = 30"

record mint_failure =
  failure_error :: exn
  until_unix :: int64

record 'w token_world =
  token_cache :: "string \<rightharpoonup> cached_token_state"
  mint_failures :: "string \<rightharpoonup> mint_failure"
  token_requests :: nat
  outside :: 'w

type_synonym 'w clock = "'w \<Rightarrow> int64 \<times> 'w"
type_synonym 'w mint = "'w \<Rightarrow> cached_token_state outcome \<times> 'w"

text \<open>A source; \<open>mint_fn\<close> is \<open>None\<close> for one that has nothing to mint with.\<close>

record 'w cached_source =
  source_key :: string
  mint_fn :: "'w mint option"
  source_max_age :: int64

datatype 'w token_source =
    Cached "'w cached_source"
  | Pasted string

definition now_unix :: "'w clock \<Rightarrow> 'w token_world \<Rightarrow> int64 \<times> 'w token_world" where
  "now_unix clock s = (case clock (outside s) of (t, w) \<Rightarrow> (t, s\<lparr>outside := w\<rparr>))"

section \<open>Operations\<close>

text \<open>The constructor: a pasted token starts the slot of its key, if nothing is there yet.\<close>

definition seed_cache :: "'w clock \<Rightarrow> string \<Rightarrow> string \<Rightarrow> 'w token_world \<Rightarrow> 'w token_world" where
  "seed_cache clock key seed s =
     (if seed \<noteq> [] \<and> token_cache s key = None then
        (case now_unix clock s of (t, s) \<Rightarrow>
           s\<lparr>token_cache := (token_cache s)(key \<mapsto>
              \<lparr>access_token = seed, expires_at_unix = unknown_expiry, minted_at_unix = t\<rparr>)\<rparr>)
      else s)"

definition try_fresh :: "'w clock \<Rightarrow> 'w cached_source \<Rightarrow> 'w token_world \<Rightarrow> string option \<times> 'w token_world" where
  "try_fresh clock src s =
     (case token_cache s (source_key src) of
        None \<Rightarrow> (None, s)
      | Some tok \<Rightarrow>
          (case now_unix clock s of (t, s) \<Rightarrow>
             (if token_is_fresh tok t (source_max_age src) then Some (access_token tok) else None, s)))"

text \<open>A failure that is still remembered; one that is not any more is dropped.\<close>

definition remembered_failure :: "'w clock \<Rightarrow> string \<Rightarrow> 'w token_world \<Rightarrow> exn option \<times> 'w token_world" where
  "remembered_failure clock key s =
     (case mint_failures s key of
        None \<Rightarrow> (None, s)
      | Some f \<Rightarrow>
          (case now_unix clock s of (t, s) \<Rightarrow>
             if t <s until_unix f then (Some (failure_error f), s)
             else (None, s\<lparr>mint_failures := (mint_failures s)(key := None)\<rparr>)))"

definition record_failure :: "'w clock \<Rightarrow> string \<Rightarrow> exn \<Rightarrow> 'w token_world \<Rightarrow> 'w token_world" where
  "record_failure clock key e s =
     (case now_unix clock s of (t, s) \<Rightarrow>
        s\<lparr>mint_failures := (mint_failures s)(key \<mapsto>
           \<lparr>failure_error = e, until_unix = t + mint_failure_backoff_seconds\<rparr>)\<rparr>)"

definition store_minted :: "'w clock \<Rightarrow> string \<Rightarrow> cached_token_state \<Rightarrow> 'w token_world \<Rightarrow> 'w token_world" where
  "store_minted clock key minted s =
     (case now_unix clock s of (t, s) \<Rightarrow>
        s\<lparr>token_cache := (token_cache s)(key \<mapsto> minted\<lparr>minted_at_unix := t\<rparr>)\<rparr>)"

text \<open>One request to a token endpoint, counted whether it succeeds or not.\<close>

definition call_mint :: "'w mint \<Rightarrow> 'w token_world \<Rightarrow> cached_token_state outcome \<times> 'w token_world" where
  "call_mint mint s =
     (case mint (outside s) of (r, w) \<Rightarrow> (r, s\<lparr>token_requests := Suc (token_requests s), outside := w\<rparr>))"

definition mint_and_store ::
    "'w clock \<Rightarrow> string \<Rightarrow> 'w mint \<Rightarrow> 'w token_world \<Rightarrow> string outcome \<times> 'w token_world" where
  "mint_and_store clock key mint s =
     (case remembered_failure clock key s of
        (Some e, s) \<Rightarrow> (Inl e, s)
      | (None, s) \<Rightarrow>
          (case call_mint mint s of
             (Inl e, s) \<Rightarrow> (Inl e, record_failure clock key e s)
           | (Inr minted, s) \<Rightarrow> (Inr (access_token minted), store_minted clock key minted s)))"

text \<open>\<open>Token()\<close>: the second look under the mint lock is the one of a thread that waited for it.\<close>

definition cached_token :: "'w clock \<Rightarrow> 'w cached_source \<Rightarrow> 'w token_world \<Rightarrow> string outcome \<times> 'w token_world" where
  "cached_token clock src s =
     (case try_fresh clock src s of
        (Some tok, s) \<Rightarrow> (Inr tok, s)
      | (None, s) \<Rightarrow>
          (case mint_fn src of
             None \<Rightarrow> (Inr (case token_cache s (source_key src) of None \<Rightarrow> [] | Some tok \<Rightarrow> access_token tok), s)
           | Some mint \<Rightarrow>
               (case try_fresh clock src s of
                  (Some tok, s) \<Rightarrow> (Inr tok, s)
                | (None, s) \<Rightarrow> mint_and_store clock (source_key src) mint s)))"

definition cached_refresh ::
    "'w clock \<Rightarrow> 'w cached_source \<Rightarrow> string \<Rightarrow> 'w token_world \<Rightarrow> string outcome \<times> 'w token_world" where
  "cached_refresh clock src rejected s =
     (let cached = token_cache s (source_key src) in
      case now_unix clock s of (t, s) \<Rightarrow>
      (case (decide_after_rejection cached rejected t (source_max_age src) (mint_fn src \<noteq> None), mint_fn src) of
         (REUSE_CACHED, _) \<Rightarrow> (Inr (access_token (the cached)), s)
       | (MINT, Some mint) \<Rightarrow> mint_and_store clock (source_key src) mint s
       | _ \<Rightarrow> (Inr [], s)))"

fun token_now :: "'w clock \<Rightarrow> 'w token_source \<Rightarrow> 'w token_world \<Rightarrow> string outcome \<times> 'w token_world" where
  "token_now clock (Cached src) s = cached_token clock src s"
| "token_now clock (Pasted token) s = (Inr token, s)"

fun token_after_rejection ::
    "'w clock \<Rightarrow> 'w token_source \<Rightarrow> string \<Rightarrow> 'w token_world \<Rightarrow> string outcome \<times> 'w token_world" where
  "token_after_rejection clock (Cached src) rejected s = cached_refresh clock src rejected s"
| "token_after_rejection clock (Pasted token) rejected s = (Inr [], s)"

section \<open>What the steps touch\<close>

lemma now_unix_simps [simp]:
  "token_cache (snd (now_unix clock s)) = token_cache s" "mint_failures (snd (now_unix clock s)) = mint_failures s"
  "token_requests (snd (now_unix clock s)) = token_requests s"
  by (simp_all add: now_unix_def split: prod.splits)

lemma try_fresh_simps [simp]:
  "token_cache (snd (try_fresh clock src s)) = token_cache s" "mint_failures (snd (try_fresh clock src s)) = mint_failures s"
  "token_requests (snd (try_fresh clock src s)) = token_requests s"
  by (auto simp: try_fresh_def now_unix_def split: option.splits prod.splits)

lemma try_fresh_Some:
  "fst (try_fresh clock src s) = Some tok \<Longrightarrow>
   \<exists>c t. token_cache s (source_key src) = Some c \<and> token_is_fresh c t (source_max_age src) \<and> tok = access_token c"
  by (auto simp: try_fresh_def now_unix_def split: option.splits prod.splits if_splits)

lemma remembered_failure_simps [simp]:
  "token_cache (snd (remembered_failure clock k s)) = token_cache s"
  "token_requests (snd (remembered_failure clock k s)) = token_requests s"
  "k' \<noteq> k \<Longrightarrow> mint_failures (snd (remembered_failure clock k s)) k' = mint_failures s k'"
  by (auto simp: remembered_failure_def now_unix_def split: option.splits prod.splits)

lemma remembered_failure_Some:
  "fst (remembered_failure clock k s) = Some e \<Longrightarrow>
   \<exists>f. mint_failures s k = Some f \<and> failure_error f = e \<and> mint_failures (snd (remembered_failure clock k s)) = mint_failures s"
  by (auto simp: remembered_failure_def now_unix_def split: option.splits prod.splits if_splits)

lemma record_failure_simps [simp]:
  "token_cache (record_failure clock k e s) = token_cache s" "token_requests (record_failure clock k e s) = token_requests s"
  "mint_failures (record_failure clock k e s) = (mint_failures s)(k \<mapsto>
     \<lparr>failure_error = e, until_unix = fst (clock (outside s)) + mint_failure_backoff_seconds\<rparr>)"
  by (auto simp: record_failure_def now_unix_def split: prod.splits)

lemma store_minted_simps [simp]:
  "token_cache (store_minted clock k m s) = (token_cache s)(k \<mapsto> m\<lparr>minted_at_unix := fst (clock (outside s))\<rparr>)"
  "mint_failures (store_minted clock k m s) = mint_failures s" "token_requests (store_minted clock k m s) = token_requests s"
  by (auto simp: store_minted_def now_unix_def split: prod.splits)

lemma call_mint_simps [simp]:
  "token_cache (snd (call_mint mint s)) = token_cache s" "mint_failures (snd (call_mint mint s)) = mint_failures s"
  "token_requests (snd (call_mint mint s)) = Suc (token_requests s)"
  by (auto simp: call_mint_def split: prod.splits)

lemma call_mint_result: "fst (call_mint mint s) = fst (mint (outside s))"
  by (auto simp: call_mint_def split: prod.splits)

text \<open>The three outcomes of \<open>MintAndStore\<close>.\<close>

lemma mint_and_store_cases:
  obtains (remembered) e f s1 where "mint_and_store clock k mint s = (Inl e, s1)" "mint_failures s k = Some f"
      "failure_error f = e" "mint_failures s1 = mint_failures s" "token_cache s1 = token_cache s"
      "token_requests s1 = token_requests s"
  | (failed) e s1 w f where "mint_and_store clock k mint s = (Inl e, s1)" "fst (mint w) = Inl e"
      "mint_failures s1 k = Some f" "failure_error f = e" "\<And>k'. k' \<noteq> k \<Longrightarrow> mint_failures s1 k' = mint_failures s k'"
      "token_cache s1 = token_cache s" "token_requests s1 = Suc (token_requests s)"
      "\<exists>v. until_unix f = fst (clock v) + mint_failure_backoff_seconds"
  | (minted) m s1 w t where "mint_and_store clock k mint s = (Inr (access_token m), s1)" "fst (mint w) = Inr m"
      "\<And>k'. k' \<noteq> k \<Longrightarrow> mint_failures s1 k' = mint_failures s k'"
      "token_cache s1 = (token_cache s)(k \<mapsto> m\<lparr>minted_at_unix := t\<rparr>)" "token_requests s1 = Suc (token_requests s)"
proof -
  obtain r s0 where r: "remembered_failure clock k s = (r, s0)" by fastforce
  note r0 = remembered_failure_simps [where clock = clock and k = k and s = s, unfolded r, simplified]
  show thesis
  proof (cases r)
    case (Some e)
    with r remembered_failure_Some [of clock k s e] obtain f where "mint_failures s k = Some f" "failure_error f = e"
      "mint_failures s0 = mint_failures s" by auto
    with Some r r0 show ?thesis by (intro remembered [of e s0 f]) (simp_all add: mint_and_store_def)
  next
    case None
    obtain x s2 where x: "call_mint mint s0 = (x, s2)" by fastforce
    note x0 = call_mint_simps [of mint s0, unfolded x, simplified]
    have x1: "fst (mint (outside s0)) = x" using call_mint_result [of mint s0] x by simp
    have eq: "mint_and_store clock k mint s =
        (case x of Inl e \<Rightarrow> (Inl e, record_failure clock k e s2)
         | Inr m \<Rightarrow> (Inr (access_token m), store_minted clock k m s2))"
      by (simp add: mint_and_store_def r None x)
    show ?thesis
    proof (cases x)
      case (Inl e)
      with eq x0 x1 r0 show ?thesis 
        by (intro failed [of e "record_failure clock k e s2" "outside s0"
              "\<lparr>failure_error = e, until_unix = fst (clock (outside s2)) + mint_failure_backoff_seconds\<rparr>"]) auto
    next
      case (Inr m)
      with eq x0 x1 r0 show ?thesis 
        by (intro minted [of m "store_minted clock k m s2" "outside s0" "fst (clock (outside s2))"]) simp_all
    qed
  qed
qed

text \<open>The outcomes of the operations of a source.\<close>

lemma cached_token_cases:
  obtains (served) c t s1 where "cached_token clock src s = (Inr (access_token c), s1)" "token_cache s (source_key src) = Some c"
      "token_is_fresh c t (source_max_age src)" "token_cache s1 = token_cache s" "mint_failures s1 = mint_failures s"
      "token_requests s1 = token_requests s"
  | (as_is) s1 where "mint_fn src = None" "token_cache s1 = token_cache s" "mint_failures s1 = mint_failures s"
      "token_requests s1 = token_requests s"
      "cached_token clock src s = (Inr (case token_cache s (source_key src) of None \<Rightarrow> [] | Some c \<Rightarrow> access_token c), s1)"
  | (asked) mint s1 where "mint_fn src = Some mint" "cached_token clock src s = mint_and_store clock (source_key src) mint s1"
      "token_cache s1 = token_cache s" "mint_failures s1 = mint_failures s" "token_requests s1 = token_requests s"
proof -
  obtain r s1 where r: "try_fresh clock src s = (r, s1)" by fastforce
  note r0 = try_fresh_simps [of clock src s, unfolded r, simplified]
  show thesis
  proof (cases r)
    case (Some tok)
    then obtain c t where "token_cache s (source_key src) = Some c" "token_is_fresh c t (source_max_age src)" "tok = access_token c"
      using try_fresh_Some [of clock src s tok] r by auto
    with Some r r0 show ?thesis by (intro served [of c s1 t]) (simp_all add: cached_token_def)
  next
    case None
    show ?thesis
    proof (cases "mint_fn src")
      case None
      with \<open>r = None\<close> r r0 show ?thesis by (intro as_is [of s1]) (simp_all add: cached_token_def)
    next
      case (Some mint)
      obtain q s2 where q: "try_fresh clock src s1 = (q, s2)" by fastforce
      note q0 = try_fresh_simps [of clock src s1, unfolded q, simplified]
      show ?thesis
      proof (cases q)
        case (Some tok)
        then obtain c t where "token_cache s (source_key src) = Some c" "token_is_fresh c t (source_max_age src)" "tok = access_token c"
          using try_fresh_Some [of clock src s1 tok] q r0 by auto
        with Some \<open>r = None\<close> \<open>mint_fn src = Some mint\<close> r r0 q q0 show ?thesis
          by (intro served [of c s2 t]) (simp_all add: cached_token_def)
      next
        case None
        with \<open>r = None\<close> Some r r0 q q0 show ?thesis
          by (intro asked [of mint s2]) (simp_all add: cached_token_def)
      qed
    qed
  qed
qed

lemma cached_refresh_cases:
  obtains (reused) c t s1 where "cached_refresh clock src rejected s = (Inr (access_token c), s1)"
      "token_cache s (source_key src) = Some c" "access_token c \<noteq> rejected" "token_is_fresh c t (source_max_age src)"
      "token_cache s1 = token_cache s" "mint_failures s1 = mint_failures s" "token_requests s1 = token_requests s"
  | (gave_up) s1 where "mint_fn src = None" "cached_refresh clock src rejected s = (Inr [], s1)"
      "token_cache s1 = token_cache s" "mint_failures s1 = mint_failures s" "token_requests s1 = token_requests s"
  | (asked) mint s1 where "mint_fn src = Some mint"
      "cached_refresh clock src rejected s = mint_and_store clock (source_key src) mint s1"
      "token_cache s1 = token_cache s" "mint_failures s1 = mint_failures s" "token_requests s1 = token_requests s"
proof -
  obtain t s1 where t: "now_unix clock s = (t, s1)" by fastforce
  note t0 = now_unix_simps [of clock s, unfolded t, simplified]
  let ?d = "decide_after_rejection (token_cache s (source_key src)) rejected t (source_max_age src) (mint_fn src \<noteq> None)"
  have d: "cached_refresh clock src rejected s =
      (case (?d, mint_fn src) of
         (REUSE_CACHED, _) \<Rightarrow> (Inr (access_token (the (token_cache s (source_key src)))), s1)
       | (MINT, Some mint) \<Rightarrow> mint_and_store clock (source_key src) mint s1
       | _ \<Rightarrow> (Inr [], s1))"
    by (simp add: cached_refresh_def Let_def t)
  show thesis
  proof (cases ?d)
    case REUSE_CACHED
    then obtain c where "token_cache s (source_key src) = Some c" "access_token c \<noteq> rejected"
      "token_is_fresh c t (source_max_age src)"
      by (auto simp: decide_after_rejection_def Let_def split: option.splits if_splits)
    with REUSE_CACHED t0 show ?thesis by (intro reused [of c s1 t]) (simp_all add: d)
  next
    case MINT
    then obtain mint where "mint_fn src = Some mint"
      by (auto simp: decide_after_rejection_def Let_def split: option.splits if_splits)
    with MINT t0 show ?thesis by (intro asked [of mint s1]) (simp_all add: d)
  next
    case GIVE_UP
    then have "mint_fn src = None"
      by (auto simp: decide_after_rejection_def Let_def split: option.splits if_splits)
    with GIVE_UP t0 show ?thesis by (intro gave_up [of s1]) (simp_all add: d)
  qed
qed

section \<open>Runs of many sources\<close>

text \<open>What the handles of a process do, in any order: each operation belongs to the key of its source.\<close>

datatype 'w source_op =
    Seed string string
  | AskToken "'w cached_source"
  | AskRefresh "'w cached_source" string

primrec op_key :: "'w source_op \<Rightarrow> string" where
  "op_key (Seed k seed) = k"
| "op_key (AskToken src) = source_key src"
| "op_key (AskRefresh src rejected) = source_key src"

primrec run_source_op :: "'w clock \<Rightarrow> 'w source_op \<Rightarrow> 'w token_world \<Rightarrow> string outcome option \<times> 'w token_world" where
  "run_source_op clock (Seed k seed) s = (None, seed_cache clock k seed s)"
| "run_source_op clock (AskToken src) s = (case cached_token clock src s of (r, s) \<Rightarrow> (Some r, s))"
| "run_source_op clock (AskRefresh src rejected) s = (case cached_refresh clock src rejected s of (r, s) \<Rightarrow> (Some r, s))"

primrec run_source_ops ::
    "'w clock \<Rightarrow> 'w source_op list \<Rightarrow> 'w token_world \<Rightarrow> (string \<times> string outcome) list \<times> 'w token_world" where
  "run_source_ops clock [] s = ([], s)"
| "run_source_ops clock (op # ops) s =
     (case run_source_op clock op s of (r, s) \<Rightarrow>
      case run_source_ops clock ops s of (rs, s) \<Rightarrow>
        ((case r of None \<Rightarrow> [] | Some x \<Rightarrow> [(op_key op, x)]) @ rs, s))"

text \<open>The tokens an operation can bring into the cache.\<close>

primrec brings :: "'w source_op \<Rightarrow> string \<Rightarrow> bool" where
  "brings (Seed k seed) tok \<longleftrightarrow> tok = seed"
| "brings (AskToken src) tok \<longleftrightarrow>
     (\<exists>mint w c. mint_fn src = Some mint \<and> fst (mint w) = Inr c \<and> tok = access_token c)"
| "brings (AskRefresh src rejected) tok \<longleftrightarrow>
     (\<exists>mint w c. mint_fn src = Some mint \<and> fst (mint w) = Inr c \<and> tok = access_token c)"

definition own_token :: "'w source_op list \<Rightarrow> string \<Rightarrow> string \<Rightarrow> bool" where
  "own_token ops k tok \<longleftrightarrow> (\<exists>op\<in>set ops. op_key op = k \<and> brings op tok)"

definition cache_own :: "'w source_op list \<Rightarrow> 'w token_world \<Rightarrow> bool" where
  "cache_own ops s \<longleftrightarrow> (\<forall>k c. token_cache s k = Some c \<longrightarrow> own_token ops k (access_token c))"

lemma seed_cache_cases:
  obtains "token_cache (seed_cache clock k seed s) = token_cache s"
  | c where "token_cache (seed_cache clock k seed s) = (token_cache s)(k \<mapsto> c)" "access_token c = seed" "token_cache s k = None"
proof (cases "seed \<noteq> [] \<and> token_cache s k = None")
  case True
  obtain t s1 where t: "now_unix clock s = (t, s1)" by fastforce
  then have "token_cache s1 = token_cache s" using now_unix_simps(1) [of clock s] by simp
  with True t show thesis
    by (intro that(2) [of "\<lparr>access_token = seed, expires_at_unix = unknown_expiry, minted_at_unix = t\<rparr>"])
       (simp_all add: seed_cache_def)
qed (auto simp: seed_cache_def intro: that(1))

lemma seed_cache_simps [simp]: "mint_failures (seed_cache clock k seed s) = mint_failures s"
  "token_requests (seed_cache clock k seed s) = token_requests s"
  by (simp_all add: seed_cache_def now_unix_def split: prod.splits)

lemma mint_own:
  assumes "cache_own ops s" "own_token ops k (access_token m)"
    "token_cache s' = (token_cache s)(k \<mapsto> m\<lparr>minted_at_unix := t\<rparr>)"
  shows "cache_own ops s'"
  using assms by (auto simp: cache_own_def)

lemma mint_and_store_own:
  assumes "cache_own ops s" "\<And>w m. fst (mint w) = Inr m \<Longrightarrow> own_token ops k (access_token m)"
    "mint_and_store clock k mint s = (r, s')"
  shows "cache_own ops s' \<and> (\<forall>tok. r = Inr tok \<longrightarrow> own_token ops k tok)"
  by (rule mint_and_store_cases [of clock k mint s])
     (use assms mint_own [OF assms(1,2)] in \<open>auto simp: cache_own_def\<close>)

lemma run_source_op_own:
  assumes "cache_own ops s" "op \<in> set ops" "run_source_op clock op s = (r, s')"
  shows "cache_own ops s' \<and> (\<forall>tok. r = Some (Inr tok) \<longrightarrow> tok = [] \<or> own_token ops (op_key op) tok)"
proof (cases op)
  case (Seed k seed)
  with assms(2) have "own_token ops k seed" by (force simp: own_token_def)
  then show ?thesis using Seed assms
    by (cases rule: seed_cache_cases [of clock k seed s]) (auto simp: cache_own_def)
next
  case (AskToken src)
  have mint: "own_token ops (source_key src) (access_token m)" if "mint_fn src = Some mint" "fst (mint w) = Inr m" for mint w m
    using assms(2) that AskToken by (force simp: own_token_def)
  show ?thesis
  proof (cases rule: cached_token_cases [of clock src s])
    case (asked mint s1)
    from AskToken assms(3) obtain x where x: "cached_token clock src s = (x, s')" "r = Some x" by (auto split: prod.splits)
    have "cache_own ops s1" using asked assms(1) by (simp add: cache_own_def)
    moreover have "mint_and_store clock (source_key src) mint s1 = (x, s')" using asked(2) x(1) by simp
    ultimately have "cache_own ops s' \<and> (\<forall>tok. x = Inr tok \<longrightarrow> own_token ops (source_key src) tok)"
      using mint [OF asked(1)] mint_and_store_own by metis
    with x(2) AskToken show ?thesis by simp
  qed (use AskToken assms in \<open>auto simp: cache_own_def split: option.splits\<close>)
next
  case (AskRefresh src rejected)
  have mint: "own_token ops (source_key src) (access_token m)" if "mint_fn src = Some mint" "fst (mint w) = Inr m" for mint w m
    using assms(2) that AskRefresh by (force simp: own_token_def)
  show ?thesis
  proof (cases rule: cached_refresh_cases [of clock src rejected s])
    case (asked mint s1)
    from AskRefresh assms(3) obtain x where x: "cached_refresh clock src rejected s = (x, s')" "r = Some x"
      by (auto split: prod.splits)
    have "cache_own ops s1" using asked assms(1) by (simp add: cache_own_def)
    moreover have "mint_and_store clock (source_key src) mint s1 = (x, s')" using asked(2) x(1) by simp
    ultimately have "cache_own ops s' \<and> (\<forall>tok. x = Inr tok \<longrightarrow> own_token ops (source_key src) tok)"
      using mint [OF asked(1)] mint_and_store_own by metis
    with x(2) AskRefresh show ?thesis by simp
  qed (use AskRefresh assms in \<open>auto simp: cache_own_def split: option.splits\<close>)
qed

lemma run_source_ops_own:
  "cache_own ops s \<Longrightarrow> set xs \<subseteq> set ops \<Longrightarrow> (k, Inr tok) \<in> set (fst (run_source_ops clock xs s)) \<Longrightarrow>
   tok = [] \<or> own_token ops k tok"
proof (induction xs arbitrary: s)
  case (Cons op xs)
  obtain r s1 where r: "run_source_op clock op s = (r, s1)" by fastforce
  obtain rs s2 where rs: "run_source_ops clock xs s1 = (rs, s2)" by fastforce
  have own: "cache_own ops s1 \<and> (\<forall>tok. r = Some (Inr tok) \<longrightarrow> tok = [] \<or> own_token ops (op_key op) tok)"
    using run_source_op_own [OF Cons.prems(1) _ r] Cons.prems(2) by auto
  with Cons.prems(2,3) Cons.IH [of s1] r rs show ?case by (auto split: option.splits)
qed simp

text \<open>
  C8. Tokens never cross credentials: whatever the handles of a process do with the shared token cache,
  a source is only ever given a token that was pasted or minted for its own key, by one of the operations
  on that key, or the empty one, which sends no credential at all.
\<close>

theorem token_provenance:
  assumes "token_cache s = Map.empty" and "(k, Inr tok) \<in> set (fst (run_source_ops clock ops s))"
  shows "tok = [] \<or> own_token ops k tok"
  using assms by (intro run_source_ops_own [of ops s ops]) (auto simp: cache_own_def)

text \<open>A credential whose endpoint grants tokens of one hour, and a clock that stands still.\<close>

definition example_token :: "string \<Rightarrow> cached_token_state" where
  "example_token tok = \<lparr>access_token = tok, expires_at_unix = 4600, minted_at_unix = 0\<rparr>"

definition example_source :: "string \<Rightarrow> string \<Rightarrow> unit cached_source" where
  "example_source k tok = \<lparr>source_key = k, mint_fn = Some (\<lambda>w. (Inr (example_token tok), w)), source_max_age = 0\<rparr>"

definition example_clock :: "unit clock" where "example_clock = (\<lambda>w. (1000, w))"

definition no_tokens :: "'w \<Rightarrow> 'w token_world" where
  "no_tokens w = \<lparr>token_cache = Map.empty, mint_failures = Map.empty, token_requests = 0, outside = w\<rparr>"

lemma example_mints:
  "cached_token example_clock (example_source k tok) (no_tokens ()) =
     (Inr tok, (no_tokens ())\<lparr>token_cache := [k \<mapsto> (example_token tok)\<lparr>minted_at_unix := 1000\<rparr>], token_requests := 1\<rparr>)"
  by (simp add: cached_token_def try_fresh_def no_tokens_def example_source_def mint_and_store_def remembered_failure_def
      call_mint_def store_minted_def now_unix_def example_clock_def example_token_def)

theorem token_provenance_witness:
  "own_token [Seed ''A'' ''a'', AskToken (example_source ''B'' ''b'')] ''B'' ''b''"
proof -
  let ?ops = "[Seed ''A'' ''a'', AskToken (example_source ''B'' ''b'')]"
  have "(''B'', Inr ''b'') \<in> set (fst (run_source_ops example_clock ?ops (no_tokens ())))"
    by (simp add: seed_cache_def cached_token_def try_fresh_def no_tokens_def example_source_def mint_and_store_def
        remembered_failure_def call_mint_def store_minted_def now_unix_def example_clock_def example_token_def)
  from token_provenance [OF _ this] show ?thesis by (simp add: no_tokens_def)
qed

section \<open>After a rejection\<close>



section \<open>Failed mints\<close>

lemma remembered_blocks:
  assumes "mint_failures s k = Some f" "\<forall>w. fst (clock w) <s until_unix f"
  obtains s1 where "mint_and_store clock k mint s = (Inl (failure_error f), s1)" "mint_failures s1 = mint_failures s"
    "token_cache s1 = token_cache s" "token_requests s1 = token_requests s"
proof -
  obtain t s1 where t: "now_unix clock s = (t, s1)" by fastforce
  then have "t = fst (clock (outside s))" by (auto simp: now_unix_def split: prod.splits)
  with assms t have "mint_and_store clock k mint s = (Inl (failure_error f), s1)"
    by (simp add: mint_and_store_def remembered_failure_def)
  moreover have "mint_failures s1 = mint_failures s" "token_cache s1 = token_cache s" "token_requests s1 = token_requests s"
    using now_unix_simps [of clock s] t by simp_all
  ultimately show thesis by (rule that)
qed

text \<open>What an operation may answer while a failure is remembered: that failure, or what the cache holds.\<close>

definition quiet_answer :: "mint_failure \<Rightarrow> string \<Rightarrow> 'w token_world \<Rightarrow> string outcome \<Rightarrow> bool" where
  "quiet_answer f k s r \<longleftrightarrow>
     r = Inl (failure_error f) \<or> r = Inr [] \<or> (\<exists>c. token_cache s k = Some c \<and> r = Inr (access_token c))"

lemma blocked_op:
  assumes "mint_failures s k = Some f" "\<forall>w. fst (clock w) <s until_unix f" "op_key op = k"
    "run_source_op clock op s = (r, s')"
  shows "token_requests s' = token_requests s \<and> mint_failures s' k = Some f \<and>
    (\<forall>c. token_cache s k = Some c \<longrightarrow> token_cache s' k = Some c) \<and> (\<forall>x. r = Some x \<longrightarrow> quiet_answer f k s' x)"
proof (cases op)
  case (Seed k' seed)
  with assms show ?thesis
    by (cases rule: seed_cache_cases [of clock k seed s]) auto
next
  case (AskToken src)
  show ?thesis
  proof (cases rule: cached_token_cases [of clock src s])
    case (asked mint s1)
    obtain s2 where "mint_and_store clock k mint s1 = (Inl (failure_error f), s2)" "mint_failures s2 = mint_failures s1"
      "token_cache s2 = token_cache s1" "token_requests s2 = token_requests s1"
      by (rule remembered_blocks [of s1 k f clock mint]) (use asked assms in simp_all)
    then show ?thesis using AskToken assms asked by (auto simp: quiet_answer_def)
  qed (use AskToken assms in \<open>auto simp: quiet_answer_def split: option.splits\<close>)
next
  case (AskRefresh src rejected)
  show ?thesis
  proof (cases rule: cached_refresh_cases [of clock src rejected s])
    case (asked mint s1)
    obtain s2 where "mint_and_store clock k mint s1 = (Inl (failure_error f), s2)" "mint_failures s2 = mint_failures s1"
      "token_cache s2 = token_cache s1" "token_requests s2 = token_requests s1"
      by (rule remembered_blocks [of s1 k f clock mint]) (use asked assms in simp_all)
    then show ?thesis using AskRefresh assms asked by (auto simp: quiet_answer_def)
  qed (use AskRefresh assms in \<open>auto simp: quiet_answer_def\<close>)
qed

lemma blocked_ops:
  assumes "mint_failures s k = Some f" "\<forall>w. fst (clock w) <s until_unix f" "\<forall>op\<in>set ops. op_key op = k"
    "run_source_ops clock ops s = (rs, s')"
  shows "token_requests s' = token_requests s \<and> (\<forall>c. token_cache s k = Some c \<longrightarrow> token_cache s' k = Some c) \<and>
    (\<forall>(k', x)\<in>set rs. quiet_answer f k s' x)"
  using assms(1,3,4)
proof (induction ops arbitrary: s rs)
  case (Cons op ops)
  obtain r s1 where r: "run_source_op clock op s = (r, s1)" by fastforce
  obtain rs1 s2 where rs1: "run_source_ops clock ops s1 = (rs1, s2)" by fastforce
  have s2: "s' = s2" "rs = (case r of None \<Rightarrow> [] | Some x \<Rightarrow> [(op_key op, x)]) @ rs1"
    using Cons.prems r rs1 by auto
  note one = blocked_op [OF Cons.prems(1) assms(2) _ r]
  have "mint_failures s1 k = Some f" "\<forall>op\<in>set ops. op_key op = k" using one Cons.prems by auto
  note rest = Cons.IH [OF this] 
  from rest [of rs1] rs1 s2(1) one Cons.prems(2) show ?case
    unfolding s2(2) by (auto simp: quiet_answer_def split: option.splits)
qed simp

lemma failed_token_remembered:
  assumes "cached_token clock src s = (Inl e, s1)"
  shows "\<exists>f. mint_failures s1 (source_key src) = Some f \<and> failure_error f = e \<and> token_cache s1 = token_cache s \<and>
    (mint_failures s (source_key src) = Some f \<or> (\<exists>w. until_unix f = fst (clock w) + mint_failure_backoff_seconds))"
proof (cases rule: cached_token_cases [of clock src s])
  case (asked mint s0)
  have m: "mint_and_store clock (source_key src) mint s0 = (Inl e, s1)" using asked(2) assms by simp
  show ?thesis
  proof (cases rule: mint_and_store_cases [of clock "source_key src" mint s0])
    case (remembered e' f s2)
    with m asked show ?thesis by (intro exI [of _ f]) simp
  next
    case (failed e' s2 w f)
    with m asked show ?thesis by (intro exI [of _ f]) simp
  qed (use m in simp_all)
qed (use assms in simp_all)

text \<open>
  C32. A credential that does not work is not hammered: when a mint has failed, then for the thirty seconds
  that its failure is remembered no operation on that credential, by any handle, sends another request
  to the token endpoint. Each answers with that very error or with what the cache still holds, which is
  never lost.
\<close>

theorem failed_mint_backs_off:
  assumes "cached_token clock src s = (Inl e, s1)" and "\<forall>op\<in>set ops. op_key op = source_key src"
  shows "\<exists>f. (mint_failures s (source_key src) = Some f \<or> (\<exists>w. until_unix f = fst (clock w) + 30)) \<and>
    (\<forall>later rs s'. (\<forall>w. fst (later w) <s until_unix f) \<and> run_source_ops later ops s1 = (rs, s') \<longrightarrow>
       token_requests s' = token_requests s1 \<and>
       (\<forall>c. token_cache s (source_key src) = Some c \<longrightarrow> token_cache s' (source_key src) = Some c) \<and>
       (\<forall>(k, x)\<in>set rs. x = Inl e \<or> x = Inr [] \<or>
          (\<exists>c. token_cache s' (source_key src) = Some c \<and> x = Inr (access_token c))))"
proof -
  obtain f where f: "mint_failures s1 (source_key src) = Some f" "failure_error f = e" "token_cache s1 = token_cache s"
    "mint_failures s (source_key src) = Some f \<or> (\<exists>w. until_unix f = fst (clock w) + mint_failure_backoff_seconds)"
    using failed_token_remembered [OF assms(1)] by auto
  have "token_requests s' = token_requests s1 \<and>
      (\<forall>c. token_cache s (source_key src) = Some c \<longrightarrow> token_cache s' (source_key src) = Some c) \<and>
      (\<forall>(k, x)\<in>set rs. x = Inl e \<or> x = Inr [] \<or> (\<exists>c. token_cache s' (source_key src) = Some c \<and> x = Inr (access_token c)))"
    if "\<forall>w. fst (later w) <s until_unix f" "run_source_ops later ops s1 = (rs, s')" for later rs s'
    using blocked_ops [OF f(1) that(1) assms(2) that(2)] unfolding f(2,3) quiet_answer_def .
  then show ?thesis using f(4) unfolding mint_failure_backoff_seconds_def by (intro exI [of _ f]) blast
qed

definition failing_source :: "unit cached_source" where
  "failing_source = \<lparr>source_key = ''A'', mint_fn = Some (\<lambda>w. (Inl (IOException ''revoked''), w)), source_max_age = 0\<rparr>"

theorem failed_mint_backs_off_witness:
  "\<exists>s1. cached_token example_clock failing_source (no_tokens ()) = (Inl (IOException ''revoked''), s1) \<and>
     token_requests (snd (run_source_ops example_clock [AskToken failing_source, AskRefresh failing_source ''old''] s1)) = 1"
proof -
  let ?s1 = "(no_tokens ())\<lparr>mint_failures := [''A'' \<mapsto> \<lparr>failure_error = IOException ''revoked'', until_unix = 1030\<rparr>],
    token_requests := 1\<rparr>"
  let ?ops = "[AskToken failing_source, AskRefresh failing_source ''old'']"
  have one: "cached_token example_clock failing_source (no_tokens ()) = (Inl (IOException ''revoked''), ?s1)"
    by (simp add: cached_token_def try_fresh_def no_tokens_def failing_source_def mint_and_store_def remembered_failure_def
        call_mint_def record_failure_def now_unix_def example_clock_def mint_failure_backoff_seconds_def)
  have keys: "\<forall>op\<in>set ?ops. op_key op = source_key failing_source" by simp
  have fresh: "mint_failures (no_tokens ()) (source_key failing_source) = None" by (simp add: no_tokens_def)
  obtain rs s' where run: "run_source_ops example_clock ?ops ?s1 = (rs, s')" by fastforce
  from failed_mint_backs_off [OF one keys] have "token_requests s' = token_requests ?s1"
  proof (elim exE conjE)
    fix f
    assume "mint_failures (no_tokens ()) (source_key failing_source) = Some f \<or> (\<exists>w. until_unix f = fst (example_clock w) + 30)"
    then have "\<forall>w. fst (example_clock w) <s until_unix f" unfolding fresh by (auto simp: example_clock_def word_sless_alt)
    moreover assume "\<forall>later rs s'. (\<forall>w. fst (later w) <s until_unix f) \<and> run_source_ops later ?ops ?s1 = (rs, s') \<longrightarrow>
      token_requests s' = token_requests ?s1 \<and>
      (\<forall>c. token_cache (no_tokens ()) (source_key failing_source) = Some c \<longrightarrow>
         token_cache s' (source_key failing_source) = Some c) \<and>
      (\<forall>(k, x)\<in>set rs. x = Inl (IOException ''revoked'') \<or> x = Inr [] \<or>
         (\<exists>c. token_cache s' (source_key failing_source) = Some c \<and> x = Inr (access_token c)))"
    ultimately show ?thesis using run by blast
  qed
  with one run show ?thesis by simp
qed

section \<open>Many threads on one credential\<close>

text \<open>
  Threads that call \<open>Token()\<close> of sources with one key. Where a thread is between its critical sections:
  waiting for the mint lock, holding it, or in the call of the mint function, during which only the mint
  lock is held, so that every other thread goes on.
\<close>

datatype token_thread = Idle | WaitLock | Locked | Minting | Got "string outcome"

record 'w mint_system =
  shared :: "'w token_world"
  lock_holder :: "nat option"
  threads :: "nat \<Rightarrow> token_thread"

definition goes :: "nat \<Rightarrow> token_thread \<Rightarrow> 'w mint_system \<Rightarrow> 'w mint_system" where
  "goes i pc s = s\<lparr>threads := (threads s)(i := pc)\<rparr>"

definition released :: "'w mint_system \<Rightarrow> 'w mint_system" where "released s = s\<lparr>lock_holder := None\<rparr>"

definition sharing :: "'w token_world \<Rightarrow> 'w mint_system \<Rightarrow> 'w mint_system" where "sharing u s = s\<lparr>shared := u\<rparr>"

definition counted :: "'w token_world \<Rightarrow> 'w token_world" where
  "counted u = u\<lparr>token_requests := Suc (token_requests u)\<rparr>"

inductive mint_step :: "'w clock \<Rightarrow> 'w cached_source \<Rightarrow> 'w mint \<Rightarrow> 'w mint_system \<Rightarrow> 'w mint_system \<Rightarrow> bool"
  for clock src mint where
  ask_hit: "threads s i = Idle \<Longrightarrow> try_fresh clock src (shared s) = (Some tok, u) \<Longrightarrow>
    mint_step clock src mint s (goes i (Got (Inr tok)) (sharing u s))"
| ask_miss: "threads s i = Idle \<Longrightarrow> try_fresh clock src (shared s) = (None, u) \<Longrightarrow>
    mint_step clock src mint s (goes i WaitLock (sharing u s))"
| acquire: "threads s i = WaitLock \<Longrightarrow> lock_holder s = None \<Longrightarrow>
    mint_step clock src mint s (goes i Locked (s\<lparr>lock_holder := Some i\<rparr>))"
| second_hit: "threads s i = Locked \<Longrightarrow> try_fresh clock src (shared s) = (Some tok, u) \<Longrightarrow>
    mint_step clock src mint s (goes i (Got (Inr tok)) (released (sharing u s)))"
| remembered: "threads s i = Locked \<Longrightarrow> try_fresh clock src (shared s) = (None, u) \<Longrightarrow>
    remembered_failure clock (source_key src) u = (Some e, v) \<Longrightarrow>
    mint_step clock src mint s (goes i (Got (Inl e)) (released (sharing v s)))"
| mint_start: "threads s i = Locked \<Longrightarrow> try_fresh clock src (shared s) = (None, u) \<Longrightarrow>
    remembered_failure clock (source_key src) u = (None, v) \<Longrightarrow>
    mint_step clock src mint s (goes i Minting (sharing (counted v) s))"
| mint_ok: "threads s i = Minting \<Longrightarrow> mint (outside (shared s)) = (Inr m, w) \<Longrightarrow>
    mint_step clock src mint s (goes i (Got (Inr (access_token m)))
      (released (sharing (store_minted clock (source_key src) m ((shared s)\<lparr>outside := w\<rparr>)) s)))"
| mint_failed: "threads s i = Minting \<Longrightarrow> mint (outside (shared s)) = (Inl e, w) \<Longrightarrow>
    mint_step clock src mint s (goes i (Got (Inl e))
      (released (sharing (record_failure clock (source_key src) e ((shared s)\<lparr>outside := w\<rparr>)) s)))"

inductive_cases mint_stepE: "mint_step clock src mint s s'"

inductive mint_reachable :: "'w clock \<Rightarrow> 'w cached_source \<Rightarrow> 'w mint \<Rightarrow> 'w token_world \<Rightarrow> 'w mint_system \<Rightarrow> bool"
  for clock src mint start where
  begins: "mint_reachable clock src mint start \<lparr>shared = start, lock_holder = None, threads = \<lambda>_. Idle\<rparr>"
| steps: "mint_reachable clock src mint start s \<Longrightarrow> mint_step clock src mint s s' \<Longrightarrow>
    mint_reachable clock src mint start s'"

text \<open>
  An episode: no two readings of the clock are thirty seconds apart, and what the endpoint grants in it
  is fresh throughout.
\<close>

definition reading :: "'w clock \<Rightarrow> int64 \<Rightarrow> bool" where "reading clock t \<longleftrightarrow> (\<exists>w. fst (clock w) = t)"

definition episode :: "'w clock \<Rightarrow> 'w cached_source \<Rightarrow> 'w mint \<Rightarrow> bool" where
  "episode clock src mint \<longleftrightarrow>
     (\<forall>t t'. reading clock t \<longrightarrow> reading clock t' \<longrightarrow> t' <s t + mint_failure_backoff_seconds) \<and>
     (\<forall>w m t t'. fst (mint w) = Inr m \<longrightarrow> reading clock t \<longrightarrow> reading clock t' \<longrightarrow>
        token_is_fresh (m\<lparr>minted_at_unix := t\<rparr>) t' (source_max_age src))"

definition settled :: "'w clock \<Rightarrow> 'w cached_source \<Rightarrow> 'w token_world \<Rightarrow> bool" where
  "settled clock src u \<longleftrightarrow>
     (\<exists>c. token_cache u (source_key src) = Some c \<and> (\<forall>t. reading clock t \<longrightarrow> token_is_fresh c t (source_max_age src))) \<or>
     (\<exists>f. mint_failures u (source_key src) = Some f \<and> (\<forall>t. reading clock t \<longrightarrow> t <s until_unix f))"

definition holds_lock :: "token_thread \<Rightarrow> bool" where "holds_lock pc \<longleftrightarrow> pc = Locked \<or> pc = Minting"

text \<open>The invariant: the lock excludes, and there is no mint but the first.\<close>

definition lock_ok :: "'w mint_system \<Rightarrow> bool" where
  "lock_ok s \<longleftrightarrow> (\<forall>i. holds_lock (threads s i) \<longleftrightarrow> lock_holder s = Some i)"

definition minting :: "'w mint_system \<Rightarrow> bool" where "minting s \<longleftrightarrow> (\<exists>i. threads s i = Minting)"

definition mints_once :: "'w clock \<Rightarrow> 'w cached_source \<Rightarrow> nat \<Rightarrow> 'w mint_system \<Rightarrow> bool" where
  "mints_once clock src n s \<longleftrightarrow>
     (token_requests (shared s) = n \<and> \<not> minting s) \<or>
     (token_requests (shared s) = Suc n \<and> (minting s \<or> settled clock src (shared s)))"

lemma system_simps [simp]:
  "threads (goes i pc s) = (threads s)(i := pc)" "shared (goes i pc s) = shared s" "lock_holder (goes i pc s) = lock_holder s"
  "threads (released s) = threads s" "shared (released s) = shared s" "lock_holder (released s) = None"
  "threads (sharing u s) = threads s" "shared (sharing u s) = u" "lock_holder (sharing u s) = lock_holder s"
  "token_cache (counted u) = token_cache u" "mint_failures (counted u) = mint_failures u"
  "token_requests (counted u) = Suc (token_requests u)"
  by (simp_all add: goes_def released_def sharing_def counted_def)

lemma reading_clock [simp]: "reading clock (fst (clock w))"
  by (auto simp: reading_def)

lemma readingI: "clock w = (t, w') \<Longrightarrow> reading clock t"
  unfolding reading_def by (intro exI [of _ w]) simp

definition same_tokens :: "'w token_world \<Rightarrow> 'w token_world \<Rightarrow> bool" where
  "same_tokens u v \<longleftrightarrow> token_cache u = token_cache v \<and> mint_failures u = mint_failures v \<and> token_requests u = token_requests v"

lemma same_tokens_settled: "same_tokens u v \<Longrightarrow> settled clock src u = settled clock src v"
  by (simp add: same_tokens_def settled_def)

lemma try_fresh_same: "try_fresh clock src s = (r, u) \<Longrightarrow> same_tokens u s"
  using try_fresh_simps [of clock src s] by (simp add: same_tokens_def)

lemma settled_answers:
  assumes "settled clock src s" "try_fresh clock src s = (None, u)" "remembered_failure clock (source_key src) u = (r, v)"
  shows "r \<noteq> None \<and> same_tokens v s"
proof -
  have "\<not> (\<exists>c. token_cache s (source_key src) = Some c \<and> (\<forall>t. reading clock t \<longrightarrow> token_is_fresh c t (source_max_age src)))"
    using assms(2) readingI [of clock "outside s"]
    by (auto simp: try_fresh_def now_unix_def split: option.splits prod.splits if_splits)
  then obtain f where f: "mint_failures s (source_key src) = Some f" "\<forall>t. reading clock t \<longrightarrow> t <s until_unix f"
    using assms(1) by (auto simp: settled_def)
  obtain t w where t: "clock (outside u) = (t, w)" by fastforce
  have u: "same_tokens u s" by (rule try_fresh_same [OF assms(2)])
  have "t <s until_unix f" using f(2) readingI [of clock "outside u" t w, OF t] by blast
  with assms(3) f(1) u t show ?thesis by (auto simp: remembered_failure_def now_unix_def same_tokens_def)
qed

lemma settled_stored:
  assumes "episode clock src mint" "mint w = (Inr m, w')"
  shows "settled clock src (store_minted clock (source_key src) m u)"
  using assms unfolding settled_def episode_def by (auto dest!: arg_cong [of _ _ fst])

lemma settled_recorded:
  assumes "episode clock src mint"
  shows "settled clock src (record_failure clock (source_key src) e u)"
  using assms unfolding settled_def episode_def by auto

lemma lock_ok_moves:
  assumes "lock_ok s"
  shows "\<not> holds_lock (threads s i) \<Longrightarrow> \<not> holds_lock pc \<Longrightarrow> lock_ok (goes i pc (sharing u s))"
    and "holds_lock (threads s i) \<Longrightarrow> holds_lock pc \<Longrightarrow> lock_ok (goes i pc (sharing u s))"
    and "holds_lock (threads s i) \<Longrightarrow> \<not> holds_lock pc \<Longrightarrow> lock_ok (goes i pc (released (sharing u s)))"
    and "lock_holder s = None \<Longrightarrow> holds_lock pc \<Longrightarrow> lock_ok (goes i pc (s\<lparr>lock_holder := Some i\<rparr>))"
  using assms by (auto simp: lock_ok_def)

lemma lock_ok_only: "lock_ok s \<Longrightarrow> holds_lock (threads s i) \<Longrightarrow> holds_lock (threads s j) \<Longrightarrow> j = i"
  by (auto simp: lock_ok_def)

lemma mints_once_same:
  assumes "mints_once clock src n s" "threads s i \<noteq> Minting" "pc \<noteq> Minting" "same_tokens u (shared s)"
  shows "mints_once clock src n (goes i pc (sharing u s))" "mints_once clock src n (goes i pc (released (sharing u s)))"
    "mints_once clock src n (goes i pc (s\<lparr>lock_holder := h\<rparr>))"
proof -
  have "(\<exists>j. ((threads s)(i := pc)) j = Minting) = minting s" using assms(2,3) by (auto simp: minting_def)
  then show "mints_once clock src n (goes i pc (sharing u s))" "mints_once clock src n (goes i pc (released (sharing u s)))"
    "mints_once clock src n (goes i pc (s\<lparr>lock_holder := h\<rparr>))"
    using assms(1,4) same_tokens_settled [OF assms(4), of clock src]
    by (auto simp: mints_once_def minting_def same_tokens_def)
qed

text \<open>The thread that minted leaves the world settled, and it was the only one.\<close>

lemma mints_once_settles:
  assumes "mints_once clock src n s" "lock_ok s" "threads s i = Minting" "pc \<noteq> Minting" "settled clock src u"
    "token_requests u = token_requests (shared s)"
  shows "mints_once clock src n (goes i pc (released (sharing u s)))"
  using assms by (auto simp: mints_once_def minting_def)

lemma mint_inv_step:
  assumes "lock_ok s" "mints_once clock src n s" "episode clock src mint" "mint_step clock src mint s s'"
  shows "lock_ok s' \<and> mints_once clock src n s'"
  using assms(4)
proof cases
  case (ask_hit i tok u)
  show ?thesis using ask_hit lock_ok_moves(1) [OF assms(1)] mints_once_same [OF assms(2) _ _ try_fresh_same [OF ask_hit(3)]] by (auto simp: holds_lock_def)
next
  case (ask_miss i u)
  show ?thesis using ask_miss lock_ok_moves(1) [OF assms(1)] mints_once_same [OF assms(2) _ _ try_fresh_same [OF ask_miss(3)]] by (auto simp: holds_lock_def)
next
  case (acquire i)
  then show ?thesis using lock_ok_moves(4) [OF assms(1)] mints_once_same(3) [OF assms(2), of i Locked "shared s"]
    by (auto simp: holds_lock_def same_tokens_def)
next
  case (second_hit i tok u)
  show ?thesis using second_hit lock_ok_moves(3) [OF assms(1)] mints_once_same [OF assms(2) _ _ try_fresh_same [OF second_hit(3)]] by (auto simp: holds_lock_def)
next
  case (remembered i u e v)
  have "same_tokens v (shared s)"
    using try_fresh_same [OF remembered(3)] remembered_failure_Some [of clock "source_key src" u e] remembered(4)
      remembered_failure_simps(1,2) [of clock "source_key src" u] by (auto simp: same_tokens_def)
  from mints_once_same [OF assms(2) _ _ this] remembered show ?thesis using lock_ok_moves(3) [OF assms(1)] by (auto simp: holds_lock_def)
next
  case (mint_start i u v)
  have "threads s j \<noteq> Minting" for j
    using lock_ok_only [OF assms(1), of i j] mint_start(2) by (cases "j = i") (auto simp: holds_lock_def)
  then have "\<not> minting s" by (simp add: minting_def)
  moreover have "\<not> settled clock src (shared s)" using settled_answers [OF _ mint_start(3,4)] by blast
  ultimately have n: "token_requests (shared s) = n" using assms(2) by (simp add: mints_once_def)
  have "token_requests v = token_requests (shared s)"
    using try_fresh_same [OF mint_start(3)] remembered_failure_simps(2) [of clock "source_key src" u] mint_start(4)
    by (simp add: same_tokens_def)
  with n mint_start show ?thesis using lock_ok_moves(2) [OF assms(1), of i Minting]
    by (auto simp: mints_once_def minting_def holds_lock_def)
next
  case (mint_ok i m w)
  then show ?thesis
    using lock_ok_moves(3) [OF assms(1), of i] settled_stored [OF assms(3) mint_ok(3)]
    by (auto simp: holds_lock_def intro!: mints_once_settles [OF assms(2,1)])
next
  case (mint_failed i e w)
  then show ?thesis
    using lock_ok_moves(3) [OF assms(1), of i] settled_recorded [OF assms(3)]
    by (auto simp: holds_lock_def intro!: mints_once_settles [OF assms(2,1)])
qed

lemma mint_reachable_inv:
  assumes "episode clock src mint" "mint_reachable clock src mint start s"
  shows "lock_ok s \<and> mints_once clock src (token_requests start) s"
  using assms(2)
proof induction
  case begins
  show ?case by (simp add: lock_ok_def mints_once_def minting_def holds_lock_def)
next
  case (steps s s')
  then show ?case using mint_inv_step [OF _ _ assms(1)] by blast
qed

text \<open>
  C4. A token is minted once for everybody: however many threads ask for a token of one credential at once,
  and however their steps interleave, within one episode at most one request goes to the token endpoint,
  whether it succeeds or fails, and never two threads are in the mint function.
\<close>

theorem one_mint_for_all_threads:
  assumes "episode clock src mint" and "mint_reachable clock src mint start s"
  shows "token_requests (shared s) \<le> Suc (token_requests start) \<and>
    (threads s i = Minting \<and> threads s j = Minting \<longrightarrow> i = j)"
  using mint_reachable_inv [OF assms] lock_ok_only [of s i j] by (auto simp: mints_once_def holds_lock_def)

text \<open>Two threads find no token; one mints while the other waits and is served by what the first stored.\<close>

lemma example_episode: "episode example_clock (example_source ''A'' ''a'') (\<lambda>w. (Inr (example_token ''a''), w))"
  by (simp add: episode_def reading_def example_clock_def example_source_def example_token_def token_is_fresh_iff horizon_of_def
      mint_failure_backoff_seconds_def word_sless_alt)

theorem one_mint_for_all_threads_witness:
  "\<exists>s. mint_reachable example_clock (example_source ''A'' ''a'') (\<lambda>w. (Inr (example_token ''a''), w)) (no_tokens ()) s \<and>
     threads s 1 = Minting \<and> threads s 2 = WaitLock \<and> token_requests (shared s) \<le> 1"
proof -
  let ?src = "example_source ''A'' ''a''" and ?mint = "\<lambda>w. (Inr (example_token ''a''), w)" and ?u = "no_tokens ()"
  let ?step = "mint_step example_clock ?src ?mint" and ?reach = "mint_reachable example_clock ?src ?mint ?u"
  let ?s0 = "\<lparr>shared = ?u, lock_holder = None, threads = \<lambda>_. Idle\<rparr>"
  let ?s1 = "goes 1 WaitLock (sharing ?u ?s0)"
  let ?s2 = "goes 2 WaitLock (sharing ?u ?s1)"
  let ?s3 = "goes 1 Locked (?s2\<lparr>lock_holder := Some 1\<rparr>)"
  let ?s4 = "goes 1 Minting (sharing (counted ?u) ?s3)"
  have none: "try_fresh example_clock ?src ?u = (None, ?u)" by (simp add: try_fresh_def no_tokens_def)
  have nofail: "remembered_failure example_clock (source_key ?src) ?u = (None, ?u)"
    by (simp add: remembered_failure_def no_tokens_def)
  have 1: "?step ?s0 ?s1" by (rule ask_miss) (simp_all add: none)
  have 2: "?step ?s1 ?s2" by (rule ask_miss) (simp_all add: none)
  have 3: "?step ?s2 ?s3" by (rule acquire) simp_all
  have 4: "?step ?s3 ?s4" by (rule mint_start [OF _ _ nofail]) (simp_all add: none)
  have r: "?reach ?s4"
    by (rule steps [OF _ 4], rule steps [OF _ 3], rule steps [OF _ 2], rule steps [OF _ 1], rule begins)
  from one_mint_for_all_threads [OF example_episode r, of 1 1] have "token_requests (shared ?s4) \<le> 1"
    by (simp add: no_tokens_def)
  then show ?thesis using r by (intro exI [of _ ?s4]) simp
qed

end
