(* ===== verification/ServiceAccount.thy ===== *)
theory ServiceAccount
  imports Client
begin

text \<open>
  \<open>src/gdrive_service_account_pure.cpp\<close>: the unsigned JWT assertion of a service account (RFC 7523),
  its base64url encoding and the parser of the key document. \<open>issued_at\<close> is an \<open>int64_t\<close>.
\<close>

section \<open>Constants of the header\<close>

definition google_token_url :: string where "google_token_url = ''https://oauth2.googleapis.com/token''"
definition google_auth_url :: string where "google_auth_url = ''https://accounts.google.com/o/oauth2/v2/auth''"
definition jwt_bearer_grant :: string where "jwt_bearer_grant = ''urn:ietf:params:oauth:grant-type:jwt-bearer''"
definition scope_drive_readonly :: string where
  "scope_drive_readonly = ''https://www.googleapis.com/auth/drive.readonly''"

record service_account_key =
  client_email :: string
  private_key :: string
  private_key_id :: string
  token_uri :: string
  project_id :: string

section \<open>Base64url\<close>

definition base64_alphabet :: string where
  "base64_alphabet = ''ABCDEFGHIJKLMNOPQRSTUVWXYZabcdefghijklmnopqrstuvwxyz0123456789+/''"

text \<open>\<open>bits >> k & 0x3F\<close>: the bits has 24 bits, so nothing wraps.\<close>

definition sextet :: "nat \<Rightarrow> nat \<Rightarrow> char" where
  "sextet bits k = base64_alphabet ! (bits div 2 ^ k mod 64)"

fun base64_chunks :: "string \<Rightarrow> string" where
  "base64_chunks (a # b # c # rest) =
     (let bits = byte_of a * 2 ^ 16 + byte_of b * 2 ^ 8 + byte_of c in
      sextet bits 18 # sextet bits 12 # sextet bits 6 # sextet bits 0 # base64_chunks rest)"
| "base64_chunks [a] = (let bits = byte_of a * 2 ^ 16 in [sextet bits 18, sextet bits 12])"
| "base64_chunks [a, b] =
     (let bits = byte_of a * 2 ^ 16 + byte_of b * 2 ^ 8 in [sextet bits 18, sextet bits 12, sextet bits 6])"
| "base64_chunks [] = []"

definition url_safe :: "char \<Rightarrow> char" where
  "url_safe c = (if c = CHR ''+'' then CHR ''-'' else if c = slash then CHR ''_'' else c)"

definition base64_url_encode :: "string \<Rightarrow> string" where
  "base64_url_encode data = map url_safe (base64_chunks data)"

section \<open>The assertion\<close>

text \<open>This file's own \<open>JsonEscape\<close>, which knows \<open>\\b\<close> and \<open>\\f\<close> too.\<close>

definition sa_escape_char :: "char \<Rightarrow> string" where
  "sa_escape_char c =
     (if c = CHR 0x08 then [backslash, CHR ''b'']
      else if c = CHR 0x0C then [backslash, CHR ''f'']
      else json_escape_char c)"

definition sa_json_escape :: "string \<Rightarrow> string" where
  "sa_json_escape s = concat (map sa_escape_char s)"

definition dq :: "string \<Rightarrow> string" where "dq s = dquote # s @ [dquote]"

definition json_string_field :: "string \<Rightarrow> string" where
  "json_string_field value = dquote # sa_json_escape value @ [dquote]"

definition max_lifetime_seconds :: int where "max_lifetime_seconds = 3600"

record assertion_parts =
  signing_input :: string
  header_json :: string
  claims_json :: string

definition assertion_header :: "string \<Rightarrow> string" where
  "assertion_header kid =
     CHR ''{'' # dq ''alg'' @ '':'' @ dq ''RS256'' @ '','' @ dq ''typ'' @ '':'' @ dq ''JWT'' @ '','' @ dq ''kid'' @ '':'' @
     json_string_field kid @ ''}''"

definition assertion_claims :: "string \<Rightarrow> string \<Rightarrow> string \<Rightarrow> int64 \<Rightarrow> int64 \<Rightarrow> string \<Rightarrow> string" where
  "assertion_claims iss scp aud expiry issued_at subject =
     CHR ''{'' # dq ''iss'' @ '':'' @ json_string_field iss @ '','' @ dq ''scope'' @ '':'' @ json_string_field scp @
     '','' @ dq ''aud'' @ '':'' @ json_string_field aud @ '','' @ dq ''exp'' @ '':'' @ decimal_int (sint expiry) @
     '','' @ dq ''iat'' @ '':'' @ decimal_int (sint issued_at) @
     (if subject \<noteq> [] then '','' @ dq ''sub'' @ '':'' @ json_string_field subject else []) @ ''}''"

definition effective_lifetime :: "int \<Rightarrow> int" where
  "effective_lifetime lifetime = (if lifetime > max_lifetime_seconds then max_lifetime_seconds else lifetime)"

definition audience_of :: "service_account_key \<Rightarrow> string" where
  "audience_of key = (if token_uri key = [] then google_token_url else token_uri key)"

text \<open>\<open>Inl\<close> is the \<open>error\<close> of a result that is not \<open>ok\<close>.\<close>

definition build_assertion_parts ::
    "service_account_key \<Rightarrow> string \<Rightarrow> int64 \<Rightarrow> int \<Rightarrow> string \<Rightarrow> string + assertion_parts" where
  "build_assertion_parts key scp issued_at lifetime subject =
     (if client_email key = [] then Inl ''BuildAssertionParts: service-account key has no client_email''
      else if scp = [] then Inl ''BuildAssertionParts: scope must not be empty''
      else if lifetime \<le> 0 then Inl ''BuildAssertionParts: lifetime_seconds must be positive''
      else
        let expiry = issued_at + word_of_int (effective_lifetime lifetime);
            header = assertion_header (private_key_id key);
            claims = assertion_claims (client_email key) scp (audience_of key) expiry issued_at subject in
        Inr \<lparr>signing_input = base64_url_encode header @ ''.'' @ base64_url_encode claims,
             header_json = header, claims_json = claims\<rparr>)"

section \<open>The key document\<close>

definition wrapped_client :: "json_object \<Rightarrow> bool" where
  "wrapped_client obj \<longleftrightarrow> map_of obj ''installed'' \<noteq> None \<or> map_of obj ''web'' \<noteq> None"

definition required_member :: "json_object \<Rightarrow> string \<Rightarrow> string option" where
  "required_member obj key = (case string_member obj key of Some s \<Rightarrow> if s = [] then None else Some s | None \<Rightarrow> None)"

definition missing_key_field :: "string \<Rightarrow> string" where
  "missing_key_field field = ''service-account key is missing required field '' @ dq field"

text \<open>The fields of a document that is a key: what the parser does after its check of the type.\<close>

definition key_fields :: "json_object \<Rightarrow> string + service_account_key" where
  "key_fields obj =
     (case required_member obj ''client_email'' of
        None \<Rightarrow> Inl (missing_key_field ''client_email'')
      | Some email \<Rightarrow>
          (case required_member obj ''private_key'' of
             None \<Rightarrow> Inl (missing_key_field ''private_key'')
           | Some pem \<Rightarrow> Inr
               \<lparr>client_email = email, private_key = pem,
                private_key_id = get_string obj ''private_key_id'' [],
                token_uri = (case required_member obj ''token_uri'' of Some u \<Rightarrow> u | None \<Rightarrow> google_token_url),
                project_id = get_string obj ''project_id'' []\<rparr>))"

definition parse_service_account_key :: "json_parser \<Rightarrow> string \<Rightarrow> string + service_account_key" where
  "parse_service_account_key parse text =
     (case parse text of
        None \<Rightarrow> Inl ''service-account key document is not valid JSON''
      | Some root \<Rightarrow>
          (case parse_object parse text of
             None \<Rightarrow> Inl ''service-account key document must be a JSON object''
           | Some obj \<Rightarrow>
               if wrapped_client obj then
                 Inl (''this looks like an OAuth *client* JSON (has an '' @ dq ''installed'' @ ''/'' @ dq ''web'' @
                   '' section), not a service-account key; download the service-account key from IAM & Admin > Service '' @
                   ''Accounts > Keys instead'')
               else
                 (case string_member obj ''type'' of
                    Some t \<Rightarrow>
                      if t \<noteq> ''service_account'' then
                        Inl (''service-account key has '' @ dq ''type'' @ '':'' @ dq (sa_json_escape t) @
                          '' but expected '' @ dq ''service_account'')
                      else key_fields obj
                  | None \<Rightarrow> key_fields obj)))" 

section \<open>Base64url is decodable\<close>

definition base64_value :: "char \<Rightarrow> nat" where
  "base64_value c =
     (if is_upper c then byte_of c - 65 else if is_lower c then byte_of c - 71
      else if is_digit c then byte_of c + 4 else if c = CHR ''-'' then 62 else 63)"

fun base64_url_decode :: "string \<Rightarrow> string" where
  "base64_url_decode (p # q # r # s # rest) =
     (let n = base64_value p * 2 ^ 18 + base64_value q * 2 ^ 12 + base64_value r * 2 ^ 6 + base64_value s in
      char_of (n div 2 ^ 16) # char_of (n div 2 ^ 8 mod 256) # char_of (n mod 256) # base64_url_decode rest)"
| "base64_url_decode [p, q, r] =
     (let n = base64_value p * 2 ^ 18 + base64_value q * 2 ^ 12 + base64_value r * 2 ^ 6 in
      [char_of (n div 2 ^ 16), char_of (n div 2 ^ 8 mod 256)])"
| "base64_url_decode [p, q] = [char_of ((base64_value p * 2 ^ 18 + base64_value q * 2 ^ 12) div 2 ^ 16)]"
| "base64_url_decode _ = []"

definition base64_url_char :: "char \<Rightarrow> bool" where
  "base64_url_char c \<longleftrightarrow> is_alnum c \<or> c = CHR ''-'' \<or> c = CHR ''_''"

lemma base64_alphabet_values: "map (\<lambda>c. base64_value (url_safe c)) base64_alphabet = [0..<64]"
  by (simp add: base64_alphabet_def url_safe_def base64_value_def byte_of_def is_upper_def is_lower_def is_digit_def upt_rec)

lemma base64_alphabet_chars: "list_all (\<lambda>c. base64_url_char (url_safe c)) base64_alphabet"
  by (simp add: base64_alphabet_def url_safe_def base64_url_char_def is_alnum_def byte_of_def is_upper_def is_lower_def is_digit_def)

lemma base64_alphabet_good:
  assumes "n < 64"
  shows "base64_value (url_safe (base64_alphabet ! n)) = n" "base64_url_char (url_safe (base64_alphabet ! n))"
proof -
  have l: "length base64_alphabet = 64" by (simp add: base64_alphabet_def)
  with assms show "base64_value (url_safe (base64_alphabet ! n)) = n"
    using arg_cong [OF base64_alphabet_values, of "\<lambda>xs. xs ! n"] by simp
  show "base64_url_char (url_safe (base64_alphabet ! n))"
    using base64_alphabet_chars assms l by (simp add: list_all_length)
qed

lemma sextet_value [simp]: "base64_value (url_safe (sextet n k)) = n div 2 ^ k mod 64"
  by (simp add: sextet_def base64_alphabet_good)

lemma sextet_char [simp]: "base64_url_char (url_safe (sextet n k))"
  by (simp add: sextet_def base64_alphabet_good)

text \<open>The four sextets of three bytes make the bytes again.\<close>

lemma sextets_sum:
  fixes n :: nat
  assumes "n < 16777216"
  shows "n div 262144 mod 64 * 262144 + n div 4096 mod 64 * 4096 + n div 64 mod 64 * 64 + n mod 64 = n"
proof -
  have "n div 262144 mod 64 = n div 262144" using assms by simp
  moreover have "n div 4096 = 64 * (n div 262144) + n div 4096 mod 64"
    using div_mult2_eq [of n "4096" 64] by simp
  moreover have "n div 64 = 64 * (n div 4096) + n div 64 mod 64"
    using div_mult2_eq [of n "64" 64] by simp
  moreover have "n = 64 * (n div 64) + n mod 64" by simp
  ultimately show ?thesis by linarith
qed

lemma bytes_of_chunk:
  fixes a b c :: nat
  assumes "b < 256" "c < 256"
  shows "(a * 65536 + b * 256 + c) div 65536 = a" "(a * 65536 + b * 256 + c) div 256 mod 256 = b"
    "(a * 65536 + b * 256 + c) mod 256 = c"
proof -
  have e: "a * 65536 + b * 256 + c = c + (a * 256 + b) * 256" by simp
  show m: "(a * 65536 + b * 256 + c) mod 256 = c" unfolding e mod_mult_self1 using assms by simp
  have d: "(a * 65536 + b * 256 + c) div 256 = a * 256 + b" unfolding e using assms by simp
  show "(a * 65536 + b * 256 + c) div 256 mod 256 = b" unfolding d using assms by simp
  show "(a * 65536 + b * 256 + c) div 65536 = a"
    using div_mult2_eq [of "a * 65536 + b * 256 + c" 256 256] d assms by simp
qed

lemma low_bits:
  fixes a b :: nat
  shows "(a * 65536 + b * 256) mod 64 = 0" "a * 65536 div 64 mod 64 = 0"
proof -
  have "a * 65536 + b * 256 = (a * 1024 + b * 4) * 64" by simp
  then show "(a * 65536 + b * 256) mod 64 = 0" by (simp only: mod_mult_self2_is_0)
  have "a * 65536 = a * 1024 * 64" by simp
  then have "a * 65536 div 64 = a * 1024" by simp
  also have "\<dots> = a * 16 * 64" by simp
  finally show "a * 65536 div 64 mod 64 = 0" by (simp only: mod_mult_self2_is_0)
qed

lemma decode_sextets:
  assumes "n < 16777216"
  shows "base64_url_decode (url_safe (sextet n 18) # url_safe (sextet n 12) # url_safe (sextet n 6) # url_safe (sextet n 0) # s) =
      char_of (n div 65536) # char_of (n div 256 mod 256) # char_of (n mod 256) # base64_url_decode s"
    and "n mod 64 = 0 \<Longrightarrow> base64_url_decode [url_safe (sextet n 18), url_safe (sextet n 12), url_safe (sextet n 6)] =
      [char_of (n div 65536), char_of (n div 256 mod 256)]"
    and "n mod 64 = 0 \<Longrightarrow> n div 64 mod 64 = 0 \<Longrightarrow>
      base64_url_decode [url_safe (sextet n 18), url_safe (sextet n 12)] = [char_of (n div 65536)]"
proof -
  let ?v = "\<lambda>k. n div 2 ^ k mod 64 * 2 ^ k"
  have p: "(2 :: nat) ^ 16 = 65536" "(2 :: nat) ^ 8 = 256" by simp_all
  have q: "(2 :: nat) ^ 18 = 262144" "(2 :: nat) ^ 12 = 4096" "(2 :: nat) ^ 6 = 64" by simp_all
  have e: "?v 18 + ?v 12 + ?v 6 + n div 2 ^ 0 mod 64 = n"
    using sextets_sum [OF assms] unfolding q power_0 div_by_1 .
  note decode = base64_url_decode.simps Let_def sextet_value
  show "base64_url_decode (url_safe (sextet n 18) # url_safe (sextet n 12) # url_safe (sextet n 6) # url_safe (sextet n 0) # s) =
      char_of (n div 65536) # char_of (n div 256 mod 256) # char_of (n mod 256) # base64_url_decode s"
    unfolding decode e p ..
  show "base64_url_decode [url_safe (sextet n 18), url_safe (sextet n 12), url_safe (sextet n 6)] =
      [char_of (n div 65536), char_of (n div 256 mod 256)]" if "n mod 64 = 0"
  proof -
    have "?v 18 + ?v 12 + ?v 6 = n" using e that unfolding q power_0 div_by_1 by linarith
    then show ?thesis unfolding decode p by (simp only:)
  qed
  show "base64_url_decode [url_safe (sextet n 18), url_safe (sextet n 12)] = [char_of (n div 65536)]"
    if "n mod 64 = 0" "n div 64 mod 64 = 0"
  proof -
    have "?v 18 + ?v 12 = n" using e that unfolding q power_0 div_by_1 by linarith
    then show ?thesis unfolding decode p by (simp only:)
  qed
qed

lemma base64_url_decode_encode: "base64_url_decode (base64_url_encode data) = data"
proof (induction data rule: base64_chunks.induct)
  case (1 a b c rest)
  let ?n = "byte_of a * 65536 + byte_of b * 256 + byte_of c"
  have n: "?n < 16777216"
    using byte_of_less [of a] byte_of_less [of b] byte_of_less [of c] by linarith
  have m: "char_of (?n div 65536) = a" "char_of (?n div 256 mod 256) = b" "char_of (?n mod 256) = c"
    unfolding bytes_of_chunk [OF byte_of_less byte_of_less] by simp_all
  have p: "(2 :: nat) ^ 16 = 65536" "(2 :: nat) ^ 8 = 256" by simp_all
  from 1 show ?case
    unfolding base64_url_encode_def base64_chunks.simps Let_def list.map p decode_sextets(1) [OF n] m by simp
next
  case (2 a)
  have n: "byte_of a * 65536 < 16777216" using byte_of_less [of a] by linarith
  have p: "(2 :: nat) ^ 16 = 65536" by simp
  show ?case unfolding base64_url_encode_def base64_chunks.simps Let_def list.map p
    by (subst decode_sextets(3) [OF n]) (use low_bits(1) [of "byte_of a" 0] low_bits(2) [of "byte_of a"] in simp_all)
next
  case (3 a b)
  have n: "byte_of a * 65536 + byte_of b * 256 < 16777216"
    using byte_of_less [of a] byte_of_less [of b] by linarith
  have p: "(2 :: nat) ^ 16 = 65536" "(2 :: nat) ^ 8 = 256" by simp_all
  show ?case unfolding base64_url_encode_def base64_chunks.simps Let_def list.map p decode_sextets(2) [OF n low_bits(1)]
    using bytes_of_chunk [of "byte_of b" 0 "byte_of a"] by simp
qed (simp add: base64_url_encode_def)

lemma base64_url_chars: "list_all base64_url_char (base64_url_encode data)"
  by (induction data rule: base64_chunks.induct) (simp_all add: base64_url_encode_def Let_def)

text \<open>
  Base64url loses nothing and needs no padding: the encoding of any bytes decodes to them, and it
  consists of letters, digits, \<open>-\<close> and \<open>_\<close> only, so neither \<open>.\<close>, the separator of a JWT, nor a character
  that a form body would have to escape can occur in it.
\<close>

theorem base64_url_roundtrip:
  "base64_url_decode (base64_url_encode data) = data \<and> list_all base64_url_char (base64_url_encode data)"
  by (simp add: base64_url_decode_encode base64_url_chars)

section \<open>What an assertion says\<close>

lemma json_read_sa_escape: "json_read (sa_json_escape v @ dquote # r) = Some (v, r)"
proof (induction v)
  case (Cons c v)
  have "byte_of backslash = 92" by (simp add: byte_of_def)
  then have "json_read (sa_escape_char c @ s) = map_option (\<lambda>(v, t). (c # v, t)) (json_read s)" for s
    using json_read_escape_char [of c s] by (simp add: sa_escape_char_def Let_def)
  with Cons show ?case by (simp add: sa_json_escape_def)
qed (simp add: sa_json_escape_def)

lemma json_string_field_inject [simp]:
  "json_string_field v @ r = json_string_field v' @ r' \<longleftrightarrow> v = v' \<and> r = r'"
proof
  assume "json_string_field v @ r = json_string_field v' @ r'"
  then have "sa_json_escape v @ dquote # r = sa_json_escape v' @ dquote # r'" by (simp add: json_string_field_def)
  then have "Some (v, r) = Some (v', r')" by (metis json_read_sa_escape)
  then show "v = v' \<and> r = r'" by simp
qed simp

lemma assertion_header_inject: "assertion_header k = assertion_header k' \<longleftrightarrow> k = k'"
  using json_string_field_inject [of k "''}''" k' "''}''"] by (auto simp: assertion_header_def)

lemma sint_inject: "sint (a :: int64) = sint b \<longleftrightarrow> a = b"
  by (auto dest: arg_cong [of _ _ "word_of_int :: int \<Rightarrow> int64"])

lemma decimal_int_no_comma: "decimal_int i \<noteq> decimal_int j @ CHR '','' # r"
  using decimal_int_chars [of i] by (metis list.set_intros(1) list_all_iff no_number_char(1) set_append UnI2)

lemma assertion_claims_inject:
  "assertion_claims iss scp aud e i sub = assertion_claims iss' scp' aud' e' i' sub' \<longleftrightarrow>
     iss = iss' \<and> scp = scp' \<and> aud = aud' \<and> e = e' \<and> i = i' \<and> sub = sub'"
  using decimal_int_delimited [OF no_number_char(1,1)] decimal_int_delimited [OF no_number_char(2,2)]
    decimal_int_delimited [OF no_number_char(1,2)] decimal_int_delimited [OF no_number_char(2,1)]
    json_string_field_inject [of sub "[]" sub' "[]"] decimal_int_no_comma decimal_int_no_comma [THEN not_sym]
  by (auto simp: assertion_claims_def sint_inject decimal_int_inject)

lemma base64_url_inject: "base64_url_encode a = base64_url_encode b \<longleftrightarrow> a = b"
  by (metis base64_url_decode_encode)

text \<open>The lifetime that is asked for: at least a second and at most the hour Google allows.\<close>

lemma effective_lifetime_bounds: "0 < l \<Longrightarrow> 0 < effective_lifetime l \<and> effective_lifetime l \<le> 3600"
  by (simp add: effective_lifetime_def max_lifetime_seconds_def)

text \<open>
  C25. What is signed says one thing only: two assertions with the same signing input name the same
  account, key, scope, audience, issue time, lifetime (cut to the hour Google allows) and delegated
  subject. So no value, whatever characters it has, can put a claim into the assertion or hide one.
\<close>

theorem assertion_determines_claims:
  assumes "build_assertion_parts key scp iat life sub = Inr p"
    and "build_assertion_parts key' scp' iat' life' sub' = Inr p'"
    and "signing_input p = signing_input p'"
  shows "client_email key = client_email key' \<and> private_key_id key = private_key_id key' \<and> scp = scp' \<and>
    audience_of key = audience_of key' \<and> iat = iat' \<and> effective_lifetime life = effective_lifetime life' \<and> sub = sub'"
proof -
  have l: "0 < life" "0 < life'" using assms(1,2) by (auto simp: build_assertion_parts_def split: if_splits)
  have dot: "\<not> base64_url_char CHR ''.''" by (simp add: base64_url_char_def is_alnum_def is_digit_def is_upper_def is_lower_def byte_of_def)
  let ?exp = "\<lambda>iat life. iat + word_of_int (effective_lifetime life) :: int64"
  let ?claims = "\<lambda>k scp iat life sub. assertion_claims (client_email k) scp (audience_of k) (?exp iat life) iat sub"
  have "base64_url_encode (assertion_header (private_key_id key)) @ CHR ''.'' # base64_url_encode (?claims key scp iat life sub) =
    base64_url_encode (assertion_header (private_key_id key')) @ CHR ''.'' # base64_url_encode (?claims key' scp' iat' life' sub')"
    using assms by (auto simp: build_assertion_parts_def Let_def split: if_splits)
  then have e: "private_key_id key = private_key_id key'" "?claims key scp iat life sub = ?claims key' scp' iat' life' sub'"
    by (simp_all add: delimited_inject [OF base64_url_chars base64_url_chars dot dot] base64_url_inject assertion_header_inject)
  from e(2) have c: "client_email key = client_email key'" "scp = scp'" "audience_of key = audience_of key'" "iat = iat'"
    "sub = sub'" "?exp iat life = ?exp iat life'" by (auto simp: assertion_claims_inject)
  from c(6) have "sint (word_of_int (effective_lifetime life) :: int64) = sint (word_of_int (effective_lifetime life') :: int64)"
    by simp
  then have "effective_lifetime life = effective_lifetime life'"
    using effective_lifetime_bounds [OF l(1)] effective_lifetime_bounds [OF l(2)]
    by (simp add: sint_in_range64 del: word_of_int_eq_iff)
  with c e(1) show ?thesis by blast
qed

text \<open>A key whose parts are all there, and what is signed for it.\<close>

definition example_key :: service_account_key where
  "example_key = \<lparr>client_email = ''sa@p.iam'', private_key = ''PEM'', private_key_id = ''k1'', token_uri = [], project_id = []\<rparr>"

theorem assertion_determines_claims_witness:
  "effective_lifetime 7200 = effective_lifetime 3600"
proof -
  have "\<exists>p q. build_assertion_parts example_key ''drive'' 5 7200 [] = Inr p \<and>
      build_assertion_parts example_key ''drive'' 5 3600 [] = Inr q \<and> signing_input p = signing_input q"
    by (simp add: build_assertion_parts_def example_key_def Let_def effective_lifetime_def max_lifetime_seconds_def)
  then show ?thesis using assertion_determines_claims by blast
qed

end
