(* ===== verification/Adc.thy ===== *)
theory Adc
  imports ServiceAccount
begin

text \<open>
  Where credentials come from: \<open>src/gdrive_adc.cpp\<close> (the Application Default Credentials file and its
  three kinds of document), \<open>src/include/gdrive_credential_file.hpp\<close> (reading such a file defensively)
  and \<open>src/gdrive_oauth_params.cpp\<close> (Google's parameters of the browser flow). The environment and the
  file system are parameters.
\<close>

section \<open>The credentials path\<close>

record adc_path_inputs =
  google_application_credentials :: string
  cloudsdk_config :: string
  home_dir :: string
  appdata_dir :: string

definition adc_file_name :: string where "adc_file_name = ''application_default_credentials.json''"

definition path_join :: "string \<Rightarrow> string \<Rightarrow> string" where
  "path_join dir leaf =
     (if dir = [] then leaf
      else if last dir = slash \<or> last dir = backslash then dir @ leaf
      else dir @ slash # leaf)"

definition resolve_adc_path :: "adc_path_inputs \<Rightarrow> string" where
  "resolve_adc_path i =
     (if google_application_credentials i \<noteq> [] then google_application_credentials i
      else if cloudsdk_config i \<noteq> [] then path_join (cloudsdk_config i) adc_file_name
      else if home_dir i \<noteq> [] then path_join (path_join (home_dir i) ''.config/gcloud'') adc_file_name
      else if appdata_dir i \<noteq> [] then path_join (path_join (appdata_dir i) ''gcloud'') adc_file_name
      else [])"

section \<open>Reading a credential file\<close>

text \<open>What \<open>stat\<close> tells and what an opened file yields, per path; \<open>None\<close> when the call fails.\<close>

record file_stat =
  is_regular :: bool
  st_size :: nat
  st_mtime :: int
  st_ctime :: int
  st_ino :: nat

record host_files =
  stat_file :: "string \<Rightarrow> file_stat option"
  file_contents :: "string \<Rightarrow> string option"

definition max_credential_file_bytes :: nat where "max_credential_file_bytes = 1024 * 1024"

definition not_readable :: string where "not_readable = ''not found or not readable''"

text \<open>\<open>Inl\<close> is the reason, \<open>Inr\<close> the bytes.\<close>

definition read_credential_file :: "host_files \<Rightarrow> string \<Rightarrow> string + string" where
  "read_credential_file files path =
     (case stat_file files path of
        None \<Rightarrow> Inl not_readable
      | Some st \<Rightarrow>
          if \<not> is_regular st then Inl ''not a regular file''
          else if st_size st > max_credential_file_bytes then Inl ''larger than 1 MiB, so not a credential file''
          else (case file_contents files path of
                  None \<Rightarrow> Inl not_readable
                | Some bytes \<Rightarrow> Inr (take (st_size st) bytes)))"

lemma read_credential_file_bounded:
  "read_credential_file files path = Inr bytes \<Longrightarrow> length bytes \<le> max_credential_file_bytes"
  by (auto simp: read_credential_file_def split: option.splits if_splits)

section \<open>The documents\<close>

record adc_user =
  user_client_id :: string
  user_client_secret :: string
  user_refresh_token :: string
  user_quota_project :: string

record adc_external_account =
  ext_audience :: string
  subject_token_type :: string
  ext_token_url :: string
  impersonation_url :: string
  subject_token_path :: string

datatype adc_document =
    AuthorizedUser adc_user
  | ServiceAccountDoc service_account_key
  | ExternalAccount adc_external_account

text \<open>The \<open>note\<close> closure: the missing members, separated by commas.\<close>

definition note_missing :: "(string \<times> string) list \<Rightarrow> string" where
  "note_missing members =
     foldl (\<lambda>missing (field, v). if v = [] then (if missing \<noteq> [] then missing @ '', '' else []) @ field else missing) [] members"

definition adc_user_of :: "json_object \<Rightarrow> adc_user" where
  "adc_user_of obj =
     \<lparr>user_client_id = get_string obj ''client_id'' [], user_client_secret = get_string obj ''client_secret'' [],
      user_refresh_token = get_string obj ''refresh_token'' [], user_quota_project = get_string obj ''quota_project_id'' []\<rparr>"

definition parse_authorized_user :: "json_object \<Rightarrow> string + adc_document" where
  "parse_authorized_user obj =
     (let u = adc_user_of obj;
          members = [(''client_id'', user_client_id u), (''client_secret'', user_client_secret u),
                    (''refresh_token'', user_refresh_token u)] in
      if \<exists>f\<in>set members. snd f = [] then
        Inl (''an '' @ dq ''authorized_user'' @ '' document is missing '' @ note_missing members @
          ''. Re-run `gcloud auth application-default login`.'')
      else Inr (AuthorizedUser u))"

text \<open>
  Whether the \<open>format\<close> member of a credential source is refused: it has to be an object whose \<open>type\<close>,
  if it has one, is the string \<open>text\<close> or empty.
\<close>

definition format_refused :: "json_object \<Rightarrow> bool" where
  "format_refused src =
     (case map_of src ''format'' of
        None \<Rightarrow> False
      | Some (JObject fmt) \<Rightarrow>
          (case map_of fmt ''type'' of
             None \<Rightarrow> False
           | Some (JString t) \<Rightarrow> t \<noteq> [] \<and> t \<noteq> ''text''
           | Some _ \<Rightarrow> True)
      | Some _ \<Rightarrow> True)"

definition external_of :: "json_object \<Rightarrow> json_object \<Rightarrow> adc_external_account" where
  "external_of obj src =
     \<lparr>ext_audience = get_string obj ''audience'' [], subject_token_type = get_string obj ''subject_token_type'' [],
      ext_token_url = get_string obj ''token_url'' [],
      impersonation_url = get_string obj ''service_account_impersonation_url'' [],
      subject_token_path = get_string src ''file'' []\<rparr>"

definition external_missing :: "adc_external_account \<Rightarrow> string" where
  "external_missing x =
     (if ext_audience x = [] then ''audience''
      else if ext_token_url x = [] then ''token_url''
      else if subject_token_type x = [] then ''subject_token_type''
      else [])"

definition an_external :: string where "an_external = dq ''external_account'' @ '' document''"

definition parse_external_account :: "json_object \<Rightarrow> string + adc_document" where
  "parse_external_account obj =
     (case object_member obj ''credential_source'' of
        None \<Rightarrow> Inl (''an '' @ an_external @ '' is missing '' @ dq ''credential_source'' @
                 '', so there is no subject token to exchange.'')
      | Some src \<Rightarrow>
          let x = external_of obj src in
          if subject_token_path x = [] then
            Inl (''this '' @ an_external @ '' has no '' @ dq ''credential_source'' @ ''.'' @ dq ''file'' @ ''. Only a '' @
              ''file-sourced subject token is supported (a projected Kubernetes token, for '' @
              ''example); url-, AWS- and executable-sourced tokens are not.'')
          else if format_refused src then
            Inl (''this '' @ an_external @ CHR 0x27 # ''s '' @ dq ''credential_source'' @ ''.'' @ dq ''format'' @ '' is '' @
              ''not supported. Only '' @ dq ''type'' @ '': '' @ dq ''text'' @ '' (the default: the file holds the bare '' @
              ''token) is; a '' @ dq ''json'' @ '' format, with the token in '' @ dq ''subject_token_field_name'' @ '', is not.'')
          else if external_missing x \<noteq> [] then
            Inl (''an '' @ an_external @ '' is missing '' @ external_missing x @ ''.'')
          else Inr (ExternalAccount x))"

definition no_type :: "json_object \<Rightarrow> string" where
  "no_type obj =
     (if wrapped_client obj then
        ''this looks like an OAuth client JSON (it has an '' @ dq ''installed'' @ '' or '' @ dq ''web'' @ '' '' @
        ''wrapper and no '' @ dq ''type'' @ '' field), not an Application Default Credentials file. '' @
        ''An OAuth client is used with PROVIDER authorization_code, not credential_chain.''
      else
        ''no '' @ dq ''type'' @ '' field, so this is not an Application Default Credentials '' @
        ''document. Expected '' @ dq ''authorized_user'' @ '' or '' @ dq ''service_account'' @ ''.'')"

definition parse_adc_json :: "json_parser \<Rightarrow> string \<Rightarrow> string + adc_document" where
  "parse_adc_json parse text =
     (case parse_object parse text of
        None \<Rightarrow> Inl (''not valid JSON. An Application Default Credentials file is written by '' @
                 ''`gcloud auth application-default login`; if you edited it by hand, re-run that command.'')
      | Some obj \<Rightarrow>
          let doc_type = get_string obj ''type'' [] in
          if doc_type = [] then Inl (no_type obj)
          else if doc_type = ''authorized_user'' then parse_authorized_user obj
          else if doc_type = ''service_account'' then
            (case parse_service_account_key parse text of
               Inl e \<Rightarrow> Inl e
             | Inr key \<Rightarrow> Inr (ServiceAccountDoc key))
          else if doc_type = ''external_account'' then parse_external_account obj
          else Inl (''unexpected credential type '' @ dq doc_type @
                 ''. Expected '' @ dq ''authorized_user'' @ '' or '' @ dq ''service_account'' @ ''.''))"

definition no_credentials_message :: string where
  "no_credentials_message =
     ''gdrive: no Google credentials found.'' @ [newline] @ [newline] @
     ''1. Log in with your own Google account (most common):'' @ [newline] @
     ''     gcloud auth application-default login '' @ [backslash] @ [newline] @
     ''       --scopes=openid,https://www.googleapis.com/auth/drive'' @ [newline] @ [newline] @
     ''   The --scopes flag is required. Without it gcloud requests'' @ [newline] @
     ''   cloud-platform, which does NOT include Drive, and every read'' @ [newline] @
     ''   fails with a 403 that looks like a permissions problem.'' @ [newline] @ [newline] @
     ''   Note: plain `gcloud auth login` is not sufficient -- it'' @ [newline] @
     ''   configures the CLI, not Application Default Credentials.'' @ [newline] @ [newline] @
     ''2. Point at a service-account key:'' @ [newline] @
     ''     export GOOGLE_APPLICATION_CREDENTIALS=/path/to/key.json'' @ [newline] @ [newline] @
     ''3. Or configure a secret explicitly:'' @ [newline] @
     ''     CREATE SECRET (TYPE gdrive, PROVIDER service_account,'' @ [newline] @ ''                    KEY_FILE '' @
     [squote] @ ''/path/to/key.json'' @ [squote] @ '');'' @ [newline] @
     ''     CREATE SECRET (TYPE gdrive, PROVIDER config, ACCESS_TOKEN '' @ [squote] @ ''...'' @ [squote] @ '');'' @
     [newline]"

section \<open>Refusals never show a secret\<close>

definition secret_member :: "string \<Rightarrow> bool" where
  "secret_member k \<longleftrightarrow> k = ''client_secret'' \<or> k = ''refresh_token'' \<or> k = ''private_key''"

text \<open>Two documents that differ at most in the values of their secrets, which both have or both lack.\<close>

definition same_but_secrets :: "json_object \<Rightarrow> json_object \<Rightarrow> bool" where
  "same_but_secrets a b \<longleftrightarrow>
     (\<forall>k. \<not> secret_member k \<longrightarrow> map_of a k = map_of b k) \<and>
     (\<forall>k. secret_member k \<longrightarrow> (required_member a k = None \<longleftrightarrow> required_member b k = None))"

lemma same_but_secrets_get [simp]:
  assumes "same_but_secrets a b" "\<not> secret_member k"
  shows "map_of a k = map_of b k" "get_string a k d = get_string b k d" "string_member a k = string_member b k"
    "required_member a k = required_member b k" "object_member a k = object_member b k"
  using assms by (simp_all add: same_but_secrets_def get_string_def string_member_def required_member_def object_member_def)

lemma empty_iff_missing: "get_string obj k [] = [] \<longleftrightarrow> required_member obj k = None"
  by (auto simp: get_string_def required_member_def split: option.splits)

lemma no_secret_members [simp]:
  "\<not> secret_member ''type''" "\<not> secret_member ''client_id''" "\<not> secret_member ''quota_project_id''"
  "\<not> secret_member ''client_email''" "\<not> secret_member ''installed''" "\<not> secret_member ''web''"
  "\<not> secret_member ''credential_source''" "\<not> secret_member ''audience''" "\<not> secret_member ''token_url''"
  "\<not> secret_member ''subject_token_type''" "\<not> secret_member ''service_account_impersonation_url''"
  by (simp_all add: secret_member_def)

lemma required_same: "same_but_secrets a b \<Longrightarrow> (required_member a k = None) = (required_member b k = None)"
  by (metis same_but_secrets_def same_but_secrets_get(4))

lemma key_errors_hide_secrets:
  assumes "parse text = Some (JObject a)" "parse text' = Some (JObject b)" "same_but_secrets a b"
  shows "parse_service_account_key parse text = Inl e \<longleftrightarrow> parse_service_account_key parse text' = Inl e"
  using assms required_same [OF assms(3), of "''private_key''"]
  by (auto simp: parse_service_account_key_def parse_object_def wrapped_client_def key_fields_def
      split: option.splits if_splits)

lemma user_errors_hide_secrets:
  assumes "same_but_secrets a b"
  shows "parse_authorized_user a = Inl e \<longleftrightarrow> parse_authorized_user b = Inl e"
  using assms required_same [OF assms]
  by (simp add: parse_authorized_user_def adc_user_of_def Let_def note_missing_def empty_iff_missing)



section \<open>The browser flow\<close>

record google_oauth_params =
  auth_url :: string
  token_url :: string
  oauth_scope :: string
  extra_auth_params :: "(string \<times> string) list"

definition build_google_oauth_params :: "string \<Rightarrow> google_oauth_params" where
  "build_google_oauth_params requested_scope =
     \<lparr>auth_url = google_auth_url, token_url = google_token_url,
      oauth_scope = (if requested_scope = [] then scope_drive_readonly else requested_scope),
      extra_auth_params = [(''access_type'', ''offline''), (''prompt'', ''consent'')]\<rparr>"

record display_environment =
  is_posix_non_apple :: bool
  display_var :: string
  wayland_display :: string
  ssh_connection :: string

definition can_launch_browser :: "display_environment \<Rightarrow> bool" where
  "can_launch_browser e \<longleftrightarrow> \<not> is_posix_non_apple e \<or> display_var e \<noteq> [] \<or> wayland_display e \<noteq> []"

definition no_browser_message :: string where
  "no_browser_message =
     ''no browser is available on this machine (neither DISPLAY nor WAYLAND_DISPLAY is set), so the '' @
     ''interactive consent flow cannot run.'' @ [newline] @ ''Use a provider that needs no browser:'' @ [newline] @
     ''  CREATE SECRET (TYPE gdrive, PROVIDER credential_chain);'' @ [newline] @
     ''    -- uses `gcloud auth application-default login`, run on a machine that has one'' @ [newline] @
     ''  CREATE SECRET (TYPE gdrive, PROVIDER service_account, KEY_FILE '' @ [squote] @ ''/path/to/key.json'' @
     [squote] @ '');'' @ [newline] @
     ''Or complete the consent flow on a desktop machine and copy the resulting refresh token into a '' @
     ''PROVIDER config secret.''"

end
