(* ===== verification/Endpoint.thy ===== *)
theory Endpoint
  imports Adc
begin

text \<open>
  The token endpoints: the refresh grant and the workload-identity exchange of \<open>src/gdrive_auth.cpp\<close> and
  the service-account grant of \<open>src/gdrive_service_account_duckdb.cpp\<close>. One HTTP POST, the JSON library, the
  RSA signature and the files of the host are parameters. Every function returns the error text or the
  token with the second it stops being valid; none of them throws.
\<close>

section \<open>The outside\<close>

record http_reply =
  reply_status :: int
  reply_body :: string

text \<open>
  \<open>post_form host path headers body content_type\<close> is one POST, \<open>None\<close> when there is no response. The value of a
  JSON number is \<open>static_cast<int64_t>\<close> of its \<open>double\<close>.
\<close>

record 'w endpoint_env =
  post_form :: "string \<Rightarrow> string \<Rightarrow> (string \<times> string) list \<Rightarrow> string \<Rightarrow> string \<Rightarrow> 'w \<Rightarrow> http_reply option \<times> 'w"
  parse_doc :: json_parser
  serialize_doc :: "json \<Rightarrow> string"
  number_seconds :: "string \<Rightarrow> int64"
  sign_rs256 :: "string \<Rightarrow> string \<Rightarrow> string"
  files_of :: "'w \<Rightarrow> host_files"

type_synonym granted = "string + (string \<times> int64)"

definition form_type :: string where "form_type = ''application/x-www-form-urlencoded''"

section \<open>URLs and form bodies\<close>

definition split_url :: "string \<Rightarrow> (string \<times> string) option" where
  "split_url url =
     (case find_sub ''://'' url of
        None \<Rightarrow> None
      | Some scheme_end \<Rightarrow>
          (case find_char slash (drop (scheme_end + 3) url) of
             None \<Rightarrow> if url = [] then None else Some (url, ''/'')
           | Some j \<Rightarrow>
               if take (scheme_end + 3 + j) url = [] then None
               else Some (take (scheme_end + 3 + j) url, drop (scheme_end + 3 + j) url)))"

text \<open>\<open>UrlEncodeFormValue\<close> is, character by character, the percent encoding of the Drive client.\<close>

definition url_encode_form_value :: "string \<Rightarrow> string" where
  "url_encode_form_value value = url_encode value"

definition form_field :: "string \<Rightarrow> string \<Rightarrow> string" where
  "form_field key value = key @ ''='' @ url_encode_form_value value"

definition refresh_body :: "string \<Rightarrow> string \<Rightarrow> string \<Rightarrow> string" where
  "refresh_body client_id client_secret refresh_token =
     ''grant_type=refresh_token'' @ ''&'' @ form_field ''client_id'' client_id @ ''&'' @
     form_field ''client_secret'' client_secret @ ''&'' @ form_field ''refresh_token'' refresh_token"

definition sts_body :: "adc_external_account \<Rightarrow> string \<Rightarrow> string" where
  "sts_body ext subject_token =
     form_field ''grant_type'' ''urn:ietf:params:oauth:grant-type:token-exchange'' @ ''&'' @
     form_field ''audience'' (ext_audience ext) @ ''&'' @
     form_field ''scope'' ''https://www.googleapis.com/auth/cloud-platform'' @ ''&'' @
     form_field ''requested_token_type'' ''urn:ietf:params:oauth:token-type:access_token'' @ ''&'' @
     form_field ''subject_token_type'' (subject_token_type ext) @ ''&'' @
     form_field ''subject_token'' subject_token"

definition jwt_body :: "string \<Rightarrow> string" where
  "jwt_body assertion = form_field ''grant_type'' jwt_bearer_grant @ ''&'' @ form_field ''assertion'' assertion"

section \<open>Token replies\<close>

record token_response =
  tr_access_token :: string
  tr_expires_in :: int64
  tr_error :: string
  tr_error_description :: string

text \<open>\<open>ParseRefreshTokenResponse\<close> and \<open>ParseTokenResponse\<close>; \<open>None\<close> is \<open>parsed_ok = false\<close>.\<close>

definition parse_token_response :: "'w endpoint_env \<Rightarrow> string \<Rightarrow> token_response option" where
  "parse_token_response env text =
     (case parse_object (parse_doc env) text of
        None \<Rightarrow> None
      | Some obj \<Rightarrow> Some
          \<lparr>tr_access_token = get_string obj ''access_token'' [],
           tr_expires_in = (case map_of obj ''expires_in'' of Some (JNumber n) \<Rightarrow> number_seconds env n | _ \<Rightarrow> 0),
           tr_error = get_string obj ''error'' [],
           tr_error_description = get_string obj ''error_description'' []\<rparr>)"

definition lifetime_of :: "token_response \<Rightarrow> int64" where
  "lifetime_of r = (if 0 <s tr_expires_in r then tr_expires_in r else 3600)"

definition with_detail :: "string \<Rightarrow> string" where
  "with_detail detail = (if detail = [] then [] else '': '' @ detail)"

text \<open>A 200 with an access token is a grant that ends \<open>lifetime_of\<close> seconds from now.\<close>

definition grant_of :: "string \<Rightarrow> int64 \<Rightarrow> token_response option \<Rightarrow> granted" where
  "grant_of missing now_unix parsed =
     (case parsed of
        None \<Rightarrow> Inl missing
      | Some r \<Rightarrow> if tr_access_token r = [] then Inl missing
                  else Inr (tr_access_token r, now_unix + lifetime_of r))"

definition no_access_token :: string where
  "no_access_token = ''Google token endpoint response did not contain an access_token''"

section \<open>The refresh grant\<close>

definition refresh_detail :: "token_response option \<Rightarrow> string" where
  "refresh_detail parsed =
     (case parsed of
        None \<Rightarrow> []
      | Some r \<Rightarrow>
          if tr_error r \<noteq> [] \<and> tr_error_description r \<noteq> [] then tr_error r @ '': '' @ tr_error_description r
          else if tr_error_description r \<noteq> [] then tr_error_description r
          else tr_error r)"

definition invalid_grant_help :: string where
  "invalid_grant_help =
     [newline] @ [newline] @
     ''The refresh token is no longer valid. Google revokes one when access is withdrawn, when the OAuth '' @
     ''client is deleted, or after ~6 months unused while the project is still in '' @ [dquote] @ ''Testing'' @
     [dquote] @
     '' publishing status. Obtain a new one (for this repo, `make oauth_consent`) and recreate the secret. '' @
     ''A service-account key does not expire this way.''"

definition refresh_refused :: "int \<Rightarrow> token_response option \<Rightarrow> string" where
  "refresh_refused code parsed =
     ''Google token endpoint returned HTTP '' @ decimal_int code @ with_detail (refresh_detail parsed) @
     (case parsed of Some r \<Rightarrow> if tr_error r = ''invalid_grant'' then invalid_grant_help else [] | None \<Rightarrow> [])"

definition refresh_reply :: "'w endpoint_env \<Rightarrow> int64 \<Rightarrow> http_reply option \<Rightarrow> granted" where
  "refresh_reply env now_unix reply =
     (case reply of
        None \<Rightarrow> Inl (''no response from the Google token endpoint ('' @ google_token_url @ ''); check network connectivity'')
      | Some r \<Rightarrow>
          let parsed = parse_token_response env (reply_body r) in
          if reply_status r \<noteq> 200 then Inl (refresh_refused (reply_status r) parsed)
          else grant_of no_access_token now_unix parsed)"

definition refresh_user_token ::
    "'w endpoint_env \<Rightarrow> string \<Rightarrow> string \<Rightarrow> string \<Rightarrow> int64 \<Rightarrow> 'w \<Rightarrow> granted \<times> 'w" where
  "refresh_user_token env client_id client_secret refresh_token now_unix w =
     (case split_url google_token_url of
        None \<Rightarrow> (Inl ''internal error: GOOGLE_TOKEN_URL is not a valid URL'', w)
      | Some (host, path) \<Rightarrow>
          (case post_form env host path [] (refresh_body client_id client_secret refresh_token) form_type w of
             (reply, w) \<Rightarrow> (refresh_reply env now_unix reply, w)))"

section \<open>The service-account grant\<close>

definition service_account_detail :: "token_response option \<Rightarrow> string" where
  "service_account_detail parsed =
     (case parsed of
        None \<Rightarrow> []
      | Some r \<Rightarrow> if tr_error_description r \<noteq> [] then tr_error_description r else tr_error r)"

definition service_account_reply :: "'w endpoint_env \<Rightarrow> string \<Rightarrow> int64 \<Rightarrow> http_reply option \<Rightarrow> granted" where
  "service_account_reply env uri now_unix reply =
     (case reply of
        None \<Rightarrow> Inl (''no response from the Google token endpoint ('' @ uri @ ''); check network connectivity'')
      | Some r \<Rightarrow>
          let parsed = parse_token_response env (reply_body r) in
          if reply_status r \<noteq> 200 then
            Inl (''Google token endpoint returned HTTP '' @ decimal_int (reply_status r) @
              with_detail (service_account_detail parsed))
          else grant_of no_access_token now_unix parsed)"

definition mint_service_account_token ::
    "'w endpoint_env \<Rightarrow> service_account_key \<Rightarrow> string \<Rightarrow> string \<Rightarrow> int64 \<Rightarrow> 'w \<Rightarrow> granted \<times> 'w" where
  "mint_service_account_token env key scp subject now_unix w =
     (case build_assertion_parts key scp now_unix 3600 subject of
        Inl e \<Rightarrow> (Inl e, w)
      | Inr parts \<Rightarrow>
          let signature = sign_rs256 env (signing_input parts) (private_key key) in
          if signature = [] then
            (Inl (''failed to RS256-sign the service-account assertion (check the private_key is a valid PEM RSA key)''), w)
          else
            let assertion = signing_input parts @ ''.'' @ base64_url_encode signature;
                uri = audience_of key in
            (case split_url uri of
               None \<Rightarrow> (Inl ''service-account token_uri is not a valid URL'', w)
             | Some (host, path) \<Rightarrow>
                 (case post_form env host path [] (jwt_body assertion) form_type w of
                    (reply, w) \<Rightarrow> (service_account_reply env uri now_unix reply, w))))"

section \<open>The workload-identity exchange\<close>

definition sts_refused :: "int \<Rightarrow> token_response option \<Rightarrow> string" where
  "sts_refused code parsed =
     ''STS token exchange returned HTTP '' @ decimal_int code @ with_detail (service_account_detail parsed) @
     [newline, newline] @ ''A rejected subject token usually means the audience does not match the '' @
     ''workload identity pool provider this token was minted for.''"

text \<open>The federated token of the first hop.\<close>

definition sts_reply :: "'w endpoint_env \<Rightarrow> adc_external_account \<Rightarrow> http_reply option \<Rightarrow> string + string" where
  "sts_reply env ext reply =
     (case reply of
        None \<Rightarrow> Inl (''no response from the STS endpoint ('' @ ext_token_url ext @ ''); check network connectivity'')
      | Some r \<Rightarrow>
          let parsed = parse_token_response env (reply_body r) in
          if reply_status r \<noteq> 200 then Inl (sts_refused (reply_status r) parsed)
          else (case parsed of
                  None \<Rightarrow> Inl ''the STS response contained no access_token''
                | Some p \<Rightarrow> if tr_access_token p = [] then Inl ''the STS response contained no access_token''
                            else Inr (tr_access_token p)))"

definition impersonation_body :: "string \<Rightarrow> json" where
  "impersonation_body scp = JObject [(''lifetime'', JString ''3600s''), (''scope'', JArray [JString scp])]"

definition impersonation_refused :: "int \<Rightarrow> string" where
  "impersonation_refused code =
     ''service-account impersonation returned HTTP '' @ decimal_int code @ [newline, newline] @
     ''The federated principal needs roles/iam.workloadIdentityUser on the service account it impersonates.''"

text \<open>The reply of the second hop: a member \<open>accessToken\<close>; the lifetime is the one that was asked for.\<close>

definition impersonation_reply :: "'w endpoint_env \<Rightarrow> string \<Rightarrow> int64 \<Rightarrow> http_reply option \<Rightarrow> granted" where
  "impersonation_reply env url now_unix reply =
     (case reply of
        None \<Rightarrow> Inl (''no response from the service-account impersonation endpoint ('' @ url @ ''); check network connectivity'')
      | Some r \<Rightarrow>
          if reply_status r \<noteq> 200 then Inl (impersonation_refused (reply_status r))
          else (case parse_object (parse_doc env) (reply_body r) of
                  None \<Rightarrow> Inl ''the impersonation response was not valid JSON''
                | Some obj \<Rightarrow>
                    (case string_member obj ''accessToken'' of
                       None \<Rightarrow> Inl ''the impersonation response contained no accessToken''
                     | Some token \<Rightarrow> Inr (token, now_unix + 3600))))"

definition no_impersonation_url :: string where
  "no_impersonation_url =
     ''these credentials federate an identity but name no service_account_impersonation_url, so no token '' @
     ''can carry the Drive scope. Add a service account to the credential configuration.''"

text \<open>The second hop, with the token of the first.\<close>

definition impersonate ::
    "'w endpoint_env \<Rightarrow> adc_external_account \<Rightarrow> string \<Rightarrow> int64 \<Rightarrow> string \<Rightarrow> 'w \<Rightarrow> granted \<times> 'w" where
  "impersonate env ext scp now_unix federated w =
     (if impersonation_url ext = [] then (Inl no_impersonation_url, w)
      else (case split_url (impersonation_url ext) of
              None \<Rightarrow> (Inl ''the credentials name an unusable service_account_impersonation_url'', w)
            | Some (host, path) \<Rightarrow>
                (case post_form env host path [(''Authorization'', ''Bearer '' @ federated)]
                        (serialize_doc env (impersonation_body scp)) ''application/json'' w of
                   (reply, w) \<Rightarrow> (impersonation_reply env (impersonation_url ext) now_unix reply, w))))"

definition no_subject_token :: "string \<Rightarrow> string \<Rightarrow> string" where
  "no_subject_token path why =
     ''no workload-identity token at '' @ squote # path @ squote # '' ('' @ why @ ''). This path is written by the platform (a projected '' @
     ''service-account token, on Kubernetes); if it is absent the workload is not federated.''"

definition strip_line_end :: "string \<Rightarrow> string" where
  "strip_line_end s = rstrip (\<lambda>c. c = newline \<or> c = creturn) s"

definition exchange_external_account_token ::
    "'w endpoint_env \<Rightarrow> adc_external_account \<Rightarrow> string \<Rightarrow> int64 \<Rightarrow> 'w \<Rightarrow> granted \<times> 'w" where
  "exchange_external_account_token env ext scp now_unix w =
     (case read_credential_file (files_of env w) (subject_token_path ext) of
        Inl why \<Rightarrow> (Inl (no_subject_token (subject_token_path ext) why), w)
      | Inr raw \<Rightarrow>
          let subject_token = strip_line_end raw in
          if subject_token = [] then
            (Inl (''the workload-identity token at '' @ squote # subject_token_path ext @ squote # '' is empty''), w)
          else
            (case split_url (ext_token_url ext) of
               None \<Rightarrow> (Inl ''the credentials name an unusable token_url'', w)
             | Some (host, path) \<Rightarrow>
                 (case post_form env host path [] (sts_body ext subject_token) form_type w of
                    (reply, w) \<Rightarrow>
                      (case sts_reply env ext reply of
                         Inl e \<Rightarrow> (Inl e, w)
                       | Inr federated \<Rightarrow> impersonate env ext scp now_unix federated w))))"

section \<open>Requests are read as they were meant\<close>

text \<open>A server's reading of a form body: the fields between the \<open>&\<close>, each split at its first \<open>=\<close> and decoded.\<close>

definition form_decode :: "string \<Rightarrow> (string \<times> string) list" where
  "form_decode text =
     map (\<lambda>field. (takeWhile (\<lambda>c. c \<noteq> CHR ''='') field, url_decode (drop 1 (dropWhile (\<lambda>c. c \<noteq> CHR ''='') field))))
       (split_at CHR ''&'' text)"

lemma url_encode_free:
  assumes "c \<in> set (url_encode v)"
  shows "c \<noteq> CHR ''&''" "c \<noteq> CHR ''=''"
proof -
  have "is_unreserved c \<or> c = CHR ''%''"
    using assms by (auto simp: url_encode_def url_encode_char_def hex_upper_unreserved split: if_splits)
  then show "c \<noteq> CHR ''&''" "c \<noteq> CHR ''=''"
    by (auto simp: is_unreserved_def is_alnum_def is_digit_def is_upper_def is_lower_def byte_of_def)
qed

lemma form_decode_fields:
  assumes "fs \<noteq> []" "\<forall>(k, v)\<in>set fs. CHR ''&'' \<notin> set k \<and> CHR ''='' \<notin> set k"
  shows "form_decode (join CHR ''&'' (map (\<lambda>(k, v). form_field k v) fs)) = fs"
proof -
  have free: "CHR ''&'' \<notin> set f" if "f \<in> set (map (\<lambda>(k, v). form_field k v) fs)" for f
    using that assms(2) url_encode_free(1) by (fastforce simp: form_field_def url_encode_form_value_def)
  have field: "(takeWhile (\<lambda>c. c \<noteq> CHR ''='') (form_field k v),
      url_decode (drop 1 (dropWhile (\<lambda>c. c \<noteq> CHR ''='') (form_field k v)))) = (k, v)" if "(k, v) \<in> set fs" for k v
  proof -
    have "\<forall>c\<in>set k. c \<noteq> CHR ''=''" using that assms(2) by auto
    then have "takeWhile (\<lambda>c. c \<noteq> CHR ''='') (form_field k v) = k"
      "dropWhile (\<lambda>c. c \<noteq> CHR ''='') (form_field k v) = CHR ''='' # url_encode v"
      by (simp_all add: form_field_def url_encode_form_value_def takeWhile_append2 dropWhile_append2)
    then show ?thesis by (simp add: url_decode_encode)
  qed
  have "split_at CHR ''&'' (join CHR ''&'' (map (\<lambda>(k, v). form_field k v) fs)) = map (\<lambda>(k, v). form_field k v) fs"
    using assms(1) free by (intro split_at_join) auto
  then show ?thesis using field by (auto simp: form_decode_def intro!: map_idI)
qed

text \<open>
  C35. A token endpoint reads exactly the fields that were meant: a client id, client secret, refresh
  token, audience, subject token or assertion, whatever bytes it holds, cannot end its field, add a
  field to the request or change another one.
\<close>

theorem form_bodies_decode:
  "form_decode (refresh_body c s r) =
     [(''grant_type'', ''refresh_token''), (''client_id'', c), (''client_secret'', s), (''refresh_token'', r)] \<and>
   form_decode (jwt_body a) = [(''grant_type'', jwt_bearer_grant), (''assertion'', a)] \<and>
   form_decode (sts_body ext t) =
     [(''grant_type'', ''urn:ietf:params:oauth:grant-type:token-exchange''), (''audience'', ext_audience ext),
      (''scope'', ''https://www.googleapis.com/auth/cloud-platform''),
      (''requested_token_type'', ''urn:ietf:params:oauth:token-type:access_token''),
      (''subject_token_type'', subject_token_type ext), (''subject_token'', t)]"
proof -
  have g: "form_field ''grant_type'' ''refresh_token'' = ''grant_type=refresh_token''"
    by (simp add: form_field_def url_encode_form_value_def url_encode_def url_encode_char_def is_unreserved_def is_alnum_def
        is_lower_def is_digit_def is_upper_def byte_of_def)
  show ?thesis
    using form_decode_fields [of "[(''grant_type'', ''refresh_token''), (''client_id'', c), (''client_secret'', s), (''refresh_token'', r)]"]
      form_decode_fields [of "[(''grant_type'', jwt_bearer_grant), (''assertion'', a)]"]
      form_decode_fields [of "[(''grant_type'', ''urn:ietf:params:oauth:grant-type:token-exchange''), (''audience'', ext_audience ext),
        (''scope'', ''https://www.googleapis.com/auth/cloud-platform''),
        (''requested_token_type'', ''urn:ietf:params:oauth:token-type:access_token''),
        (''subject_token_type'', subject_token_type ext), (''subject_token'', t)]"]
    by (simp add: refresh_body_def jwt_body_def sts_body_def g)
qed

end
