(* ===== verification/Secret.thy ===== *)
theory Secret
  imports Adc "HOL-Library.Char_ord" "HOL-Library.List_Lexorder"
begin

text \<open>
  The \<open>gdrive\<close> secrets: \<open>src/gdrive_secret.cpp\<close> (what \<open>CREATE SECRET\<close> checks and stores, per provider),
  \<open>src/gdrive_identity.cpp\<close> (what a secret's cache identity is made of) and the fingerprints of
  \<open>src/gdrive_auth.cpp\<close>. DuckDB's secret manager stays outside; SHA-256 is a parameter.
\<close>

section \<open>Secrets\<close>

text \<open>A DuckDB value of a named parameter: \<open>None\<close> is \<open>NULL\<close>.\<close>

type_synonym db_value = "string option"

definition to_text :: "db_value \<Rightarrow> string" where
  "to_text v = (case v of None \<Rightarrow> ''NULL'' | Some s \<Rightarrow> s)"

record create_secret_input =
  input_name :: string
  input_provider :: string
  input_scope :: "string list"
  input_options :: "(string \<times> db_value) list"

text \<open>A key-value secret. Its map is a sorted one: the entries are kept in the order of their keys.\<close>

record gdrive_secret =
  secret_name :: string
  secret_provider :: string
  secret_scope :: "string list"
  secret_map :: "(string \<times> db_value) list"
  redact_keys :: "string list"

definition new_secret :: "create_secret_input \<Rightarrow> gdrive_secret" where
  "new_secret inp = \<lparr>secret_name = input_name inp, secret_provider = input_provider inp, secret_scope = input_scope inp,
     secret_map = [], redact_keys = []\<rparr>"

definition store_field :: "string \<Rightarrow> db_value \<Rightarrow> gdrive_secret \<Rightarrow> gdrive_secret" where
  "store_field key v s = s\<lparr>secret_map := insort_key fst (key, v) (filter (\<lambda>f. fst f \<noteq> key) (secret_map s))\<rparr>"

definition copy_option :: "create_secret_input \<Rightarrow> string \<Rightarrow> gdrive_secret \<Rightarrow> gdrive_secret" where
  "copy_option inp key s = (case map_of (input_options inp) key of None \<Rightarrow> s | Some v \<Rightarrow> store_field key v s)"

definition copy_options :: "create_secret_input \<Rightarrow> string list \<Rightarrow> gdrive_secret \<Rightarrow> gdrive_secret" where
  "copy_options inp keys s = fold (copy_option inp) keys s"

definition has_non_empty_option :: "create_secret_input \<Rightarrow> string \<Rightarrow> bool" where
  "has_non_empty_option inp key \<longleftrightarrow> (case map_of (input_options inp) key of None \<Rightarrow> False | Some v \<Rightarrow> to_text v \<noteq> [])"

definition apply_default_scope :: "gdrive_secret \<Rightarrow> gdrive_secret" where
  "apply_default_scope s =
     (if map_of (secret_map s) ''drive_scope'' = None then store_field ''drive_scope'' (Some scope_drive_readonly) s else s)"

definition redact :: "string list \<Rightarrow> gdrive_secret \<Rightarrow> gdrive_secret" where
  "redact keys s = s\<lparr>redact_keys := keys @ redact_keys s\<rparr>"

section \<open>Creating a secret\<close>

definition config_options :: "string list" where
  "config_options = [''access_token'', ''refresh_token'', ''client_id'', ''client_secret'', ''drive_id'', ''root_folder_id'', ''drive_scope'']"

definition config_needs_token :: exn where
  "config_needs_token = InvalidInputException
    (''gdrive secret (PROVIDER config) needs at least ACCESS_TOKEN or REFRESH_TOKEN. Example:'' @ [newline] @
     ''  CREATE SECRET gdrive_tok (TYPE gdrive, PROVIDER config, ACCESS_TOKEN '' @ [squote] @ ''...'' @ [squote] @
     '');'')"

definition config_needs_client :: exn where
  "config_needs_client = InvalidInputException
    (''gdrive secret (PROVIDER config) has REFRESH_TOKEN but no ACCESS_TOKEN; refreshing needs CLIENT_ID '' @
     ''and CLIENT_SECRET too (Google'' @ [squote] @ ''s token endpoint needs all three). Example:'' @ [newline] @
     ''  CREATE SECRET gdrive_tok (TYPE gdrive, PROVIDER config, CLIENT_ID '' @ [squote] @ ''...'' @ [squote] @
     '', CLIENT_SECRET '' @ [squote] @ ''...'' @ [squote] @ '', REFRESH_TOKEN '' @ [squote] @ ''...'' @ [squote] @
     '');'')"

definition create_config_secret :: "create_secret_input \<Rightarrow> gdrive_secret outcome" where
  "create_config_secret inp =
     (let s = copy_options inp config_options (new_secret inp) in
      if \<not> has_non_empty_option inp ''access_token'' \<and> \<not> has_non_empty_option inp ''refresh_token'' then
        Inl config_needs_token
      else if \<not> has_non_empty_option inp ''access_token'' \<and>
          (\<not> has_non_empty_option inp ''client_id'' \<or> \<not> has_non_empty_option inp ''client_secret'') then
        Inl config_needs_client
      else Inr (redact [''access_token'', ''refresh_token'', ''client_secret''] (apply_default_scope s)))"

definition service_account_options :: "string list" where
  "service_account_options = [''key_file'', ''drive_id'', ''root_folder_id'', ''drive_scope'']"

definition key_file_unusable :: "string \<Rightarrow> string \<Rightarrow> exn" where
  "key_file_unusable path why = InvalidInputException
    (''gdrive: service-account key file '' @
     (if why = not_readable then not_readable else ''cannot be used, '' @ why) @ '': '' @ squote # path @ [squote] @
     ''. Check the KEY_FILE path passed to CREATE SECRET.'')"

definition needs_key_file :: exn where
  "needs_key_file = InvalidInputException
    (''gdrive secret (PROVIDER service_account) needs KEY_FILE. Example:'' @ [newline] @
     ''  CREATE SECRET gdrive_sa (TYPE gdrive, PROVIDER service_account, KEY_FILE '' @ [squote] @
     ''/etc/creds/sa.json'' @ [squote] @ '');'')"

definition create_service_account_secret ::
    "host_files \<Rightarrow> json_parser \<Rightarrow> create_secret_input \<Rightarrow> gdrive_secret outcome" where
  "create_service_account_secret files parse inp =
     (let s = copy_options inp service_account_options (new_secret inp) in
      if \<not> has_non_empty_option inp ''key_file'' then Inl needs_key_file
      else
        let key_file = to_text (the (map_of (input_options inp) ''key_file'')) in
        case read_credential_file files key_file of
          Inl why \<Rightarrow> Inl (key_file_unusable key_file why)
        | Inr text \<Rightarrow>
            (case parse_service_account_key parse text of
               Inl e \<Rightarrow> Inl (InvalidInputException
                 (''gdrive: invalid service-account key file '' @ squote # key_file @ squote # '': '' @ e))
             | Inr _ \<Rightarrow> Inr (redact [''private_key''] (apply_default_scope s))))"

definition chain_options :: "string list" where
  "chain_options = [''drive_id'', ''root_folder_id'', ''drive_scope'']"

definition create_credential_chain_secret :: "create_secret_input \<Rightarrow> gdrive_secret outcome" where
  "create_credential_chain_secret inp = Inr (apply_default_scope (copy_options inp chain_options (new_secret inp)))"

definition authorization_code_options :: "string list" where
  "authorization_code_options =
     [''client_id'', ''client_secret'', ''redirect_port'', ''refresh_token'', ''drive_id'', ''root_folder_id'', ''drive_scope'']"

definition needs_client_id :: exn where
  "needs_client_id = InvalidInputException
    (''gdrive secret (PROVIDER authorization_code) needs CLIENT_ID. Create an OAuth client of type '' @ [squote] @
     ''Desktop app'' @ [squote] @ '' in the Google Cloud console, then:'' @ [newline] @
     ''  CREATE SECRET gdrive_user (TYPE gdrive, PROVIDER authorization_code, CLIENT_ID '' @ [squote] @ ''...'' @
     [squote] @ '', CLIENT_SECRET '' @ [squote] @ ''...'' @ [squote] @ '');'' @ [newline] @
     ''If you would rather not create one, PROVIDER credential_chain uses your existing gcloud login.'')"

definition needs_client_secret :: exn where
  "needs_client_secret = InvalidInputException
    (''gdrive secret (PROVIDER authorization_code) needs CLIENT_SECRET as well as CLIENT_ID. Google'' @ [squote] @
     ''s token endpoint requires both, even for a Desktop-app client. Example:'' @ [newline] @
     ''  CREATE SECRET gdrive_user (TYPE gdrive, PROVIDER authorization_code, CLIENT_ID '' @ [squote] @ ''...'' @
     [squote] @ '', CLIENT_SECRET '' @ [squote] @ ''...'' @ [squote] @ '');'')"

definition create_authorization_code_secret :: "create_secret_input \<Rightarrow> gdrive_secret outcome" where
  "create_authorization_code_secret inp =
     (let s = copy_options inp authorization_code_options (new_secret inp) in
      if \<not> has_non_empty_option inp ''client_id'' then Inl needs_client_id
      else if \<not> has_non_empty_option inp ''client_secret'' then Inl needs_client_secret
      else Inr (redact [''client_secret'', ''access_token'', ''refresh_token''] (apply_default_scope s)))"

text \<open>
  What \<open>RegisterGDriveSecrets\<close> registers: per provider its creation function and the named parameters
  DuckDB accepts for it, and the provider of a \<open>CREATE SECRET\<close> that names none.
\<close>

definition default_provider :: string where "default_provider = ''credential_chain''"

definition common_parameters :: "string list" where
  "common_parameters = [''drive_id'', ''root_folder_id'', ''drive_scope'']"

definition named_parameters :: "string \<Rightarrow> string list" where
  "named_parameters provider =
     (if provider = ''config'' then [''access_token'', ''refresh_token'', ''client_id'', ''client_secret'']
      else if provider = ''service_account'' then [''key_file'']
      else if provider = ''authorization_code'' then [''client_id'', ''client_secret'', ''redirect_port'', ''refresh_token'']
      else []) @ common_parameters"

definition create_secret :: "host_files \<Rightarrow> json_parser \<Rightarrow> create_secret_input \<Rightarrow> gdrive_secret outcome option" where
  "create_secret files parse inp =
     (if input_provider inp = ''config'' then Some (create_config_secret inp)
      else if input_provider inp = ''service_account'' then Some (create_service_account_secret files parse inp)
      else if input_provider inp = ''credential_chain'' then Some (create_credential_chain_secret inp)
      else if input_provider inp = ''authorization_code'' then Some (create_authorization_code_secret inp)
      else None)"

section \<open>What a secret holds\<close>

lemma map_of_insort: "k \<notin> fst ` set m \<Longrightarrow> map_of (insort_key fst (k, v) m) = (map_of m)(k \<mapsto> v)"
  by (induction m) (auto simp: fun_upd_twist)

lemma map_of_filter_other: "map_of (filter (\<lambda>f. fst f \<noteq> k) m) k' = (if k' = k then None else map_of m k')"
  by (induction m) auto

lemma map_of_store_field [simp]: "map_of (secret_map (store_field k v s)) = (map_of (secret_map s))(k \<mapsto> v)"
proof -
  let ?rest = "filter (\<lambda>f. fst f \<noteq> k) (secret_map s)"
  have "map_of ?rest k' = (if k' = k then None else map_of (secret_map s) k')" for k'
    by (rule map_of_filter_other)
  moreover have "k \<notin> fst ` set ?rest" by auto
  ultimately show ?thesis by (auto simp: store_field_def map_of_insort)
qed

lemma store_field_simps [simp]: "redact_keys (store_field k v s) = redact_keys s" "secret_name (store_field k v s) = secret_name s"
  "secret_provider (store_field k v s) = secret_provider s"
  by (simp_all add: store_field_def)

lemma copy_options_fields:
  "map_of (secret_map (copy_options inp keys s)) k =
     (if k \<in> set keys \<and> map_of (input_options inp) k \<noteq> None then map_of (input_options inp) k else map_of (secret_map s) k)"
  by (induction keys arbitrary: s) (auto simp: copy_options_def copy_option_def split: option.splits)

lemma copy_options_simps [simp]: "redact_keys (copy_options inp keys s) = redact_keys s"
  "secret_name (copy_options inp keys s) = secret_name s" "secret_provider (copy_options inp keys s) = secret_provider s"
  by (induction keys arbitrary: s) (auto simp: copy_options_def copy_option_def split: option.splits)

lemma apply_default_scope_fields:
  "map_of (secret_map (apply_default_scope s)) k =
     (if k = ''drive_scope'' \<and> map_of (secret_map s) k = None then Some (Some scope_drive_readonly) else map_of (secret_map s) k)"
  by (auto simp: apply_default_scope_def)

lemma redact_simps [simp]: "secret_map (redact ks s) = secret_map s" "redact_keys (redact ks s) = ks @ redact_keys s"
  "redact_keys (apply_default_scope s) = redact_keys s"
  by (simp_all add: redact_def apply_default_scope_def)

lemma new_secret_simps [simp]: "secret_map (new_secret inp) = []" "redact_keys (new_secret inp) = []"
  by (simp_all add: new_secret_def)

lemmas option_lists = config_options_def service_account_options_def chain_options_def authorization_code_options_def
  named_parameters_def common_parameters_def

definition secret_material :: "string \<Rightarrow> bool" where
  "secret_material k \<longleftrightarrow> k \<in> {''access_token'', ''refresh_token'', ''client_secret'', ''private_key''}"

text \<open>Every creation function copies the registered parameters, adds the default scope and redacts the secret ones.\<close>

lemma created_secret_form:
  assumes "create_secret files parse inp = Some (Inr s)"
  obtains ks keys where "s = redact ks (apply_default_scope (copy_options inp keys (new_secret inp)))"
    "set keys = set (named_parameters (input_provider inp))"
    "\<forall>k\<in>set keys. secret_material k \<longrightarrow> k \<in> set ks"
proof -
  have redact_none: "s = redact [] s" by (simp add: redact_def)
  from assms consider
      "input_provider inp = ''config''" "create_config_secret inp = Inr s"
    | "input_provider inp = ''service_account''" "create_service_account_secret files parse inp = Inr s"
    | "input_provider inp = ''credential_chain''" "create_credential_chain_secret inp = Inr s"
    | "input_provider inp = ''authorization_code''" "create_authorization_code_secret inp = Inr s"
    by (auto simp: create_secret_def split: if_splits)
  then show thesis
  proof cases
    case 1
    then show ?thesis
      by (intro that [of "[''access_token'', ''refresh_token'', ''client_secret'']" config_options])
         (auto simp: create_config_secret_def Let_def option_lists secret_material_def split: if_splits)
  next
    case 2
    then show ?thesis
      by (intro that [of "[''private_key'']" service_account_options])
         (auto simp: create_service_account_secret_def Let_def option_lists secret_material_def split: if_splits sum.splits)
  next
    case 3
    then show ?thesis
      by (intro that [of "[]" chain_options])
         (auto simp: create_credential_chain_secret_def redact_def option_lists secret_material_def)
  next
    case 4
    then show ?thesis
      by (intro that [of "[''client_secret'', ''access_token'', ''refresh_token'']" authorization_code_options])
         (auto simp: create_authorization_code_secret_def Let_def option_lists secret_material_def split: if_splits)
  qed
qed

lemma scope_parameter: "''drive_scope'' \<in> set (named_parameters p)" "\<not> secret_material ''drive_scope''"
  by (simp_all add: named_parameters_def common_parameters_def secret_material_def)

lemma created_secret_fields:
  assumes "create_secret files parse inp = Some (Inr s)"
  shows "map_of (secret_map s) k =
      (if k \<in> set (named_parameters (input_provider inp)) \<and> map_of (input_options inp) k \<noteq> None
       then map_of (input_options inp) k
       else if k = ''drive_scope'' then Some (Some scope_drive_readonly) else None) \<and>
    (map_of (secret_map s) k = None \<or> \<not> secret_material k \<or> k \<in> set (redact_keys s))"
proof -
  obtain ks keys where s: "s = redact ks (apply_default_scope (copy_options inp keys (new_secret inp)))"
    "set keys = set (named_parameters (input_provider inp))" "\<forall>k\<in>set keys. secret_material k \<longrightarrow> k \<in> set ks"
    by (rule created_secret_form [OF assms])
  then show ?thesis using scope_parameter
    by (cases "k = ''drive_scope''") (auto simp: apply_default_scope_fields copy_options_fields simp del: map_of_eq_None_iff)
qed

text \<open>
  C30. What \<open>CREATE SECRET\<close> stores is exactly what was given: every parameter registered for the provider is
  kept as given and nothing else is, except that a missing OAuth scope becomes the read-only one; and
  every stored field that is secret material is marked to be redacted, so no listing of the secrets
  shows it.
\<close>

theorem created_secret_exact:
  assumes "create_secret files parse inp = Some (Inr s)"
  shows "map_of (secret_map s) k =
      (if k \<in> set (named_parameters (input_provider inp)) \<and> map_of (input_options inp) k \<noteq> None
       then map_of (input_options inp) k
       else if k = ''drive_scope'' then Some (Some scope_drive_readonly) else None) \<and>
    (map_of (secret_map s) k = None \<or> \<not> secret_material k \<or> k \<in> set (redact_keys s))"
  by (rule created_secret_fields [OF assms])

definition example_input :: create_secret_input where
  "example_input = \<lparr>input_name = ''g'', input_provider = ''config'', input_scope = [],
     input_options = [(''access_token'', Some ''ya29.x''), (''drive_id'', Some ''D'')]\<rparr>"

theorem created_secret_exact_witness:
  "\<exists>s. create_config_secret example_input = Inr s \<and> map_of (secret_map s) ''drive_scope'' = Some (Some scope_drive_readonly) \<and>
    map_of (secret_map s) ''access_token'' = Some (Some ''ya29.x'') \<and> ''access_token'' \<in> set (redact_keys s)"
proof -
  let ?files = "\<lparr>stat_file = \<lambda>_. None, file_contents = \<lambda>_. None\<rparr>"
  obtain s where s: "create_config_secret example_input = Inr s"
    by (simp add: create_config_secret_def example_input_def Let_def has_non_empty_option_def to_text_def)
  then have "create_secret ?files (\<lambda>_. None) example_input = Some (Inr s)"
    by (simp add: create_secret_def example_input_def)
  note exact = created_secret_exact [OF this]
  from s exact [of "''drive_scope''"] exact [of "''access_token''"] show ?thesis
    by (auto simp: example_input_def named_parameters_def common_parameters_def secret_material_def)
qed

end
