(* ===== verification/Identity.thy ===== *)
theory Identity
  imports Secret PathCache
begin

text \<open>
  Fingerprints: \<open>src/gdrive_identity.cpp\<close> and \<open>FingerprintKey\<close>, \<open>KeyFileStamp\<close> of \<open>src/gdrive_auth.cpp\<close>. They
  key the process-wide token cache and, as the identity of an auth context, the path and block caches.
  SHA-256 (OpenSSL) is a parameter; what is assumed of it is stated where it is used: two given texts
  with one digest are equal.
\<close>

section \<open>The code\<close>

record hashing =
  sha256 :: "string \<Rightarrow> string option"
  buffer_address :: "string \<Rightarrow> nat"

definition hex_of :: "string \<Rightarrow> string" where
  "hex_of digest = concat (map (\<lambda>c. [hex_lower (byte_of c div 16), hex_lower (byte_of c mod 16)]) digest)"

definition joined_material :: "string list \<Rightarrow> string" where
  "joined_material material = concat (map (\<lambda>m. m @ [unit_sep]) material)"

definition fingerprint_key :: "hashing \<Rightarrow> string \<Rightarrow> string \<Rightarrow> string list \<Rightarrow> string" where
  "fingerprint_key h name provider material =
     (let joined = joined_material material;
          hex = (case sha256 h joined of Some digest \<Rightarrow> hex_of digest
                 | None \<Rightarrow> ''unhashable-'' @ decimal (buffer_address h joined)) in
      provider @ unit_sep # name @ unit_sep # hex)"

definition key_file_stamp :: "host_files \<Rightarrow> string \<Rightarrow> string" where
  "key_file_stamp files key_file =
     (case stat_file files key_file of
        None \<Rightarrow> key_file
      | Some st \<Rightarrow> key_file @ '':'' @ decimal (st_size st) @ '':'' @ decimal_int (st_mtime st) @ '':'' @
                   decimal_int (st_ctime st) @ '':'' @ decimal (st_ino st))"

definition lower :: "string \<Rightarrow> string" where "lower s = map to_lower s"

definition rewritten_by_flow :: "string \<Rightarrow> bool" where
  "rewritten_by_flow key \<longleftrightarrow> key = ''access_token'' \<or> key = ''token_expiry'' \<or> starts_with key ''expires''"

text \<open>The fields that count: all, except those the browser flow rewrites, for that provider only.\<close>

definition identity_fields :: "string \<Rightarrow> (string \<times> string) list \<Rightarrow> (string \<times> string) list" where
  "identity_fields provider secret_fields =
     filter (\<lambda>(key, _). \<not> (provider = ''authorization_code'' \<and> rewritten_by_flow key))
       (map (\<lambda>(k, v). (lower k, v)) secret_fields)"

definition identity_material :: "string \<Rightarrow> (string \<times> string) list \<Rightarrow> string \<Rightarrow> string list" where
  "identity_material provider secret_fields identity_source =
     map (\<lambda>(key, v). key @ ''='' @ v) (identity_fields provider secret_fields) @ [''source='' @ identity_source]"

text \<open>The identity \<open>GetAuthContext\<close> computes for a secret and the stamp of what it authenticates with.\<close>

definition secret_texts :: "gdrive_secret \<Rightarrow> (string \<times> string) list" where
  "secret_texts s = map (\<lambda>(k, v). (k, to_text v)) (secret_map s)"

definition secret_identity :: "hashing \<Rightarrow> gdrive_secret \<Rightarrow> string \<Rightarrow> string" where
  "secret_identity h s identity_source =
     fingerprint_key h (secret_name s) (secret_provider s)
       (identity_material (secret_provider s) (secret_texts s) identity_source)"

section \<open>Fingerprints are one-to-one\<close>

text \<open>What a hash has to do for a fingerprint: digests of one length, and no collision between these two texts.\<close>

definition hashes :: "hashing \<Rightarrow> string \<Rightarrow> string \<Rightarrow> bool" where
  "hashes h a b \<longleftrightarrow>
     (\<exists>d e. sha256 h a = Some d \<and> sha256 h b = Some e \<and> length d = length e \<and> (a = b \<or> d \<noteq> e))"

lemma hex_of_inject: "hex_of a = hex_of b \<longleftrightarrow> a = b"
proof (induction a arbitrary: b)
  case Nil
  then show ?case by (cases b) (auto simp: hex_of_def)
next
  case (Cons x a)
  show ?case
  proof (cases b)
    case (Cons y b')
    have nibble: "byte_of c div 16 < 16" for c using byte_of_less [of c] by linarith
    have "hex_lower (byte_of x div 16) = hex_lower (byte_of y div 16) \<longleftrightarrow> byte_of x div 16 = byte_of y div 16"
      using nibble [of x] nibble [of y] hex_value_lower by metis
    moreover have "hex_lower (byte_of x mod 16) = hex_lower (byte_of y mod 16) \<longleftrightarrow> byte_of x mod 16 = byte_of y mod 16"
      using hex_value_lower by (metis mod_less_divisor zero_less_numeral)
    moreover have "byte_of x = byte_of y \<longleftrightarrow> byte_of x div 16 = byte_of y div 16 \<and> byte_of x mod 16 = byte_of y mod 16"
      by (metis div_mult_mod_eq)
    ultimately show ?thesis using Cons Cons.IH [of b'] by (auto simp: hex_of_def byte_of_inject)
  qed (simp add: hex_of_def)
qed

lemma length_hex_of [simp]: "length (hex_of d) = 2 * length d"
  by (induction d) (simp_all add: hex_of_def)

lemma joined_material_inject:
  assumes "\<forall>x\<in>set m. unit_sep \<notin> set x" "\<forall>x\<in>set m'. unit_sep \<notin> set x"
  shows "joined_material m = joined_material m' \<longleftrightarrow> m = m'"
  using assms
proof (induction m arbitrary: m')
  case Nil
  then show ?case by (cases m') (auto simp: joined_material_def)
next
  case (Cons x m)
  then show ?case by (cases m') (auto simp: joined_material_def sep_append_eq)
qed

lemma fingerprint_parts:
  assumes "fingerprint_key h n p m = fingerprint_key h n' p' m'"
    and "hashes h (joined_material m) (joined_material m')" and "unit_sep \<notin> set p" "unit_sep \<notin> set p'"
  shows "p = p' \<and> n = n' \<and> joined_material m = joined_material m'"
proof -
  obtain d e where d: "sha256 h (joined_material m) = Some d" "sha256 h (joined_material m') = Some e" "length d = length e"
    "joined_material m = joined_material m' \<or> d \<noteq> e" using assms(2) by (auto simp: hashes_def)
  have "p @ unit_sep # (n @ unit_sep # hex_of d) = p' @ unit_sep # (n' @ unit_sep # hex_of e)"
    using assms(1) d by (simp add: fingerprint_key_def)
  then have "p = p'" "n @ unit_sep # hex_of d = n' @ unit_sep # hex_of e"
    using assms(3,4) sep_append_eq by metis+
  then have "n = n'" "hex_of d = hex_of e" using d(3) by (auto simp: append_eq_append_conv)
  with \<open>p = p'\<close> d(4) show ?thesis by (auto simp: hex_of_inject)
qed

text \<open>A fingerprint is an identity of the caches: two separators, none in the hash.\<close>

lemma hex_lower_chars: "d < 16 \<Longrightarrow> hex_lower d \<noteq> unit_sep"
  by (auto simp: numeral_eq_Suc less_Suc_eq hex_lower_def)

lemma hex_of_free: "unit_sep \<notin> set (hex_of d)"
proof -
  have "byte_of c div 16 < 16" for c using byte_of_less [of c] by linarith
  then show ?thesis by (induction d) (simp_all add: hex_of_def hex_lower_chars [THEN not_sym])
qed

lemma fingerprint_is_identity:
  assumes "unit_sep \<notin> set name" "unit_sep \<notin> set provider"
  shows "wf_identity (fingerprint_key h name provider material)"
proof -
  have "\<not> is_digit unit_sep" by (simp add: is_digit_def byte_of_def)
  then have "unit_sep \<notin> set (decimal n)" for n using decimal_digits by blast
  with assms hex_of_free show ?thesis
    by (auto simp: wf_identity_def fingerprint_key_def Let_def filter_empty_conv split: option.splits)
qed

text \<open>
  The separator is not escaped, so values that hold one are confused: nothing stops \<open>CREATE SECRET\<close> from
  storing such a value, although the comment on \<open>FingerprintKey\<close> says it cannot appear.
\<close>

lemma fingerprint_ambiguous: "fingerprint_key h n p [a @ unit_sep # b] = fingerprint_key h n p [a, b]"
  by (simp add: fingerprint_key_def joined_material_def)

text \<open>A secret whose fields hold neither separator, as all but hand-made ones do.\<close>

definition plain_secret :: "gdrive_secret \<Rightarrow> bool" where
  "plain_secret s \<longleftrightarrow> unit_sep \<notin> set (secret_provider s) \<and>
     (\<forall>(k, v)\<in>set (secret_texts s). CHR ''='' \<notin> set k \<and> unit_sep \<notin> set k \<and> unit_sep \<notin> set v)"

lemma lower_keeps: "\<not> is_lower c \<Longrightarrow> c \<in> set (lower k) \<Longrightarrow> c \<in> set k"
proof -
  have "is_lower (to_lower x) \<or> to_lower x = x" for x
    by (auto simp: to_lower_def is_lower_def is_upper_def)
  then show "\<not> is_lower c \<Longrightarrow> c \<in> set (lower k) \<Longrightarrow> c \<in> set k"
    unfolding lower_def set_map by (metis imageE)
qed

lemma identity_fields_plain:
  assumes "plain_secret s" "(k, v) \<in> set (identity_fields p (secret_texts s))"
  shows "CHR ''='' \<notin> set k" "unit_sep \<notin> set k" "unit_sep \<notin> set v"
proof -
  obtain k' where k': "(k', v) \<in> set (secret_texts s)" "k = lower k'"
    using assms(2) by (auto simp: identity_fields_def)
  have "\<not> is_lower CHR ''=''" "\<not> is_lower unit_sep" by (simp_all add: is_lower_def byte_of_def)
  with k' assms(1) show "CHR ''='' \<notin> set k" "unit_sep \<notin> set k" "unit_sep \<notin> set v"
    using lower_keeps [of _ k'] by (auto simp: plain_secret_def)
qed

lemma field_texts_inject:
  assumes "\<forall>(k, v)\<in>set fs. CHR ''='' \<notin> set k" "\<forall>(k, v)\<in>set gs. CHR ''='' \<notin> set k"
  shows "map (\<lambda>(key, v). key @ ''='' @ v) fs = map (\<lambda>(key, v). key @ ''='' @ v) gs \<longleftrightarrow> fs = gs"
  using assms
proof (induction fs arbitrary: gs)
  case (Cons f fs)
  then show ?case by (cases gs) (auto simp: sep_append_eq)
qed auto

lemma same_identity_same_principal:
  assumes "secret_identity h s src = secret_identity h s' src'" and "plain_secret s" and "plain_secret s'"
    and "unit_sep \<notin> set src" and "unit_sep \<notin> set src'"
    and "hashes h (joined_material (identity_material (secret_provider s) (secret_texts s) src))
      (joined_material (identity_material (secret_provider s') (secret_texts s') src'))"
  shows "secret_name s = secret_name s' \<and> secret_provider s = secret_provider s' \<and> src = src' \<and>
    identity_fields (secret_provider s) (secret_texts s) = identity_fields (secret_provider s') (secret_texts s')"
proof -
  let ?m = "identity_material (secret_provider s) (secret_texts s) src"
  let ?m' = "identity_material (secret_provider s') (secret_texts s') src'"
  have sep: "\<forall>x\<in>set ?m. unit_sep \<notin> set x" "\<forall>x\<in>set ?m'. unit_sep \<notin> set x"
    using assms(4,5) identity_fields_plain [OF assms(2)] identity_fields_plain [OF assms(3)]
    by (fastforce simp: identity_material_def)+
  from fingerprint_parts [OF assms(1) [unfolded secret_identity_def] assms(6)] assms(2,3)
  have p: "secret_provider s = secret_provider s'" "secret_name s = secret_name s'" "joined_material ?m = joined_material ?m'"
    by (auto simp: plain_secret_def)
  then have "?m = ?m'" using joined_material_inject [OF sep] by blast
  then have "src = src'" "map (\<lambda>(key, v). key @ ''='' @ v) (identity_fields (secret_provider s) (secret_texts s)) =
      map (\<lambda>(key, v). key @ ''='' @ v) (identity_fields (secret_provider s') (secret_texts s'))"
    by (simp_all add: identity_material_def)
  moreover have "\<forall>(k, v)\<in>set (identity_fields q (secret_texts s)). CHR ''='' \<notin> set k"
    "\<forall>(k, v)\<in>set (identity_fields q (secret_texts s')). CHR ''='' \<notin> set k" for q
    using identity_fields_plain(1) [OF assms(2)] identity_fields_plain(1) [OF assms(3)] by auto
  ultimately have "identity_fields (secret_provider s) (secret_texts s) = identity_fields (secret_provider s') (secret_texts s')"
    using field_texts_inject by metis
  with p \<open>src = src'\<close> show ?thesis by blast
qed

text \<open>
  Two secrets share an identity, and with it cached paths and file contents, only when they are the
  same credential: the same name and provider, the same source (the stamp of the key or credentials
  file) and the same fields, apart from the tokens the browser flow rewrites. Nothing of one account
  is ever served under another.
\<close>

theorem identity_separates_principals:
  assumes "secret_identity h s src = secret_identity h s' src'" and "plain_secret s" and "plain_secret s'"
    and "unit_sep \<notin> set src" and "unit_sep \<notin> set src'"
    and "hashes h (joined_material (identity_material (secret_provider s) (secret_texts s) src))
      (joined_material (identity_material (secret_provider s') (secret_texts s') src'))"
  shows "secret_name s = secret_name s' \<and> secret_provider s = secret_provider s' \<and> src = src' \<and>
    identity_fields (secret_provider s) (secret_texts s) = identity_fields (secret_provider s') (secret_texts s')"
  by (rule same_identity_same_principal) (rule assms)+

text \<open>A pasted token is the principal of a \<open>config\<close> secret; the tokens of the browser flow are not.\<close>

definition token_secret :: "string \<Rightarrow> string \<Rightarrow> gdrive_secret" where
  "token_secret provider token = \<lparr>secret_name = ''g'', secret_provider = provider, secret_scope = [],
     secret_map = [(''access_token'', Some token)], redact_keys = []\<rparr>"

definition example_hashing :: hashing where
  "example_hashing = \<lparr>sha256 = \<lambda>s. Some (take 32 (s @ replicate 32 unit_sep)), buffer_address = \<lambda>_. 0\<rparr>"

theorem identity_separates_principals_witness:
  "secret_identity example_hashing (token_secret ''config'' ''a'') [] \<noteq>
   secret_identity example_hashing (token_secret ''config'' ''b'') []"
proof
  let ?s = "token_secret ''config''"
  assume e: "secret_identity example_hashing (?s ''a'') [] = secret_identity example_hashing (?s ''b'') []"
  have f: "identity_fields ''config'' (secret_texts (?s t)) = [(''access_token'', t)]" for t
    by (simp add: identity_fields_def secret_texts_def token_secret_def to_text_def lower_def to_lower_def is_upper_def byte_of_def)
  have "plain_secret (?s ''a'')" "plain_secret (?s ''b'')"
    by (simp_all add: plain_secret_def secret_texts_def token_secret_def to_text_def)
  moreover have "hashes example_hashing (joined_material (identity_material ''config'' (secret_texts (?s ''a'')) []))
      (joined_material (identity_material ''config'' (secret_texts (?s ''b'')) []))"
    by (simp add: hashes_def identity_material_def f joined_material_def example_hashing_def)
  ultimately show False
    using identity_separates_principals [OF e] by (simp add: f token_secret_def [of "''config''", THEN arg_cong [of _ _ secret_provider]])
qed

end
