(* ===== verification/Auth.thy ===== *)
theory Auth
  imports TokenSource Endpoint Identity
begin

text \<open>
  \<open>GetAuthContext\<close> of \<open>src/gdrive_auth.cpp\<close>: from a path to the secret that covers it and from there, per
  provider, to a token source with a first token. DuckDB (secret lookup, settings, connection), the
  environment variables and the browser flow of datazoo-oauth2 are parameters.
\<close>

section \<open>The outside\<close>

record oauth_config =
  oa_client_id :: string
  oa_client_secret :: string
  oa_google :: google_oauth_params
  oa_redirect_uri :: string

record oauth_tokens =
  oa_access_token :: string
  oa_refresh_token :: string
  oa_expires_in :: int64

text \<open>
  \<open>lookup_secret\<close> is DuckDB's scope-matching lookup, \<open>secret_types\<close> the types of all secrets,
  \<open>update_secret\<close> the write-back of the flow's tokens. A setting is \<open>None\<close> when it is unset or \<open>NULL\<close>.
\<close>

record 'w auth_env =
  endpoint :: "'w endpoint_env"
  clock_of :: "'w clock"
  hashing_of :: hashing
  env_var :: "string \<Rightarrow> string option"
  posix_non_apple :: bool
  has_database :: bool
  has_connection :: bool
  adc_file_setting :: "string option"
  max_age_setting :: "int64 option"
  lookup_secret :: "string \<Rightarrow> 'w \<Rightarrow> gdrive_secret option"
  secret_types :: "'w \<Rightarrow> string list"
  browser_flow :: "oauth_config \<Rightarrow> 'w \<Rightarrow> (string + oauth_tokens) \<times> 'w"
  update_secret :: "gdrive_secret \<Rightarrow> string \<Rightarrow> int64 \<Rightarrow> string \<Rightarrow> 'w \<Rightarrow> 'w"

record 'w gdrive_auth_context =
  ctx_tokens :: "'w token_source"
  ctx_drive_id :: string
  ctx_root_folder_id :: string
  ctx_scope :: string
  ctx_secret_name :: string
  ctx_identity :: string
  ctx_quota_project :: string

type_synonym ('a, 'w) auth = "'w token_world \<Rightarrow> 'a outcome \<times> 'w token_world"

section \<open>Helpers\<close>

definition get_or_empty :: "gdrive_secret \<Rightarrow> string \<Rightarrow> string" where
  "get_or_empty kv key = (case map_of (secret_map kv) key of Some (Some v) \<Rightarrow> v | _ \<Rightarrow> [])"

definition quoted_secret :: "string \<Rightarrow> string" where
  "quoted_secret name = ''gdrive secret '' @ squote # name @ [squote]"

definition scope_of :: "gdrive_secret \<Rightarrow> string" where
  "scope_of kv = (if get_or_empty kv ''drive_scope'' = [] then scope_drive_readonly else get_or_empty kv ''drive_scope'')"

definition context_of :: "gdrive_secret \<Rightarrow> 'w token_source \<Rightarrow> 'w gdrive_auth_context" where
  "context_of kv tokens =
     \<lparr>ctx_tokens = tokens, ctx_drive_id = get_or_empty kv ''drive_id'', ctx_root_folder_id = get_or_empty kv ''root_folder_id'',
      ctx_scope = scope_of kv, ctx_secret_name = secret_name kv, ctx_identity = [], ctx_quota_project = []\<rparr>"

text \<open>The first token, eagerly, so that a bad credential fails here.\<close>

definition with_first_token ::
    "'w auth_env \<Rightarrow> 'w gdrive_auth_context \<Rightarrow> ('w gdrive_auth_context, 'w) auth" where
  "with_first_token env ctx s =
     (case token_now (clock_of env) (ctx_tokens ctx) s of
        (Inl e, s) \<Rightarrow> (Inl e, s)
      | (Inr _, s) \<Rightarrow> (Inr ctx, s))"

definition host_of :: "'w auth_env \<Rightarrow> 'w token_world \<Rightarrow> host_files" where
  "host_of env s = files_of (endpoint env) (outside s)"

definition get_env_or_empty :: "'w auth_env \<Rightarrow> string \<Rightarrow> string" where
  "get_env_or_empty env nm = (case env_var env nm of None \<Rightarrow> [] | Some v \<Rightarrow> v)"

definition env_inputs :: "'w auth_env \<Rightarrow> adc_path_inputs" where
  "env_inputs env =
     \<lparr>google_application_credentials = get_env_or_empty env ''GOOGLE_APPLICATION_CREDENTIALS'',
      cloudsdk_config = get_env_or_empty env ''CLOUDSDK_CONFIG'', home_dir = get_env_or_empty env ''HOME'',
      appdata_dir = get_env_or_empty env ''APPDATA''\<rparr>"

definition resolve_chain_adc_path :: "'w auth_env \<Rightarrow> string" where
  "resolve_chain_adc_path env =
     (case adc_file_setting env of
        Some p \<Rightarrow> if p \<noteq> [] then p else resolve_adc_path (env_inputs env)
      | None \<Rightarrow> resolve_adc_path (env_inputs env))"

section \<open>Minting\<close>

text \<open>A grant as the token state the cache keeps, or as the exception that names the secret.\<close>

definition minting_with :: "'w auth_env \<Rightarrow> (int64 \<Rightarrow> 'w \<Rightarrow> granted \<times> 'w) \<Rightarrow> (string \<Rightarrow> exn) \<Rightarrow> 'w mint" where
  "minting_with env grant failed w =
     (case clock_of env w of (at, w) \<Rightarrow>
      case grant at w of
        (Inl e, w) \<Rightarrow> (Inl (failed e), w)
      | (Inr (tok, expires), w) \<Rightarrow>
          (Inr \<lparr>access_token = tok, expires_at_unix = expires, minted_at_unix = 0\<rparr>, w))"

definition refresh_grant_mint :: "'w auth_env \<Rightarrow> string \<Rightarrow> string \<Rightarrow> string \<Rightarrow> string \<Rightarrow> 'w mint" where
  "refresh_grant_mint env client_id client_secret refresh_token name =
     minting_with env (refresh_user_token (endpoint env) client_id client_secret refresh_token)
       (\<lambda>e. IOException (quoted_secret name @ '': failed to refresh an access token from Google: '' @ e))"

definition service_account_mint :: "'w auth_env \<Rightarrow> service_account_key \<Rightarrow> string \<Rightarrow> string \<Rightarrow> 'w mint" where
  "service_account_mint env key scp name =
     minting_with env (mint_service_account_token (endpoint env) key scp [])
       (\<lambda>e. IOException (quoted_secret name @ '': failed to obtain an access token from Google: '' @ e))"

primrec chain_mint :: "'w auth_env \<Rightarrow> string \<Rightarrow> string \<Rightarrow> string \<Rightarrow> adc_document \<Rightarrow> 'w mint" where
  "chain_mint env adc_path scp name (ExternalAccount ext) =
     minting_with env (exchange_external_account_token (endpoint env) ext scp)
       (\<lambda>e. IOException (quoted_secret name @ '': failed to obtain an access token from the workload-identity credentials at '' @
          squote # adc_path @ squote # '': '' @ e))"
| "chain_mint env adc_path scp name (AuthorizedUser u) =
     minting_with env (refresh_user_token (endpoint env) (user_client_id u) (user_client_secret u) (user_refresh_token u))
       (\<lambda>e. IOException (quoted_secret name @ '': failed to refresh an access token from the credentials at '' @
          squote # adc_path @ squote # '': '' @ e @ [newline, newline] @
          ''If this credential was revoked, re-run `gcloud auth application-default login`.''))"
| "chain_mint env adc_path scp name (ServiceAccountDoc key) =
     minting_with env (mint_service_account_token (endpoint env) key scp [])
       (\<lambda>e. IOException (quoted_secret name @ '': failed to obtain an access token using the service-account credentials at '' @
          squote # adc_path @ squote # '': '' @ e))"

section \<open>PROVIDER service\_account\<close>

definition key_file_error :: "string \<Rightarrow> string \<Rightarrow> string \<Rightarrow> exn" where
  "key_file_error name path why = IOException
    (quoted_secret name @ '': service-account key file '' @
     (if why = not_readable then why else ''cannot be used, '' @ why) @ '': '' @ squote # path @ [squote] @
     ''. Check the KEY_FILE path, or recreate the secret, e.g.:'' @ [newline] @ ''  CREATE SECRET '' @ name @
     '' (TYPE gdrive, PROVIDER service_account, KEY_FILE '' @ [squote] @ ''/etc/creds/sa.json'' @ [squote] @ '');'')"

definition build_context_from_service_account ::
    "'w auth_env \<Rightarrow> gdrive_secret \<Rightarrow> int64 \<Rightarrow> ('w gdrive_auth_context, 'w) auth" where
  "build_context_from_service_account env kv cap s =
     (let key_file = get_or_empty kv ''key_file''; name = secret_name kv; scp = scope_of kv in
      if key_file = [] then
        (Inl (InvalidInputException (quoted_secret name @ '' (PROVIDER service_account) is missing KEY_FILE.'')), s)
      else
        let cache_key = fingerprint_key (hashing_of env) name ''service_account''
              [key_file_stamp (host_of env s) key_file, scp, get_or_empty kv ''subject''] in
        case read_credential_file (host_of env s) key_file of
          Inl why \<Rightarrow> (Inl (key_file_error name key_file why), s)
        | Inr text \<Rightarrow>
            (case parse_service_account_key (parse_doc (endpoint env)) text of
               Inl e \<Rightarrow> (Inl (InvalidInputException (quoted_secret name @ '': invalid service-account key file '' @
                          squote # key_file @ squote # '': '' @ e)), s)
             | Inr key \<Rightarrow>
                 with_first_token env (context_of kv (Cached
                   \<lparr>source_key = cache_key, mint_fn = Some (service_account_mint env key scp name), source_max_age = cap\<rparr>)) s))"

section \<open>PROVIDER credential\_chain\<close>

definition no_quota_project :: "string \<Rightarrow> string \<Rightarrow> exn" where
  "no_quota_project name adc_path = IOException
    (quoted_secret name @ '': the credentials at '' @ [squote] @ adc_path @ [squote] @
     '' name no quota project, and Drive refuses a user credential without one. Set it with:'' @ [newline] @
     ''  gcloud auth application-default set-quota-project <PROJECT_ID>'' @ [newline] @
     ''or use a service-account key, which carries its own project association'' @ [newline] @
     ''  CREATE SECRET (TYPE gdrive, PROVIDER service_account, KEY_FILE '' @ [squote] @ ''/path/to/key.json'' @
     [squote] @ '');'')"

definition needs_quota_project :: "adc_document \<Rightarrow> bool" where
  "needs_quota_project doc = (case doc of AuthorizedUser u \<Rightarrow> user_quota_project u = [] | _ \<Rightarrow> False)"

definition quota_project_of :: "adc_document \<Rightarrow> string" where
  "quota_project_of doc = (case doc of AuthorizedUser u \<Rightarrow> user_quota_project u | _ \<Rightarrow> [])"

definition build_context_from_credential_chain ::
    "'w auth_env \<Rightarrow> gdrive_secret \<Rightarrow> int64 \<Rightarrow> ('w gdrive_auth_context, 'w) auth" where
  "build_context_from_credential_chain env kv cap s =
     (let name = secret_name kv; scp = scope_of kv; adc_path = resolve_chain_adc_path env in
      if adc_path = [] then (Inl (IOException (quoted_secret name @ '': '' @ no_credentials_message)), s)
      else
        case read_credential_file (host_of env s) adc_path of
          Inl why \<Rightarrow> (Inl (IOException (quoted_secret name @ '': no usable credentials file at '' @ squote # adc_path @ squote #
                       '' ('' @ why @ '').'' @ [newline, newline] @ no_credentials_message)), s)
        | Inr text \<Rightarrow>
            (case parse_adc_json (parse_doc (endpoint env)) text of
               Inl e \<Rightarrow> (Inl (InvalidInputException (quoted_secret name @ '': credentials file '' @ squote # adc_path @ squote #
                          '' is unusable: '' @ e)), s)
             | Inr doc \<Rightarrow>
                 if needs_quota_project doc then (Inl (no_quota_project name adc_path), s)
                 else
                   let cache_key = fingerprint_key (hashing_of env) name ''credential_chain''
                         [key_file_stamp (host_of env s) adc_path, scp];
                       src = Cached \<lparr>source_key = cache_key, mint_fn = Some (chain_mint env adc_path scp name doc),
                               source_max_age = cap\<rparr> in
                   with_first_token env ((context_of kv src)\<lparr>ctx_quota_project := quota_project_of doc\<rparr>) s))"

section \<open>PROVIDER config\<close>

definition no_usable_token :: "string \<Rightarrow> exn" where
  "no_usable_token name = InvalidInputException
    (quoted_secret name @
     '' (PROVIDER config) has no usable ACCESS_TOKEN, and refreshing needs all three of REFRESH_TOKEN, '' @
     ''CLIENT_ID and CLIENT_SECRET (at least one is missing). Recreate it with either a fresh token:'' @ [newline] @
     ''  CREATE SECRET '' @ name @ '' (TYPE gdrive, PROVIDER config, ACCESS_TOKEN '' @ [squote] @ ''...'' @
     [squote] @ '');'' @ [newline] @ ''or a refreshable one:'' @ [newline] @ ''  CREATE SECRET '' @ name @
     '' (TYPE gdrive, PROVIDER config, CLIENT_ID '' @ [squote] @ ''...'' @ [squote] @ '', CLIENT_SECRET '' @
     [squote] @ ''...'' @ [squote] @ '', REFRESH_TOKEN '' @ [squote] @ ''...'' @ [squote] @ '');'')"

definition build_context_from_config ::
    "'w auth_env \<Rightarrow> gdrive_secret \<Rightarrow> int64 \<Rightarrow> ('w gdrive_auth_context, 'w) auth" where
  "build_context_from_config env kv cap s =
     (let name = secret_name kv;
          pasted = get_or_empty kv ''access_token''; refresh = get_or_empty kv ''refresh_token'';
          client_id = get_or_empty kv ''client_id''; client_secret = get_or_empty kv ''client_secret'';
          can_refresh = (refresh \<noteq> [] \<and> client_id \<noteq> [] \<and> client_secret \<noteq> []);
          cached = (\<lambda>key. Cached \<lparr>source_key = key, mint_fn = Some (refresh_grant_mint env client_id client_secret refresh name),
                       source_max_age = cap\<rparr>) in
      if pasted \<noteq> [] then
        (if \<not> can_refresh then with_first_token env (context_of kv (Pasted pasted)) s
         else
           let cache_key = fingerprint_key (hashing_of env) name ''config'' [client_id, client_secret, refresh, pasted] in
           with_first_token env (context_of kv (cached cache_key)) (seed_cache (clock_of env) cache_key pasted s))
      else if \<not> can_refresh then (Inl (no_usable_token name), s)
      else
        let cache_key = fingerprint_key (hashing_of env) name ''config'' [client_id, client_secret, refresh] in
        with_first_token env (context_of kv (cached cache_key)) s)"

section \<open>PROVIDER authorization\_code\<close>

definition display_of :: "'w auth_env \<Rightarrow> display_environment" where
  "display_of env =
     \<lparr>is_posix_non_apple = posix_non_apple env, display_var = get_env_or_empty env ''DISPLAY'',
      wayland_display = get_env_or_empty env ''WAYLAND_DISPLAY'', ssh_connection = get_env_or_empty env ''SSH_CONNECTION''\<rparr>"

definition flow_config :: "gdrive_secret \<Rightarrow> oauth_config" where
  "flow_config kv =
     (let port = get_or_empty kv ''redirect_port'' in
      \<lparr>oa_client_id = get_or_empty kv ''client_id'', oa_client_secret = get_or_empty kv ''client_secret'',
       oa_google = build_google_oauth_params (scope_of kv),
       oa_redirect_uri = ''http://localhost:'' @ (if port = [] then ''8020'' else port)\<rparr>)"

definition flow_incomplete :: "string \<Rightarrow> string \<Rightarrow> string \<Rightarrow> exn" where
  "flow_incomplete name what redirect_uri = IOException
    (quoted_secret name @ '': the browser consent flow did not complete: '' @ what @
     [newline] @ ''This flow needs a browser on this machine and a free port for the redirect ('' @ redirect_uri @
     ''). On a headless host use PROVIDER credential_chain or PROVIDER service_account instead.'')"

definition code_key :: "'w auth_env \<Rightarrow> gdrive_secret \<Rightarrow> string \<Rightarrow> string" where
  "code_key env kv refresh =
     fingerprint_key (hashing_of env) (secret_name kv) ''authorization_code''
       [get_or_empty kv ''client_id'', get_or_empty kv ''client_secret'', scope_of kv, refresh]"

definition code_source :: "'w auth_env \<Rightarrow> gdrive_secret \<Rightarrow> int64 \<Rightarrow> string \<Rightarrow> string \<Rightarrow> 'w token_source" where
  "code_source env kv cap key refresh = Cached
     \<lparr>source_key = key,
      mint_fn = (if refresh = [] then None
                 else Some (refresh_grant_mint env (get_or_empty kv ''client_id'') (get_or_empty kv ''client_secret'') refresh
                        (secret_name kv))),
      source_max_age = cap\<rparr>"

text \<open>
  Without the browser: the stored refresh token gives a first token, or an earlier consent of this
  process left one that is fresh. \<open>None\<close> when neither does and the flow has to run.
\<close>

definition without_browser ::
    "'w auth_env \<Rightarrow> gdrive_secret \<Rightarrow> int64 \<Rightarrow> 'w token_world \<Rightarrow> 'w gdrive_auth_context option \<times> 'w token_world" where
  "without_browser env kv cap s =
     (let refresh = get_or_empty kv ''refresh_token''; key = code_key env kv refresh;
          src = code_source env kv cap key refresh in
      if refresh \<noteq> [] then
        (case token_now (clock_of env) src s of
           (Inl _, s) \<Rightarrow> (None, s)
         | (Inr _, s) \<Rightarrow> (Some (context_of kv src), s))
      else
        (case token_cache s key of
           None \<Rightarrow> (None, s)
         | Some tok \<Rightarrow>
             (case now_unix (clock_of env) s of (t, s) \<Rightarrow>
                (if token_is_fresh tok t cap then Some (context_of kv src) else None, s))))"

text \<open>What happens with the tokens of the flow: written back, cached under the key of the next resolution, counted.\<close>

definition keep_flow_tokens ::
    "'w auth_env \<Rightarrow> gdrive_secret \<Rightarrow> int64 \<Rightarrow> oauth_tokens \<Rightarrow> ('w gdrive_auth_context, 'w) auth" where
  "keep_flow_tokens env kv cap tokens s =
     (let lifetime = (if 0 <s oa_expires_in tokens then oa_expires_in tokens else 3600);
          refresh = oa_refresh_token tokens;
          flow_key = code_key env kv (if refresh = [] then get_or_empty kv ''refresh_token'' else refresh);
          s = (if refresh = [] then s
               else s\<lparr>outside := update_secret env kv (oa_access_token tokens) lifetime refresh (outside s)\<rparr>) in
      case now_unix (clock_of env) s of (t1, s) \<Rightarrow>
      case now_unix (clock_of env) s of (t2, s) \<Rightarrow>
        (Inr (context_of kv (code_source env kv cap flow_key refresh)),
         s\<lparr>token_cache := (token_cache s)(flow_key \<mapsto>
              \<lparr>access_token = oa_access_token tokens, expires_at_unix = t1 + lifetime, minted_at_unix = t2\<rparr>),
           token_requests := Suc (token_requests s)\<rparr>))"

definition build_context_from_authorization_code ::
    "'w auth_env \<Rightarrow> gdrive_secret \<Rightarrow> int64 \<Rightarrow> ('w gdrive_auth_context, 'w) auth" where
  "build_context_from_authorization_code env kv cap s =
     (let name = secret_name kv in
      if get_or_empty kv ''client_id'' = [] \<or> get_or_empty kv ''client_secret'' = [] then
        (Inl (InvalidInputException (quoted_secret name @ '' (PROVIDER authorization_code) is missing CLIENT_ID or CLIENT_SECRET.'')), s)
      else
        case without_browser env kv cap s of
          (Some ctx, s) \<Rightarrow> (Inr ctx, s)
        | (None, s) \<Rightarrow>
            if \<not> can_launch_browser (display_of env) then
              (Inl (IOException (quoted_secret name @ '': '' @ no_browser_message)), s)
            else
              (case browser_flow env (flow_config kv) (outside s) of
                 (Inl what, w) \<Rightarrow> (Inl (flow_incomplete name what (oa_redirect_uri (flow_config kv))), s\<lparr>outside := w\<rparr>)
               | (Inr tokens, w) \<Rightarrow>
                   if oa_access_token tokens = [] then
                     (Inl (IOException (quoted_secret name @ '': the browser consent flow returned no access token.'')),
                      s\<lparr>outside := w\<rparr>)
                   else keep_flow_tokens env kv cap tokens (s\<lparr>outside := w\<rparr>)))"

section \<open>GetAuthContext\<close>

definition has_any_gdrive_secret :: "'w auth_env \<Rightarrow> 'w token_world \<Rightarrow> bool" where
  "has_any_gdrive_secret env s \<longleftrightarrow> has_database env \<and> ''gdrive'' \<in> set (secret_types env (outside s))"

definition no_database :: "string \<Rightarrow> exn" where
  "no_database path = IOException
    (''gdrive: '' @ [squote] @ path @ [squote] @
     '' was opened without a database context, so no secret can be looked up'')"

definition none_apply :: "string \<Rightarrow> exn" where
  "none_apply path = IOException
    (''gdrive: a gdrive secret exists, but none of them apply to '' @ [squote] @ path @ [squote] @ ''.'' @
     [newline] @ ''A secret'' @ [squote] @
     ''s SCOPE clause limits which paths it covers. If you meant to set the OAuth scope, the parameter is '' @
     ''DRIVE_SCOPE -- SCOPE is DuckDB'' @ [squote] @ ''s path filter:'' @ [newline] @
     ''  CREATE SECRET g (TYPE gdrive, PROVIDER config, ACCESS_TOKEN '' @ [squote] @ ''...'' @ [squote] @ '','' @
     [newline] @ ''                   DRIVE_SCOPE '' @ [squote] @ ''https://www.googleapis.com/auth/drive'' @
     [squote] @ '');'' @ [newline] @ ''Check what is registered with: SELECT name, scope FROM duckdb_secrets();'')"

definition no_secret_configured :: "string \<Rightarrow> exn" where
  "no_secret_configured path = IOException
    (''gdrive: no secret configured for path '' @ [squote] @ path @ [squote] @ ''. Create one first, e.g.:'' @
     [newline] @ ''  CREATE SECRET gdrive_sa (TYPE gdrive, PROVIDER service_account, KEY_FILE '' @ [squote] @
     ''/etc/creds/sa.json'' @ [squote] @ '');'' @ [newline] @ ''or, with a pre-obtained token:'' @ [newline] @
     ''  CREATE SECRET gdrive_tok (TYPE gdrive, PROVIDER config, ACCESS_TOKEN '' @ [squote] @ ''...'' @ [squote] @
     '');'')"

definition identity_source_of :: "'w auth_env \<Rightarrow> gdrive_secret \<Rightarrow> 'w token_world \<Rightarrow> string" where
  "identity_source_of env kv s =
     (if secret_provider kv = ''service_account'' then key_file_stamp (host_of env s) (get_or_empty kv ''key_file'')
      else if secret_provider kv = ''credential_chain'' then key_file_stamp (host_of env s) (resolve_chain_adc_path env)
      else [])"

definition needs_connection :: "string \<Rightarrow> string \<Rightarrow> exn" where
  "needs_connection name path = IOException
    (quoted_secret name @
     '' (PROVIDER authorization_code) needs a client connection to refresh its tokens, and '' @ [squote] @ path @
     [squote] @
     '' was opened without one (e.g. by ATTACH). Use a service_account, config or credential_chain secret '' @
     ''for it.'')"

definition bad_max_age :: "int64 \<Rightarrow> exn" where
  "bad_max_age v = InvalidInputException
     (''gdrive: gdrive_debug_token_max_age_seconds must be 0 (no cap) or positive, got '' @ decimal_int (sint v))"

definition unsupported_provider :: "string \<Rightarrow> string \<Rightarrow> exn" where
  "unsupported_provider name provider = InvalidInputException
    (quoted_secret name @ '' has unsupported provider '' @ [squote] @ provider @
     [squote] @ ''; expected '' @ [squote] @ ''service_account'' @ [squote] @ '', '' @ [squote] @ ''config'' @
     [squote] @ '', '' @ [squote] @ ''credential_chain'' @ [squote] @ '' or '' @ [squote] @ ''authorization_code'' @
     [squote] @ ''.'')"

text \<open>The cap on the age of a token: unset is no cap, \<open>None\<close> a value that is refused.\<close>

definition max_age_of :: "'w auth_env \<Rightarrow> int64 option" where
  "max_age_of env = (case max_age_setting env of None \<Rightarrow> Some 0 | Some v \<Rightarrow> normalize_max_age_seconds v)"

definition build_context :: "'w auth_env \<Rightarrow> string \<Rightarrow> gdrive_secret \<Rightarrow> int64 \<Rightarrow> ('w gdrive_auth_context, 'w) auth" where
  "build_context env path kv cap s =
     (if secret_provider kv = ''service_account'' then build_context_from_service_account env kv cap s
      else if secret_provider kv = ''config'' then build_context_from_config env kv cap s
      else if secret_provider kv = ''credential_chain'' then build_context_from_credential_chain env kv cap s
      else if secret_provider kv = ''authorization_code'' then
        (if has_connection env then build_context_from_authorization_code env kv cap s
         else (Inl (needs_connection (secret_name kv) path), s))
      else (Inl (unsupported_provider (secret_name kv) (secret_provider kv)), s))"

definition get_gdrive_auth_context :: "'w auth_env \<Rightarrow> string \<Rightarrow> ('w gdrive_auth_context, 'w) auth" where
  "get_gdrive_auth_context env path s =
     (if \<not> has_database env then (Inl (no_database path), s)
      else case lookup_secret env path (outside s) of
        None \<Rightarrow> (Inl (if has_any_gdrive_secret env s then none_apply path else no_secret_configured path), s)
      | Some kv \<Rightarrow>
          let identity = secret_identity (hashing_of env) kv (identity_source_of env kv s) in
          (case max_age_of env of
             None \<Rightarrow> (Inl (bad_max_age (the (max_age_setting env))), s)
           | Some cap \<Rightarrow>
               (case build_context env path kv cap s of
                  (Inl e, s) \<Rightarrow> (Inl e, s)
                | (Inr ctx, s) \<Rightarrow> (Inr (ctx\<lparr>ctx_identity := identity\<rparr>), s))))"

section \<open>Accepted secrets are usable\<close>

definition no_nulls :: "create_secret_input \<Rightarrow> bool" where
  "no_nulls inp \<longleftrightarrow> (\<forall>(k, v)\<in>set (input_options inp). v \<noteq> None)"

lemma get_or_empty_created:
  assumes "create_secret files parse inp = Some (Inr kv)" "no_nulls inp"
    "k \<in> set (named_parameters (input_provider inp))" "k \<noteq> ''drive_scope''"
  shows "get_or_empty kv k \<noteq> [] \<longleftrightarrow> has_non_empty_option inp k"
proof (cases "map_of (input_options inp) k")
  case None
  with created_secret_fields [OF assms(1), of k] assms(4) show ?thesis
    by (simp add: get_or_empty_def has_non_empty_option_def)
next
  case (Some v)
  then obtain x where "v = Some x" using assms(2) map_of_SomeD by (fastforce simp: no_nulls_def)
  with Some created_secret_fields [OF assms(1), of k] assms(3) show ?thesis
    by (simp add: get_or_empty_def has_non_empty_option_def to_text_def)
qed

lemma created_provider: "create_secret files parse inp = Some (Inr kv) \<Longrightarrow> secret_provider kv = input_provider inp \<and> secret_name kv = input_name inp"
  by (rule created_secret_form) (auto simp: redact_def apply_default_scope_def new_secret_def)


text \<open>Nothing but an access token, on a host without files, clock or browser.\<close>

definition example_auth_env :: "unit auth_env" where
  "example_auth_env =
     \<lparr>endpoint = \<lparr>post_form = \<lambda>_ _ _ _ _ w. (None, w), parse_doc = \<lambda>_. None, serialize_doc = \<lambda>_. [],
        number_seconds = \<lambda>_. 0, sign_rs256 = \<lambda>_ _. [], files_of = \<lambda>_. \<lparr>stat_file = \<lambda>_. None, file_contents = \<lambda>_. None\<rparr>\<rparr>,
      clock_of = example_clock, hashing_of = example_hashing, env_var = \<lambda>_. None, posix_non_apple = True,
      has_database = True, has_connection = True, adc_file_setting = None, max_age_setting = None,
      lookup_secret = \<lambda>_ _. Some (token_secret ''config'' ''ya29.x''), secret_types = \<lambda>_. [''gdrive''],
      browser_flow = \<lambda>_ w. (Inl ''no browser'', w), update_secret = \<lambda>_ _ _ _ w. w\<rparr>"


section \<open>What a resolved context is\<close>

lemma with_first_token_ctx: "with_first_token env ctx s = (Inr ctx', s') \<Longrightarrow> ctx' = ctx"
  by (auto simp: with_first_token_def split: prod.splits sum.splits)

text \<open>The context of a secret, whatever its tokens and quota project.\<close>

definition context_for :: "gdrive_secret \<Rightarrow> 'w gdrive_auth_context \<Rightarrow> bool" where
  "context_for kv ctx \<longleftrightarrow>
     ctx_drive_id ctx = get_or_empty kv ''drive_id'' \<and> ctx_root_folder_id ctx = get_or_empty kv ''root_folder_id'' \<and>
     ctx_scope ctx = scope_of kv \<and> ctx_secret_name ctx = secret_name kv"

lemma context_for_context_of [simp]: "context_for kv (context_of kv src)" "context_for kv ((context_of kv src)\<lparr>ctx_quota_project := q\<rparr>)"
  by (simp_all add: context_for_def context_of_def)

lemma without_browser_context: "without_browser env kv cap s = (Some ctx, s') \<Longrightarrow> context_for kv ctx \<and> ctx_quota_project ctx = []"
  by (auto simp: without_browser_def Let_def context_for_def context_of_def split: if_splits prod.splits sum.splits option.splits)

lemma build_context_for:
  assumes "build_context env path kv cap s = (Inr ctx, s')"
  shows "context_for kv ctx \<and> (ctx_quota_project ctx = [] \<or> secret_provider kv = ''credential_chain'')"
proof -
  consider "build_context_from_service_account env kv cap s = (Inr ctx, s')"
    | "build_context_from_config env kv cap s = (Inr ctx, s')"
    | "secret_provider kv = ''credential_chain''" "build_context_from_credential_chain env kv cap s = (Inr ctx, s')"
    | "build_context_from_authorization_code env kv cap s = (Inr ctx, s')"
    using assms by (auto simp: build_context_def split: if_splits)
  then show ?thesis
  proof cases
    case 1
    then show ?thesis
      by (auto simp: build_context_from_service_account_def Let_def context_of_def dest!: with_first_token_ctx
          split: if_splits sum.splits) (simp_all add: context_for_def)
  next
    case 2
    then show ?thesis
      by (auto simp: build_context_from_config_def Let_def dest!: with_first_token_ctx split: if_splits)
         (simp_all add: context_of_def)
  next
    case 3
    then show ?thesis
      by (auto simp: build_context_from_credential_chain_def Let_def dest!: with_first_token_ctx
          split: if_splits sum.splits)
  next
    case 4
    then show ?thesis using without_browser_context [of env kv cap s ctx]
      by (auto simp: build_context_from_authorization_code_def Let_def keep_flow_tokens_def split: if_splits prod.splits
          sum.splits option.splits) (simp_all add: context_of_def)
  qed
qed

lemma get_context_for:
  assumes "get_gdrive_auth_context env path s = (Inr ctx, s')"
  obtains kv where "lookup_secret env path (outside s) = Some kv" "context_for kv ctx"
    "ctx_quota_project ctx = [] \<or> secret_provider kv = ''credential_chain''"
    "ctx_identity ctx = secret_identity (hashing_of env) kv (identity_source_of env kv s)"
proof -
  obtain kv cap u where u: "lookup_secret env path (outside s) = Some kv" "build_context env path kv cap s = (Inr u, s')"
    "ctx = u\<lparr>ctx_identity := secret_identity (hashing_of env) kv (identity_source_of env kv s)\<rparr>"
    using assms by (auto simp: get_gdrive_auth_context_def Let_def split: if_splits option.splits prod.splits sum.splits)
  from u(3) build_context_for [OF u(2)] show thesis by (intro that [OF u(1)]) (simp_all add: context_for_def)
qed



section \<open>Consent is asked for once\<close>

text \<open>\<open>kv'\<close> is the secret after the tokens of a flow were written back into \<open>kv\<close>.\<close>

definition written_back :: "gdrive_secret \<Rightarrow> string \<Rightarrow> gdrive_secret \<Rightarrow> bool" where
  "written_back kv refresh kv' \<longleftrightarrow>
     secret_name kv' = secret_name kv \<and> get_or_empty kv' ''refresh_token'' = refresh \<and>
     get_or_empty kv' ''client_id'' = get_or_empty kv ''client_id'' \<and>
     get_or_empty kv' ''client_secret'' = get_or_empty kv ''client_secret'' \<and>
     get_or_empty kv' ''drive_scope'' = get_or_empty kv ''drive_scope''"

lemma written_back_key: "written_back kv refresh kv' \<Longrightarrow> code_key env kv' r = code_key env kv r"
  by (simp add: written_back_def code_key_def scope_of_def)

lemma keep_flow_tokens_cached:
  assumes "keep_flow_tokens env kv cap tokens s = (Inr ctx, s')" "oa_refresh_token tokens \<noteq> []"
  obtains c where "token_cache s' (code_key env kv (oa_refresh_token tokens)) = Some c" "access_token c = oa_access_token tokens"
  using assms by (auto simp: keep_flow_tokens_def Let_def split: prod.splits)

lemma try_fresh_hit:
  assumes "token_cache s (source_key src) = Some c" "token_is_fresh c (fst (clock (outside s))) (source_max_age src)"
  shows "cached_token clock src s = (Inr (access_token c), s\<lparr>outside := snd (clock (outside s))\<rparr>)"
proof -
  obtain t w where "clock (outside s) = (t, w)" by fastforce
  with assms show ?thesis by (simp add: cached_token_def try_fresh_def now_unix_def)
qed

text \<open>
  The browser is asked once: when a consent flow has returned a refresh token, the token it granted is
  cached under the key that the next use of the secret computes, so that as long as it is fresh every later
  use gets its context from it, with neither a browser nor a request.
\<close>

theorem consent_lasts:
  assumes "keep_flow_tokens env kv cap tokens s = (Inr ctx, s')" and "oa_refresh_token tokens \<noteq> []"
    and "written_back kv (oa_refresh_token tokens) kv'"
    and "get_or_empty kv ''client_id'' \<noteq> []" and "get_or_empty kv ''client_secret'' \<noteq> []"
  shows "\<exists>c. access_token c = oa_access_token tokens \<and> token_cache s' (code_key env kv' (oa_refresh_token tokens)) = Some c \<and>
    (\<forall>u. token_cache u (code_key env kv' (oa_refresh_token tokens)) = Some c \<and>
       token_is_fresh c (fst (clock_of env (outside u))) cap \<longrightarrow>
       (\<exists>later. build_context_from_authorization_code env kv' cap u = (Inr later, u\<lparr>outside := snd (clock_of env (outside u))\<rparr>) \<and>
          context_for kv' later))"
proof -
  let ?key = "code_key env kv' (oa_refresh_token tokens)"
  obtain c where c: "token_cache s' ?key = Some c" "access_token c = oa_access_token tokens"
    using keep_flow_tokens_cached [OF assms(1,2)] written_back_key [OF assms(3)] by metis
  have "build_context_from_authorization_code env kv' cap u =
      (Inr (context_of kv' (code_source env kv' cap ?key (oa_refresh_token tokens))), u\<lparr>outside := snd (clock_of env (outside u))\<rparr>)"
    if u: "token_cache u ?key = Some c" "token_is_fresh c (fst (clock_of env (outside u))) cap" for u
    using assms(2-5) try_fresh_hit [of u _ c "clock_of env"] u
    by (simp add: build_context_from_authorization_code_def without_browser_def written_back_def Let_def code_source_def)
  then show ?thesis using c by (intro exI [of _ c]) auto
qed

definition code_secret :: "string \<Rightarrow> gdrive_secret" where
  "code_secret refresh = \<lparr>secret_name = ''g'', secret_provider = ''authorization_code'', secret_scope = [],
     secret_map = [(''client_id'', Some ''i''), (''client_secret'', Some ''s''), (''refresh_token'', Some refresh)],
     redact_keys = [''client_secret'', ''access_token'', ''refresh_token'']\<rparr>"

theorem consent_lasts_witness:
  "\<exists>ctx s'. keep_flow_tokens example_auth_env (code_secret []) 0
        \<lparr>oa_access_token = ''a'', oa_refresh_token = ''r'', oa_expires_in = 3600\<rparr> (no_tokens ()) = (Inr ctx, s') \<and>
     (\<exists>later u. build_context_from_authorization_code example_auth_env (code_secret ''r'') 0 s' = (Inr later, u) \<and>
        token_requests u = 1)"
proof -
  let ?env = example_auth_env and ?t = "\<lparr>oa_access_token = ''a'', oa_refresh_token = ''r'', oa_expires_in = 3600\<rparr>"
  let ?key = "code_key ?env (code_secret ''r'') ''r''"
  have clock: "clock_of ?env = (\<lambda>w. (1000, w))" by (simp add: example_auth_env_def example_clock_def)
  have wb: "written_back (code_secret []) ''r'' (code_secret ''r'')"
    by (simp add: written_back_def get_or_empty_def code_secret_def)
  obtain ctx s' where k: "keep_flow_tokens ?env (code_secret []) 0 ?t (no_tokens ()) = (Inr ctx, s')"
    "token_cache s' = [?key \<mapsto> \<lparr>access_token = ''a'', expires_at_unix = 4600, minted_at_unix = 1000\<rparr>]"
    "token_requests s' = 1"
    using written_back_key [OF wb, of ?env "''r''"]
    by (auto simp: keep_flow_tokens_def Let_def now_unix_def clock no_tokens_def word_sless_alt)
  have f: "get_or_empty (code_secret []) ''client_id'' \<noteq> []" "get_or_empty (code_secret []) ''client_secret'' \<noteq> []"
    by (simp_all add: get_or_empty_def code_secret_def)
  have fresh: "token_is_fresh \<lparr>access_token = ''a'', expires_at_unix = 4600, minted_at_unix = 1000\<rparr> 1000 0"
    by (simp add: token_is_fresh_iff horizon_of_def)
  have all: "\<forall>u. token_cache u ?key = Some \<lparr>access_token = ''a'', expires_at_unix = 4600, minted_at_unix = 1000\<rparr> \<longrightarrow>
      (\<exists>later. build_context_from_authorization_code ?env (code_secret ''r'') 0 u = (Inr later, u\<lparr>outside := ()\<rparr>) \<and>
        context_for (code_secret ''r'') later)"
    using consent_lasts [OF k(1) _ _ f, of "code_secret ''r''"] wb fresh k(2) by (auto simp: clock)
  obtain later where "build_context_from_authorization_code ?env (code_secret ''r'') 0 s' = (Inr later, s'\<lparr>outside := ()\<rparr>)"
    using all [rule_format, of s'] k(2) by auto
  then show ?thesis using k(1,3) by auto
qed

end
