(* ===== verification/AuthSession.thy ===== *)
theory AuthSession
  imports Auth Resolver
begin

text \<open>
  The seam of \<open>src/include/gdrive_auth.hpp\<close>: the filesystem and its Drive clients on top of the auth contexts
  and token sources of \<open>gdrive_auth.cpp\<close>. What the filesystem's model takes as parameters, the context of a
  path and the two functions of a token source, is instantiated here with the models of \<open>Auth\<close> and
  \<open>TokenSource\<close>; what a client relies on is the locale \<open>token_provider\<close>.
\<close>

section \<open>A process: its token world and the sources its handles share\<close>

record 'w session =
  session_tokens :: "'w token_world"
  session_sources :: "'w token_source list"

definition on_tokens :: "('w token_world \<Rightarrow> 'a \<times> 'w token_world) \<Rightarrow> 'w session \<Rightarrow> 'a \<times> 'w session" where
  "on_tokens f n = (case f (session_tokens n) of (x, u) \<Rightarrow> (x, n\<lparr>session_tokens := u\<rparr>))"

definition session_token :: "'w auth_env \<Rightarrow> nat \<Rightarrow> 'w session \<Rightarrow> string outcome \<times> 'w session" where
  "session_token env i n = on_tokens (token_now (clock_of env) (session_sources n ! i)) n"

definition session_refresh :: "'w auth_env \<Rightarrow> nat \<Rightarrow> string \<Rightarrow> 'w session \<Rightarrow> string outcome \<times> 'w session" where
  "session_refresh env i rejected n = on_tokens (token_after_rejection (clock_of env) (session_sources n ! i) rejected) n"

definition fs_context :: "nat \<Rightarrow> 'w gdrive_auth_context \<Rightarrow> auth_context" where
  "fs_context i ctx = \<lparr>auth_tokens = i, auth_drive_id = ctx_drive_id ctx, auth_root_folder_id = ctx_root_folder_id ctx,
     auth_identity = ctx_identity ctx, auth_quota_project = ctx_quota_project ctx\<rparr>"

definition session_auth :: "'w auth_env \<Rightarrow> string \<Rightarrow> 'w session \<Rightarrow> auth_context outcome \<times> 'w session" where
  "session_auth env path n =
     (case on_tokens (get_gdrive_auth_context env path) n of
        (Inl e, n) \<Rightarrow> (Inl e, n)
      | (Inr ctx, n) \<Rightarrow> (Inr (fs_context (length (session_sources n)) ctx), n\<lparr>session_sources := session_sources n @ [ctx_tokens ctx]\<rparr>))"

definition session_env :: "'w auth_env \<Rightarrow> 'w session fs_env \<Rightarrow> 'w session fs_env" where
  "session_env env fe = fe
     \<lparr>auth_for := session_auth env, source_token := session_token env, source_refresh := session_refresh env\<rparr>"

section \<open>What a client relies on\<close>

locale token_provider =
  fixes token :: "'s \<Rightarrow> string outcome \<times> 's"
    and refresh :: "string \<Rightarrow> 's \<Rightarrow> string outcome \<times> 's"
    and mints :: "'s \<Rightarrow> nat"
  assumes token_mints: "token s = (r, s') \<Longrightarrow> mints s' \<le> Suc (mints s)"
    and refresh_mints: "refresh rejected s = (r, s') \<Longrightarrow> mints s' \<le> Suc (mints s)"
begin

text \<open>A client of the provider, whose exchanges with Drive mint nothing.\<close>

definition serves_client :: "'s drive_env \<Rightarrow> bool" where
  "serves_client env \<longleftrightarrow> token_of env = token \<and> refresh_of env = refresh \<and>
     (\<forall>rq n. mints (snd (exchange env rq n)) = mints n)"

lemma do_http_mints:
  "serves_client env \<Longrightarrow> do_http env m b p h ct t w = (raw, w') \<Longrightarrow> mints (net w') = mints (net w)"
  by (auto simp: serves_client_def do_http_def Let_def split: prod.splits) (metis snd_conv)

lemma net_simps [simp]: "net (count_call k w) = net w" "net (count_retry w) = net w" "net (sleep_backoff n r w) = net w"
  "net (count_auth_refresh w) = net w"
  by (simp_all add: count_call_def count_retry_def sleep_backoff_def count_auth_refresh_def)

lemma try_refresh_mints:
  assumes "serves_client env" "try_refresh env err refreshed tok w = (r, w')"
  shows "mints (net w') \<le> mints (net w) + (if err_kind err = UNAUTHENTICATED \<and> \<not> refreshed then 1 else 0)"
  using assms refresh_mints
  by (auto simp: try_refresh_def Let_def serves_client_def split: if_splits prod.splits sum.splits)

lemma execute_loop_mints:
  assumes "serves_client env" "execute_loop env c n tok refreshed w = (r, w')"
  shows "mints (net w') \<le> mints (net w) + (if refreshed then 0 else 1)"
proof -
  let ?I = "\<lambda>r v. mints (net v) + (if r then 0 else 1) \<le> mints (net w) + (if refreshed then 0 else 1)"
  have "\<exists>r. ?I r w'"
  proof (rule execute_loop_keeps [where I = ?I, OF _ _ _ assms(2)])
    fix r v raw w1 t
    assume "?I r v" "do_http env (c_method c) (Some t) (c_path c) (c_headers c) (c_body c) (c_content_type c)
        (count_call (c_counter c) v) = (raw, w1)"
    then show "?I r w1" using do_http_mints [OF assms(1)] by fastforce
  next
    fix r v err t x w1
    assume "?I r v" "try_refresh env err r t v = (x, w1)"
    then show "?I (r \<or> err_kind err = UNAUTHENTICATED) w1"
      using try_refresh_mints [OF assms(1), of err r t v x w1] by (auto split: if_splits)
  qed simp_all
  then show ?thesis by auto
qed

lemma call_mints:
  assumes "serves_client env" "execute_with_retry env c w = (r, w')"
  shows "mints (net w') \<le> mints (net w) + 2"
proof -
  obtain x n where x: "token_of env (net w) = (x, n)" by fastforce
  then have n: "mints n \<le> Suc (mints (net w))" using assms(1) token_mints by (simp add: serves_client_def)
  show ?thesis
  proof (cases x)
    case (Inl e)
    with assms(2) x n show ?thesis by (auto simp: execute_with_retry_def)
  next
    case (Inr tok)
    then have "execute_loop env c 0 tok False (w\<lparr>net := n\<rparr>) = (r, w')"
      using assms(2) x by (simp add: execute_with_retry_def)
    from execute_loop_mints [OF assms(1) this] n show ?thesis by simp
  qed
qed

end

section \<open>The sources of a process are such providers\<close>

lemma mint_and_store_requests: "mint_and_store ck k mint s = (r, s') \<Longrightarrow> token_requests s' \<le> Suc (token_requests s)"
  by (rule mint_and_store_cases [of ck k mint s]) simp_all

lemma token_now_requests: "token_now ck src s = (r, s') \<Longrightarrow> token_requests s' \<le> Suc (token_requests s)"
proof (cases src)
  case (Cached c)
  moreover assume "token_now ck src s = (r, s')"
  ultimately have e: "cached_token ck c s = (r, s')" by simp
  show ?thesis
    by (rule cached_token_cases [of ck c s])
       (use e in \<open>auto dest: mint_and_store_requests [OF sym]\<close>)
qed simp

lemma token_after_rejection_requests:
  "token_after_rejection ck src rejected s = (r, s') \<Longrightarrow> token_requests s' \<le> Suc (token_requests s)"
proof (cases src)
  case (Cached c)
  moreover assume "token_after_rejection ck src rejected s = (r, s')"
  ultimately have e: "cached_refresh ck c rejected s = (r, s')" by simp
  show ?thesis
    by (rule cached_refresh_cases [of ck c rejected s])
       (use e in \<open>auto dest: mint_and_store_requests [OF sym]\<close>)
qed simp

interpretation session_source: token_provider "session_token env i" "session_refresh env i"
    "\<lambda>n. token_requests (session_tokens n)" for env i
  by unfold_locales
     (auto simp: session_token_def session_refresh_def on_tokens_def split: prod.splits
        dest: token_now_requests token_after_rejection_requests)

text \<open>
  C10. A Drive call makes at most two token requests, whatever Drive answers: one for the token it starts
  with and one for the single refresh that the loop grants; retries are paid for with the token they have.
\<close>

theorem drive_call_token_requests:
  assumes "\<forall>rq n. session_tokens (snd (exchange (http_base fe) rq n)) = session_tokens n"
    and "execute_with_retry (create_client (session_env env fe) auth) c w = (r, w')"
  shows "token_requests (session_tokens (net w')) \<le> token_requests (session_tokens (net w)) + 2"
proof (rule session_source.call_mints)
  show "session_source.serves_client env (auth_tokens auth) (create_client (session_env env fe) auth)"
    using assms(1) by (simp add: session_source.serves_client_def create_client_def session_env_def)
qed (rule assms(2))

definition silent_env :: "unit session drive_env" where
  "silent_env = \<lparr>exchange = (\<lambda>rq n. (\<lparr>transport_ok = False, status = 0, body = [], retry_after = [], location = [],
        held_range = []\<rparr>, n)),
      token_of = (\<lambda>n. (Inr [], n)), refresh_of = (\<lambda>t n. (Inr [], n)),
      parse_json = (\<lambda>s. None), serialize_json = (\<lambda>j. []), boundary_of = (\<lambda>n. (''b'', n)),
      env_drive_id = [], env_quota_project = []\<rparr>"

definition session_start :: "unit session world" where
  "session_start = \<lparr>calls = no_calls, sent = [], slept = [],
     net = \<lparr>session_tokens = no_tokens (), session_sources = [Cached (example_source ''k'' ''t'')]\<rparr>\<rparr>"

theorem drive_call_token_requests_witness:
  "case execute_with_retry (create_client (session_env example_auth_env (plain_fs_env silent_env)) my_auth) trash_call session_start of
     (_, w') \<Rightarrow> token_requests (session_tokens (net w')) \<le> 2"
proof -
  obtain r w' where e: "execute_with_retry (create_client (session_env example_auth_env (plain_fs_env silent_env)) my_auth)
      trash_call session_start = (r, w')" by fastforce
  have "\<forall>rq n. session_tokens (snd (exchange (http_base (plain_fs_env silent_env)) rq n)) = session_tokens n"
    by (simp add: plain_fs_env_def silent_env_def)
  moreover have "token_requests (session_tokens (net session_start)) = 0"
    by (simp add: session_start_def no_tokens_def)
  ultimately show ?thesis using drive_call_token_requests [OF _ e] by (simp add: e)
qed

section \<open>Accounts and the path cache\<close>

definition session_stamp :: "'w auth_env \<Rightarrow> gdrive_secret \<Rightarrow> 'w session \<Rightarrow> string" where
  "session_stamp env kv n = identity_source_of env kv (session_tokens n)"

definition session_secret :: "'w auth_env \<Rightarrow> string \<Rightarrow> 'w session \<Rightarrow> gdrive_secret option" where
  "session_secret env path n = lookup_secret env path (outside (session_tokens n))"

text \<open>No field of the secret holds the separator of the keys.\<close>

definition clean_secret :: "gdrive_secret \<Rightarrow> bool" where
  "clean_secret kv \<longleftrightarrow> plain_secret kv \<and> unit_sep \<notin> set (secret_name kv)"

lemma get_or_empty_plain: "plain_secret kv \<Longrightarrow> unit_sep \<notin> set (get_or_empty kv k)"
proof (cases "map_of (secret_map kv) k")
  case (Some v)
  moreover assume "plain_secret kv"
  ultimately have "unit_sep \<notin> set (to_text v)"
    using map_of_SomeD [OF Some] by (force simp: plain_secret_def secret_texts_def)
  with Some show ?thesis by (cases v) (simp_all add: get_or_empty_def to_text_def)
qed (simp add: get_or_empty_def)

lemma session_context:
  assumes "get_auth_context (session_env env fe) path s = Some (Inr auth, t)" "session_secret env path (net (world s)) = Some kv"
  shows "auth_identity auth = secret_identity (hashing_of env) kv (session_stamp env kv (net (world s)))"
    and "auth_drive_id auth = get_or_empty kv ''drive_id''" and "auth_root_folder_id auth = get_or_empty kv ''root_folder_id''"
    and "auth_tokens auth < length (session_sources (net (world t)))"
proof -
  obtain ctx u where g: "get_gdrive_auth_context env path (session_tokens (net (world s))) = (Inr ctx, u)"
    and auth: "auth = fs_context (length (session_sources (net (world s)))) ctx"
    and t: "session_sources (net (world t)) = session_sources (net (world s)) @ [ctx_tokens ctx]"
    using assms(1) by (auto simp: get_auth_context_def fs_io_def session_env_def session_auth_def on_tokens_def
        split: prod.splits sum.splits)
  from g assms(2) have "context_for kv ctx" "ctx_identity ctx = secret_identity (hashing_of env) kv (session_stamp env kv (net (world s)))"
    by (auto simp: session_secret_def session_stamp_def elim: get_context_for)
  then show "auth_identity auth = secret_identity (hashing_of env) kv (session_stamp env kv (net (world s)))"
    "auth_drive_id auth = get_or_empty kv ''drive_id''" "auth_root_folder_id auth = get_or_empty kv ''root_folder_id''"
    "auth_tokens auth < length (session_sources (net (world t)))"
    by (simp_all add: auth t fs_context_def context_for_def)
qed

lemma session_context_wf:
  assumes "get_auth_context (session_env env fe) path s = Some (Inr auth, t)" "session_secret env path (net (world s)) = Some kv"
    "clean_secret kv"
  shows "wf_auth auth"
  using session_context [OF assms(1,2)] assms(3) get_or_empty_plain [of kv]
  by (simp add: wf_auth_def clean_secret_def secret_identity_def fingerprint_is_identity plain_secret_def)

text \<open>
  C2. Nothing cached for one account is served under another: two uses of the filesystem address the same
  entry of the path cache only when they ask for the same path, with the same secret (name, provider
  and every field apart from what the browser flow rewrites) and the same state of the key or credentials
  file it points to.
\<close>

theorem accounts_never_share_paths:
  assumes "get_auth_context (session_env env fe) path s = Some (Inr auth, t)"
    and "get_auth_context (session_env env fe) path' s' = Some (Inr auth', t')"
    and "session_secret env path (net (world s)) = Some kv" and "session_secret env path' (net (world s')) = Some kv'"
    and "clean_secret kv" and "clean_secret kv'"
    and "src = session_stamp env kv (net (world s))" and "src' = session_stamp env kv' (net (world s'))"
    and "unit_sep \<notin> set src" and "unit_sep \<notin> set src'"
    and "hashes (hashing_of env) (joined_material (identity_material (secret_provider kv) (secret_texts kv) src))
      (joined_material (identity_material (secret_provider kv') (secret_texts kv') src'))"
    and "key_string (path_key auth p) = key_string (path_key auth' p')"
  shows "p = p' \<and> secret_name kv = secret_name kv' \<and> secret_provider kv = secret_provider kv' \<and> src = src' \<and>
    identity_fields (secret_provider kv) (secret_texts kv) = identity_fields (secret_provider kv') (secret_texts kv')"
proof -
  have "wf_key (path_key auth p)" "wf_key (path_key auth' p')"
    using session_context_wf [OF assms(1,3,5)] session_context_wf [OF assms(2,4,6)] by simp_all
  then have k: "path_key auth p = path_key auth' p'" using key_string_inject assms(12) by blast
  then have "p = p'" "secret_identity (hashing_of env) kv src = secret_identity (hashing_of env) kv' src'"
    using session_context(1) [OF assms(1,3)] session_context(1) [OF assms(2,4)] assms(7,8) by (simp_all add: path_key_def)
  moreover have "plain_secret kv" "plain_secret kv'" using assms(5,6) by (simp_all add: clean_secret_def)
  ultimately show ?thesis using same_identity_same_principal [OF _ _ _ assms(9-11)] by blast
qed

text \<open>Two secrets with one name but different tokens, each covering a path.\<close>

definition two_accounts_env :: "unit auth_env" where
  "two_accounts_env = example_auth_env\<lparr>lookup_secret := \<lambda>path _. Some (token_secret ''config'' path)\<rparr>"

definition quiet_state :: "unit session fs_state" where
  "quiet_state = \<lparr>world = session_start, paths = empty_path_cache, block_store = empty_block_cache\<rparr>"

lemma two_accounts:
  assumes "path \<noteq> []"
  obtains auth t where
    "get_auth_context (session_env two_accounts_env (plain_fs_env silent_env)) path quiet_state = Some (Inr auth, t)"
proof -
  let ?kv = "token_secret ''config'' path"
  have kv: "get_or_empty ?kv ''access_token'' = path" "get_or_empty ?kv ''refresh_token'' = []"
    by (simp_all add: get_or_empty_def token_secret_def)
  have b: "build_context two_accounts_env q ?kv 0 u = (Inr (context_of ?kv (Pasted path)), u)" for q u
    using kv assms by (simp add: build_context_def build_context_from_config_def Let_def with_first_token_def context_of_def
        token_secret_def [THEN arg_cong [of _ _ secret_provider]])
  have env: "has_database two_accounts_env" "lookup_secret two_accounts_env path u = Some ?kv" "max_age_of two_accounts_env = Some 0" for u
    by (simp_all add: two_accounts_env_def example_auth_env_def max_age_of_def)
  have "\<exists>ctx. get_gdrive_auth_context two_accounts_env path u = (Inr ctx, u)" for u
    by (simp add: get_gdrive_auth_context_def env b)
  then obtain ctx where "get_gdrive_auth_context two_accounts_env path (session_tokens (net (world quiet_state))) =
      (Inr ctx, session_tokens (net (world quiet_state)))" by blast
  then show thesis
    by (intro that) (simp add: get_auth_context_def fs_io_def session_env_def session_auth_def on_tokens_def)
qed

theorem accounts_never_share_paths_witness:
  "\<exists>auth t auth' t'.
     get_auth_context (session_env two_accounts_env (plain_fs_env silent_env)) ''a'' quiet_state = Some (Inr auth, t) \<and>
     get_auth_context (session_env two_accounts_env (plain_fs_env silent_env)) ''b'' quiet_state = Some (Inr auth', t') \<and>
     key_string (path_key auth ''x'') \<noteq> key_string (path_key auth' ''x'')"
proof -
  let ?fe = "session_env two_accounts_env (plain_fs_env silent_env)" and ?s = "token_secret ''config''"
  obtain auth t where a: "get_auth_context ?fe ''a'' quiet_state = Some (Inr auth, t)" by (rule two_accounts [of "''a''"]) simp
  obtain auth' t' where b: "get_auth_context ?fe ''b'' quiet_state = Some (Inr auth', t')" by (rule two_accounts [of "''b''"]) simp
  have kv: "session_secret two_accounts_env p n = Some (?s p)" for p n
    by (simp add: session_secret_def two_accounts_env_def)
  have stamp: "[] = session_stamp two_accounts_env (?s p) n" for p n
    by (simp add: session_stamp_def identity_source_of_def token_secret_def)
  have clean: "clean_secret (?s ''a'')" "clean_secret (?s ''b'')"
    by (simp_all add: clean_secret_def plain_secret_def secret_texts_def token_secret_def to_text_def)
  have f: "identity_fields (secret_provider (?s q)) (secret_texts (?s p)) = [(''access_token'', p)]" for p q
    by (simp add: identity_fields_def secret_texts_def token_secret_def to_text_def lower_def to_lower_def is_upper_def byte_of_def)
  have "hashes (hashing_of two_accounts_env)
      (joined_material (identity_material (secret_provider (?s ''a'')) (secret_texts (?s ''a'')) []))
      (joined_material (identity_material (secret_provider (?s ''b'')) (secret_texts (?s ''b'')) []))"
    by (simp add: hashes_def identity_material_def f joined_material_def two_accounts_env_def example_auth_env_def example_hashing_def)
  from accounts_never_share_paths [OF a b kv kv clean stamp stamp _ _ this, of "''x''" "''x''"]
  have "key_string (path_key auth ''x'') \<noteq> key_string (path_key auth' ''x'')" by (auto simp: f)
  with a b show ?thesis by blast
qed

end
