(* ===== verification/VfsFunctions.thy ===== *)
theory VfsFunctions
  imports OpenFile
begin

text \<open>
  \<open>src/gdrive_vfs_functions.cpp\<close>: the SQL functions \<open>remove_file\<close>, \<open>move_file\<close>, \<open>write_blob\<close> and \<open>file_size\<close>
  over DuckDB's virtual filesystem. The filesystem is a parameter, a record of the operations the functions
  call; \<open>gdrive_vfs\<close> instantiates it with the model of the \<open>gdrive://\<close> filesystem.
\<close>

section \<open>The virtual filesystem\<close>

text \<open>An operation on a filesystem with the state \<open>'s\<close>; \<open>None\<close> when it does not return.\<close>

type_synonym ('a, 's) vop = "'s \<Rightarrow> ('a outcome \<times> 's) option"

definition vret :: "'a \<Rightarrow> ('a, 's) vop" where "vret x s = Some (Inr x, s)"

definition vthrow :: "exn \<Rightarrow> ('a, 's) vop" where "vthrow e s = Some (Inl e, s)"

definition vbind :: "('a, 's) vop \<Rightarrow> ('a \<Rightarrow> ('b, 's) vop) \<Rightarrow> ('b, 's) vop" where
  "vbind m f s =
     (case m s of
        None \<Rightarrow> None
      | Some (Inl e, s) \<Rightarrow> Some (Inl e, s)
      | Some (Inr x, s) \<Rightarrow> f x s)"

text \<open>
  \<open>open_read\<close> opens with \<open>NULL_IF_NOT_EXISTS\<close>, \<open>open_write\<close> with \<open>FILE_CREATE_NEW\<close>. An operation on a handle
  also returns the handle; \<open>drop_handle\<close> is its destructor.
\<close>

record ('h, 's) vfs =
  vfs_file_exists :: "string \<Rightarrow> (bool, 's) vop"
  vfs_directory_exists :: "string \<Rightarrow> (bool, 's) vop"
  vfs_open_read :: "string \<Rightarrow> ('h option, 's) vop"
  vfs_open_write :: "string \<Rightarrow> ('h option, 's) vop"
  vfs_remove_file :: "string \<Rightarrow> (unit, 's) vop"
  vfs_move_file :: "string \<Rightarrow> string \<Rightarrow> (unit, 's) vop"
  vfs_create_directory :: "string \<Rightarrow> (unit, 's) vop"
  handle_size :: "'h \<Rightarrow> int"
  handle_write :: "string \<Rightarrow> 'h \<Rightarrow> 's \<Rightarrow> (unit outcome \<times> 'h \<times> 's) option"
  handle_sync :: "'h \<Rightarrow> 's \<Rightarrow> (unit outcome \<times> 'h \<times> 's) option"
  handle_close :: "'h \<Rightarrow> 's \<Rightarrow> (unit outcome \<times> 'h \<times> 's) option"
  drop_handle :: "'h \<Rightarrow> 's \<Rightarrow> 's"

section \<open>The functions\<close>

definition dropping :: "('h, 's) vfs \<Rightarrow> 'h \<Rightarrow> ('a, 's) vop \<Rightarrow> ('a, 's) vop" where
  "dropping V h m s = map_option (\<lambda>(r, s). (r, drop_handle V h s)) (m s)"

definition confirmed_absent :: "('h, 's) vfs \<Rightarrow> string \<Rightarrow> (bool, 's) vop" where
  "confirmed_absent V path =
     vbind (vfs_open_read V path) (\<lambda>probe.
       case probe of None \<Rightarrow> vret True | Some h \<Rightarrow> dropping V h (vret False))"

definition remove_one :: "('h, 's) vfs \<Rightarrow> string \<Rightarrow> (bool, 's) vop" where
  "remove_one V path =
     vbind (vfs_file_exists V path) (\<lambda>is_file.
     if is_file then vbind (vfs_remove_file V path) (\<lambda>_. vret True)
     else
       vbind (vfs_directory_exists V path) (\<lambda>is_dir.
       if is_dir then
         vthrow (IOException (squote # path @ squote #
           '' is a directory, not a file; remove_file does not remove directories''))
       else
         vbind (confirmed_absent V path) (\<lambda>gone.
         if gone then vret False
         else vthrow (IOException (squote # path @ squote # '' exists but is not a removable file'')))))"

definition move_one :: "('h, 's) vfs \<Rightarrow> string \<Rightarrow> string \<Rightarrow> (bool, 's) vop" where
  "move_one V src dst = vbind (vfs_move_file V src dst) (\<lambda>_. vret True)"

text \<open>Where the root of a path ends: behind the scheme, or behind the slash of an absolute local path.\<close>

definition root_end :: "string \<Rightarrow> nat" where
  "root_end target =
     (case find_sub ''://'' target of
        Some i \<Rightarrow> i + 3
      | None \<Rightarrow> if target \<noteq> [] \<and> hd target = slash then 1 else 0)"

definition before_last_slash :: "string \<Rightarrow> string option" where
  "before_last_slash p = (case dropWhile (\<lambda>c. c \<noteq> slash) (rev p) of [] \<Rightarrow> None | _ # d \<Rightarrow> Some (rev d))"

lemma before_last_slash_Some: "before_last_slash p = Some d \<Longrightarrow> \<exists>r. p = d @ slash # r \<and> slash \<notin> set r"
proof -
  assume "before_last_slash p = Some d"
  then obtain c where d: "dropWhile (\<lambda>c. c \<noteq> slash) (rev p) = c # rev d"
    by (auto simp: before_last_slash_def split: list.splits)
  then have "c = slash" using hd_dropWhile [of "\<lambda>c. c \<noteq> slash" "rev p"] by auto
  moreover have "rev p = takeWhile (\<lambda>c. c \<noteq> slash) (rev p) @ c # rev d" using d by (metis takeWhile_dropWhile_id)
  then have "p = d @ c # rev (takeWhile (\<lambda>c. c \<noteq> slash) (rev p))"
    by (metis append.assoc append_Cons append_Nil rev_append rev_rev_ident rev.simps(2))
  ultimately show ?thesis using set_takeWhileD by fastforce
qed

text \<open>The missing folders above a path, the deepest first, up to the nearest one that exists.\<close>

definition name_taken :: "string \<Rightarrow> exn" where
  "name_taken dir = IOException
     (''cannot create directory '' @ squote # dir @ squote # '': a file of that name already exists.'')"

function missing_above :: "('h, 's) vfs \<Rightarrow> nat \<Rightarrow> string \<Rightarrow> (string list, 's) vop" where
  "missing_above V root p =
     (case before_last_slash p of
        None \<Rightarrow> vret []
      | Some dir \<Rightarrow>
          if root < length dir then
            vbind (vfs_directory_exists V dir) (\<lambda>there.
            if there then vret []
            else
              vbind (vfs_file_exists V dir) (\<lambda>taken.
              if taken then vthrow (name_taken dir)
              else vbind (missing_above V root dir) (\<lambda>above. vret (dir # above))))
          else vret [])"
  by pat_completeness auto
termination
  by (relation "measure (\<lambda>(V, root, p). length p)") (auto dest!: before_last_slash_Some)

primrec create_all :: "('h, 's) vfs \<Rightarrow> string list \<Rightarrow> (unit, 's) vop" where
  "create_all V [] = vret ()"
| "create_all V (dir # dirs) = vbind (vfs_create_directory V dir) (\<lambda>_. create_all V dirs)"

definition ensure_parent_directories :: "('h, 's) vfs \<Rightarrow> string \<Rightarrow> (unit, 's) vop" where
  "ensure_parent_directories V target =
     vbind (missing_above V (root_end target) target) (\<lambda>missing. create_all V (rev missing))"

text \<open>The handle of \<open>write_blob\<close>, destroyed however the write ends.\<close>

type_synonym ('h, 's) hop = "'h \<Rightarrow> 's \<Rightarrow> (unit outcome \<times> 'h \<times> 's) option"

definition then_on :: "('h, 's) hop \<Rightarrow> ('h, 's) hop \<Rightarrow> ('h, 's) hop" where
  "then_on first second h s =
     (case first h s of None \<Rightarrow> None | Some (Inl e, h, s) \<Rightarrow> Some (Inl e, h, s) | Some (Inr _, h, s) \<Rightarrow> second h s)"

definition write_handle_once :: "('h, 's) vfs \<Rightarrow> string \<Rightarrow> 'h \<Rightarrow> (unit, 's) vop" where
  "write_handle_once V content h s =
     map_option (\<lambda>(r, h, s). (r, drop_handle V h s))
       (then_on (if content = [] then (\<lambda>h s. Some (Inr (), h, s)) else handle_write V content)
         (then_on (handle_sync V) (handle_close V)) h s)"

definition write_blob :: "('h, 's) vfs \<Rightarrow> string \<Rightarrow> string \<Rightarrow> (int, 's) vop" where
  "write_blob V target content =
     vbind (ensure_parent_directories V target) (\<lambda>_.
     vbind (vfs_open_write V target) (\<lambda>opened.
       case opened of
         None \<Rightarrow> vthrow (IOException (''write_blob: could not open '' @ squote # target @ squote # '' for writing''))
       | Some h \<Rightarrow> vbind (write_handle_once V content h) (\<lambda>_. vret (int (length content)))))"

definition no_byte_size :: "string \<Rightarrow> exn" where
  "no_byte_size p = IOException (squote # p @ squote # '' is a directory, not a file; it has no byte size'')"

text \<open>The size of a file, \<open>None\<close> for \<open>NULL\<close>.\<close>

definition file_size :: "('h, 's) vfs \<Rightarrow> string \<Rightarrow> (int option, 's) vop" where
  "file_size V p =
     vbind (if find_sub ''://'' p = None then vfs_directory_exists V p else vret False) (\<lambda>is_local_dir.
     if is_local_dir then vthrow (no_byte_size p)
     else
       vbind (vfs_open_read V p) (\<lambda>opened.
       case opened of
         Some h \<Rightarrow> dropping V h (vret (Some (handle_size V h)))
       | None \<Rightarrow>
           vbind (vfs_directory_exists V p) (\<lambda>is_dir.
           if is_dir then vthrow (no_byte_size p) else vret None)))"

section \<open>The gdrive filesystem behind them\<close>

definition file_sync :: "file_handle \<Rightarrow> 's \<Rightarrow> (unit outcome \<times> file_handle \<times> 's) option" where
  "file_sync h s = Some (Inr (), h, s)"

definition gdrive_vfs :: "'w fs_env \<Rightarrow> (file_handle, 'w fs_state) vfs" where
  "gdrive_vfs fe =
     \<lparr>vfs_file_exists = file_exists fe, vfs_directory_exists = directory_exists fe,
      vfs_open_read = (\<lambda>p. open_file fe p False True), vfs_open_write = (\<lambda>p. open_file fe p True False),
      vfs_remove_file = remove_file fe, vfs_move_file = move_file fe, vfs_create_directory = create_directory fe,
      handle_size = get_file_size,
      handle_write = (\<lambda>data h s. map_option (\<lambda>(r, h, s). (map_sum id (\<lambda>_. ()) r, h, s)) (fs_write fe data h s)),
      handle_sync = file_sync, handle_close = fs_close fe, drop_handle = destroy_handle fe\<rparr>"

section \<open>Only what is missing is created\<close>

text \<open>
  The folders above a path, below its root; the states that existence checks lead to from a state; and what
  the filesystem answers in one of them.
\<close>

definition is_above :: "string \<Rightarrow> string \<Rightarrow> bool" where
  "is_above dir target \<longleftrightarrow> root_end target < length dir \<and> (\<exists>rest. target = dir @ slash # rest)"

inductive asked :: "('h, 's) vfs \<Rightarrow> 's \<Rightarrow> 's \<Rightarrow> bool" for V where
  asked_nothing: "asked V s s"
| asked_directory: "asked V s t \<Longrightarrow> vfs_directory_exists V p t = Some (Inr b, u) \<Longrightarrow> asked V s u"
| asked_file: "asked V s t \<Longrightarrow> vfs_file_exists V p t = Some (Inr b, u) \<Longrightarrow> asked V s u"

definition answers_directory :: "('h, 's) vfs \<Rightarrow> 's \<Rightarrow> string \<Rightarrow> bool \<Rightarrow> bool" where
  "answers_directory V s p x \<longleftrightarrow> (\<exists>t u. asked V s t \<and> vfs_directory_exists V p t = Some (Inr x, u))"

definition answers_file :: "('h, 's) vfs \<Rightarrow> 's \<Rightarrow> string \<Rightarrow> bool \<Rightarrow> bool" where
  "answers_file V s p x \<longleftrightarrow> (\<exists>t u. asked V s t \<and> vfs_file_exists V p t = Some (Inr x, u))"

lemma asked_trans: "asked V t u \<Longrightarrow> asked V s t \<Longrightarrow> asked V s u"
  by (induction rule: asked.induct) (auto intro: asked.intros)

lemma answers_later:
  assumes "asked V s t"
  shows "answers_directory V t p x \<Longrightarrow> answers_directory V s p x" "answers_file V t p x \<Longrightarrow> answers_file V s p x"
  using assms by (auto simp: answers_directory_def answers_file_def intro: asked_trans)

lemma vbind_Inr: "vbind m f s = Some (Inr y, u) \<longleftrightarrow> (\<exists>x t. m s = Some (Inr x, t) \<and> f x t = Some (Inr y, u))"
  by (auto simp: vbind_def split: option.splits prod.splits sum.splits)

lemma vret_Inr [simp]: "vret x s = Some (Inr y, t) \<longleftrightarrow> y = x \<and> t = s"
  by (auto simp: vret_def)

lemma vthrow_Inr [simp]: "vthrow e s \<noteq> Some (Inr y, t)"
  by (simp add: vthrow_def)

lemma before_last_slash_longest:
  assumes "before_last_slash p = Some dir" "p = d @ slash # rest" shows "d = dir \<or> (\<exists>r. dir = d @ slash # r)"
proof -
  obtain r where r: "p = dir @ slash # r" "slash \<notin> set r" using before_last_slash_Some [OF assms(1)] by blast
  then have e: "d @ slash # rest = dir @ slash # r" using assms(2) by simp
  show ?thesis
  proof (cases "length d < length dir")
    case True
    then have "slash = dir ! length d" "d = take (length d) dir"
      using arg_cong [OF e, of "\<lambda>l. l ! length d"] arg_cong [OF e, of "take (length d)"] by (simp_all add: nth_append)
    then have "dir = d @ slash # drop (Suc (length d)) dir" using True id_take_nth_drop by metis
    then show ?thesis by blast
  next
    case False
    have "length d \<le> length dir"
    proof (rule ccontr)
      assume "\<not> length d \<le> length dir"
      then have l: "length dir < length d" by simp
      then have "d = dir @ slash # take (length d - Suc (length dir)) r"
        using arg_cong [OF e, of "take (length d)"] by (simp add: take_Cons')
      then have "slash # rest = drop (length d - Suc (length dir)) r"
        using arg_cong [OF e, of "drop (length d)"] l by (simp add: drop_Cons')
      then have "slash \<in> set r" using in_set_dropD by (metis list.set_intros(1))
      with r(2) show False by simp
    qed
    with False have "d = dir" using e by (simp add: append_eq_append_conv)
    then show ?thesis by simp
  qed
qed

lemma before_last_slash_None: "before_last_slash p = None \<Longrightarrow> slash \<notin> set p"
  by (auto simp: before_last_slash_def dropWhile_eq_Nil_conv split: list.splits)

text \<open>What the walk up finds: a run of folders that are not there, and above it the root or a folder that is.\<close>

definition found_run :: "('h, 's) vfs \<Rightarrow> nat \<Rightarrow> string \<Rightarrow> 's \<Rightarrow> string list \<Rightarrow> 's \<Rightarrow> bool" where
  "found_run V root p s missing t \<longleftrightarrow>
     asked V s t \<and> sorted_wrt (\<lambda>d e. \<exists>r. d = e @ slash # r) missing \<and>
     (\<forall>d\<in>set missing. (\<exists>r. p = d @ slash # r) \<and> root < length d \<and>
        answers_directory V s d False \<and> answers_file V s d False) \<and>
     (\<forall>d r. p = d @ slash # r \<and> root < length d \<longrightarrow> d \<in> set missing \<or>
        (\<exists>e. length d \<le> length e \<and> (\<exists>r. p = e @ slash # r) \<and> answers_directory V s e True))"

lemma found_run_root:
  "(\<And>d r. p = d @ slash # r \<Longrightarrow> length d \<le> root) \<Longrightarrow> found_run V root p s [] s"
  by (auto simp: found_run_def intro: asked_nothing dest: leD)

lemma found_run_folder:
  assumes "before_last_slash p = Some dir" "vfs_directory_exists V dir s = Some (Inr True, t)"
  shows "found_run V root p s [] t"
proof -
  obtain r0 where "p = dir @ slash # r0" using before_last_slash_Some [OF assms(1)] by blast
  moreover have "length d \<le> length dir" if "p = d @ slash # r" for d r
    using before_last_slash_longest [OF assms(1) that] by auto
  moreover have "answers_directory V s dir True" "asked V s t"
    using assms(2) by (auto simp: answers_directory_def intro: asked.intros)
  ultimately have "asked V s t \<and> (\<forall>d r. p = d @ slash # r \<and> root < length d \<longrightarrow>
      (\<exists>e. length d \<le> length e \<and> (\<exists>r. p = e @ slash # r) \<and> answers_directory V s e True))" by blast
  then show ?thesis by (simp add: found_run_def)
qed

lemma found_run_missing:
  assumes "before_last_slash p = Some dir" "root < length dir"
    and "vfs_directory_exists V dir s = Some (Inr False, s1)" "vfs_file_exists V dir s1 = Some (Inr False, s2)"
    and above: "found_run V root dir s2 ups t"
  shows "found_run V root p s (dir # ups) t"
proof -
  obtain r0 where r0: "p = dir @ slash # r0" using before_last_slash_Some [OF assms(1)] by blast
  have s1: "asked V s s1" by (rule asked_directory [OF asked_nothing assms(3)])
  have s2: "asked V s s2" by (rule asked_file [OF s1 assms(4)])
  note later = answers_later [OF s2]
  have dir: "answers_directory V s dir False" "answers_file V s dir False"
    using assms(3,4) s1 asked_nothing [of V s] unfolding answers_directory_def answers_file_def by auto
  have up: "\<exists>r. p = d @ slash # r" if "dir = d @ slash # r" for d r using that r0 by auto
  have "d \<in> set (dir # ups) \<or> (\<exists>e. length d \<le> length e \<and> (\<exists>r. p = e @ slash # r) \<and> answers_directory V s e True)"
    if d: "p = d @ slash # r" "root < length d" for d r
  proof (cases "d = dir")
    case False
    then obtain r' where "dir = d @ slash # r'" using before_last_slash_longest [OF assms(1) d(1)] by blast
    with above d(2) consider "d \<in> set ups"
      | e r where "length d \<le> length e" "dir = e @ slash # r" "answers_directory V s2 e True"
      unfolding found_run_def by blast
    then show ?thesis using up later(1) by cases auto
  qed simp
  moreover have "asked V s t" using asked_trans [OF _ s2] above unfolding found_run_def by blast
  moreover have "sorted_wrt (\<lambda>d e. \<exists>r. d = e @ slash # r) (dir # ups)"
    using above unfolding found_run_def sorted_wrt.simps by blast
  moreover have "(\<exists>r. p = d @ slash # r) \<and> root < length d \<and> answers_directory V s d False \<and> answers_file V s d False"
    if "d \<in> set (dir # ups)" for d
    using that above r0 assms(2) dir up later unfolding found_run_def by auto
  ultimately show ?thesis unfolding found_run_def by blast
qed

lemma missing_above_found:
  "missing_above V root p s = Some (Inr missing, t) \<Longrightarrow> found_run V root p s missing t"
proof (induction V root p arbitrary: s missing t rule: missing_above.induct)
  case (1 V root p)
  show ?case
  proof (cases "before_last_slash p")
    case None
    with 1(2) before_last_slash_None [OF None] show ?thesis by (auto intro!: found_run_root)
  next
    case (Some dir)
    show ?thesis
    proof (cases "root < length dir")
      case False
      have "length d \<le> root" if "p = d @ slash # r" for d r
        using before_last_slash_longest [OF Some that] False by auto
      with 1(2) Some False show ?thesis by (auto intro!: found_run_root)
    next
      case True
      obtain there s1 where there: "vfs_directory_exists V dir s = Some (Inr there, s1)"
        using 1(2) Some True by (auto simp: vbind_Inr)
      show ?thesis
      proof (cases there)
        case True
        with 1(2) Some \<open>root < length dir\<close> there show ?thesis
          by (auto simp: vbind_Inr intro: found_run_folder)
      next
        case False
        then obtain s2 above where
          f0: "vfs_file_exists V dir s1 = Some (Inr False, s2)" and rec: "missing_above V root dir s2 = Some (Inr above, t)"
          and m: "missing = dir # above"
          using 1(2) Some True there by (auto simp: vbind_Inr split: if_splits)
        from 1(1) [OF Some True _ _ rec, of False False] have "found_run V root dir s2 above t" by simp
        with found_run_missing [OF Some True _ f0] there False m show ?thesis by simp
      qed
    qed
  qed
qed

lemmas missing_above_run = missing_above_found [unfolded found_run_def]

lemma root_end_append: "root_end target < length dir \<Longrightarrow> target = dir @ slash # r \<Longrightarrow> is_above dir target"
  by (auto simp: is_above_def)

text \<open>
  C19. Writing a file makes exactly the folders that are missing above it: each of them is on the way to the
  target and was found to be neither a folder nor a file, they are made from the outermost inwards, so that each
  stands in the one made before it, and every other folder on the way is one that is there or lies
  above one that is; nothing above an existing folder is touched.
\<close>

theorem only_missing_parents_created:
  assumes "ensure_parent_directories V target s = Some (Inr (), s')"
  shows "\<exists>made t. asked V s t \<and> create_all V made t = Some (Inr (), s') \<and>
    sorted_wrt (\<lambda>outer inner. \<exists>r. inner = outer @ slash # r) made \<and>
    (\<forall>d\<in>set made. is_above d target \<and> answers_directory V s d False \<and> answers_file V s d False) \<and>
    (\<forall>d. is_above d target \<longrightarrow> d \<in> set made \<or>
       (\<exists>e. is_above e target \<and> length d \<le> length e \<and> answers_directory V s e True))"
proof -
  obtain missing t where m: "missing_above V (root_end target) target s = Some (Inr missing, t)"
    and c: "create_all V (rev missing) t = Some (Inr (), s')"
    using assms by (auto simp: ensure_parent_directories_def vbind_Inr)
  note run = missing_above_run [OF m]
  have "sorted_wrt (\<lambda>outer inner. \<exists>r. inner = outer @ slash # r) (rev missing)"
    using run by (simp add: sorted_wrt_rev)
  moreover have "\<forall>d\<in>set missing. is_above d target \<and> answers_directory V s d False \<and> answers_file V s d False"
    using run by (simp add: is_above_def)
  moreover have "d \<in> set missing \<or> (\<exists>e. is_above e target \<and> length d \<le> length e \<and> answers_directory V s e True)"
    if above: "is_above d target" for d
  proof -
    obtain r where r: "target = d @ slash # r" "root_end target < length d" using above unfolding is_above_def by blast
    then consider "d \<in> set missing"
      | e r' where "length d \<le> length e" "target = e @ slash # r'" "answers_directory V s e True"
      using run by blast
    then show ?thesis using r(2) root_end_append by cases (auto intro: less_le_trans)
  qed
  ultimately show ?thesis using c run by (intro exI [of _ "rev missing"] exI [of _ t]) simp
qed

text \<open>An object store that knows the folder \<open>a\<close> and makes what it is asked for.\<close>

definition example_vfs :: "(unit, string list) vfs" where
  "example_vfs =
     \<lparr>vfs_file_exists = (\<lambda>p. vret False), vfs_directory_exists = (\<lambda>p s. Some (Inr (p \<in> set s), s)),
      vfs_open_read = (\<lambda>p. vret None), vfs_open_write = (\<lambda>p. vret (Some ())), vfs_remove_file = (\<lambda>p. vret ()),
      vfs_move_file = (\<lambda>p q. vret ()), vfs_create_directory = (\<lambda>p s. Some (Inr (), s @ [p])), handle_size = (\<lambda>h. 0),
      handle_write = (\<lambda>d h s. Some (Inr (), h, s)), handle_sync = (\<lambda>h s. Some (Inr (), h, s)),
      handle_close = (\<lambda>h s. Some (Inr (), h, s)), drop_handle = (\<lambda>h s. s)\<rparr>"

lemma example_vfs_keeps: "asked example_vfs s t \<Longrightarrow> t = s"
  by (induction rule: asked.induct) (auto simp: example_vfs_def)

theorem only_missing_parents_created_witness:
  "ensure_parent_directories example_vfs ''x://a/b/c/f'' [''x://a''] = Some (Inr (), [''x://a'', ''x://a/b'', ''x://a/b/c'']) \<and>
   (\<exists>made. create_all example_vfs made [''x://a''] = Some (Inr (), [''x://a'', ''x://a/b'', ''x://a/b/c'']) \<and>
      {''x://a/b'', ''x://a/b/c''} \<subseteq> set made \<and> ''x://a'' \<notin> set made)"
proof -
  let ?V = example_vfs and ?s = "[''x://a'']"
  have e: "ensure_parent_directories ?V ''x://a/b/c/f'' ?s = Some (Inr (), [''x://a'', ''x://a/b'', ''x://a/b/c''])"
    by (simp add: ensure_parent_directories_def missing_above.simps root_end_def before_last_slash_def example_vfs_def
        vbind_def vret_def)
  have d: "answers_directory ?V ?s p x \<longleftrightarrow> x = (p = ''x://a'')" for p x
  proof -
    have "vfs_directory_exists ?V p ?s = Some (Inr (p = ''x://a''), ?s)" by (simp add: example_vfs_def)
    then have "asked ?V ?s u \<Longrightarrow> vfs_directory_exists ?V p u = Some (Inr y, v) \<Longrightarrow> y = (p = ''x://a'')" for u v y
      using example_vfs_keeps [of ?s u] by auto
    with \<open>vfs_directory_exists ?V p ?s = _\<close> asked_nothing [of ?V ?s] show ?thesis unfolding answers_directory_def by blast
  qed
  from only_missing_parents_created [OF e, unfolded d] obtain made t where
    m: "asked ?V ?s t" "create_all ?V made t = Some (Inr (), [''x://a'', ''x://a/b'', ''x://a/b/c''])"
    "\<forall>p. is_above p ''x://a/b/c/f'' \<longrightarrow> p \<in> set made \<or> (\<exists>q. is_above q ''x://a/b/c/f'' \<and> length p \<le> length q \<and> True = (q = ''x://a''))"
    "\<forall>p\<in>set made. False = (p = ''x://a'')" by blast
  have "is_above ''x://a/b'' ''x://a/b/c/f''" "is_above ''x://a/b/c'' ''x://a/b/c/f''" by (simp_all add: is_above_def root_end_def)
  with m(3) have "''x://a/b'' \<in> set made" "''x://a/b/c'' \<in> set made" by auto
  with e m example_vfs_keeps [OF m(1)] show ?thesis by auto
qed

section \<open>Absence is never a guess\<close>

text \<open>Drive was asked for the path, with the client of the secret that covers it, and had nothing there.\<close>

definition asked_drive_in_vain :: "'w fs_env \<Rightarrow> string \<Rightarrow> bool" where
  "asked_drive_in_vain fe path \<longleftrightarrow>
     (\<exists>uri auth s t u v. parse_gdrive_uri path = Inr uri \<and> get_auth_context fe path s = Some (Inr auth, t) \<and>
        try_resolve_path fe (create_client fe auth) auth uri u = Some (Inr None, v))"

lemma fs_bind_Inr: "fs_bind m f s = Some (Inr y, u) \<longleftrightarrow> (\<exists>x t. m s = Some (Inr x, t) \<and> f x t = Some (Inr y, u))"
  by (auto simp: fs_bind_def split: option.splits prod.splits sum.splits)

lemma current_metadata_None:
  assumes "current_metadata fe client auth path uri m fresh s = Some (Inr None, s')"
  shows "\<exists>u. try_resolve_path fe client auth uri u = Some (Inr None, s')"
  using assms by (auto simp: current_metadata_def fs_bind_Inr fs_ret_def split: if_splits option.splits)

lemma open_file_None:
  assumes "open_file fe path False null_ok s = Some (Inr None, s')"
  shows "has_opener fe \<and> has_secret fe \<and> asked_drive_in_vain fe path"
proof -
  obtain uri auth t u where o: "has_opener fe" "has_secret fe" "parse_gdrive_uri path = Inr uri"
    "get_auth_context fe path t = Some (Inr auth, u)"
    "open_for_reading fe (create_client fe auth) auth null_ok path uri u = Some (Inr None, s')"
    using assms by (auto simp: open_file_def fs_bind_Inr require_opener_def fs_guard_def fs_ret_def fs_throw_def parsed_uri_def Let_def
        split: if_splits sum.splits)
  have "\<exists>v w. try_resolve_path fe (create_client fe auth) auth uri v = Some (Inr None, w)"
  proof -
    let ?client = "create_client fe auth"
    obtain v r w where v: "try_resolve_path fe ?client auth uri v = Some (Inr r, w)"
      and k: "(case r of None \<Rightarrow> absent null_ok uri
        | Some (m, fr) \<Rightarrow>
           fs_bind (fs_guard (\<not> is_folder m)
             (IOException (''gdrive: '' @ squote # to_string uri @ squote # '' is a directory, not a file''))) (\<lambda>_.
           fs_bind (current_metadata fe ?client auth path uri m fr) (\<lambda>current.
             case current of
               None \<Rightarrow> absent null_ok uri
             | Some m \<Rightarrow> fs_bind (read_handle fe ?client auth path m) (\<lambda>h. fs_ret (Some h))))) w = Some (Inr None, s')"
      using o(5) unfolding open_for_reading_def fs_bind_Inr by blast
    show ?thesis
    proof (cases r)
      case None
      with v show ?thesis by blast
    next
      case (Some x)
      obtain m fr where x: "x = (m, fr)" by fastforce
      from k [unfolded Some x option.case prod.case fs_bind_Inr] obtain current y z where
        c: "current_metadata fe ?client auth path uri m fr y = Some (Inr current, z)"
          "(case current of None \<Rightarrow> absent null_ok uri
            | Some m \<Rightarrow> fs_bind (read_handle fe ?client auth path m) (\<lambda>h. fs_ret (Some h))) z = Some (Inr None, s')"
        by blast
      have "current = None"
      proof (cases current)
        case (Some m')
        from c(2) [unfolded Some option.case fs_bind_Inr] show ?thesis by (auto simp: fs_ret_def)
      qed
      with c(1) current_metadata_None show ?thesis by blast
    qed
  qed
  with o show ?thesis unfolding asked_drive_in_vain_def by blast
qed


text \<open>A Drive with the one file \<open>a.csv\<close>, asked for \<open>b.csv\<close>.\<close>

lemma nothing_there:
  assumes "cache_sound one_file_tree my_auth (paths s)"
  obtains t where "get_auth_context (plain_fs_env one_file_env) p s = Some (Inr my_auth, s)"
    "try_resolve_path (plain_fs_env one_file_env) (create_client (plain_fs_env one_file_env) my_auth) my_auth (path_uri [''b.csv'']) s =
      Some (Inr None, t)" "cache_sound one_file_tree my_auth (paths t)"
proof -
  have client: "create_client (plain_fs_env one_file_env) my_auth = one_file_env"
    by (simp add: create_client_def plain_fs_env_def my_auth_def one_file_env_def table_env_def lost_env_def)
  have "unambiguous one_file_tree" by (simp add: unambiguous_def one_file_tree_def sample_meta_def)
  moreover have "wf_uri (path_uri [''b.csv''])" "kind (path_uri [''b.csv'']) = PATH" "segments (path_uri [''b.csv'']) = [''b.csv'']"
    by (simp_all add: path_uri_def wf_uri_def wf_segment_def)
  ultimately obtain r t where r: "try_resolve_path (plain_fs_env one_file_env) one_file_env my_auth (path_uri [''b.csv'']) s =
      Some (Inr r, t)" "cache_sound one_file_tree my_auth (paths t)"
    "\<And>m. (\<exists>f. r = Some (m, f)) \<longleftrightarrow> names one_file_tree (root_folder_for my_auth) [''b.csv''] m"
    using try_resolve_correct [OF one_file_serves _ wf_my_auth assms, of "path_uri [''b.csv'']" "plain_fs_env one_file_env"]
    by simp blast
  have "\<not> names one_file_tree (root_folder_for my_auth) [''b.csv''] m" for m
  proof
    assume "names one_file_tree (root_folder_for my_auth) [''b.csv''] m"
    then show False by cases (auto simp: one_file_tree_def sample_meta_def split: if_splits elim: names.cases)
  qed
  with r(3) have "r = None" by (cases r) auto
  moreover have "get_auth_context (plain_fs_env one_file_env) p s = Some (Inr my_auth, s)"
    by (simp add: get_auth_context_def fs_io_def plain_fs_env_def my_auth_def)
  ultimately show thesis using r client that by simp
qed


end
