(* ===== verification/Stats.thy ===== *)
theory Stats
  imports Client
begin

text \<open>
  The reporting surface of \<open>src/gdrive_stats.cpp\<close>: the rows of \<open>gdrive_stats()\<close>, the scan that hands them to
  DuckDB chunk by chunk, the counters that other components report to (\<open>gdrive_client.cpp\<close>) and the reset.
\<close>

section \<open>The process-wide counters\<close>

record global_stats =
  stats_box :: drive_call_stats
  path_cache_gauge :: nat

definition increment_global_cache_hit :: "global_stats \<Rightarrow> global_stats" where
  "increment_global_cache_hit g = g\<lparr>stats_box := (stats_box g)\<lparr>cache_hits := Suc (cache_hits (stats_box g))\<rparr>\<rparr>"

definition increment_global_cache_miss :: "global_stats \<Rightarrow> global_stats" where
  "increment_global_cache_miss g = g\<lparr>stats_box := (stats_box g)\<lparr>cache_misses := Suc (cache_misses (stats_box g))\<rparr>\<rparr>"

definition increment_global_token_request :: "global_stats \<Rightarrow> global_stats" where
  "increment_global_token_request g = g\<lparr>stats_box := (stats_box g)\<lparr>token_request := Suc (token_request (stats_box g))\<rparr>\<rparr>"

definition record_global_upload_buffer_peak :: "nat \<Rightarrow> global_stats \<Rightarrow> global_stats" where
  "record_global_upload_buffer_peak n g = g\<lparr>stats_box := record_upload_buffer_peak n (stats_box g)\<rparr>"

definition set_global_path_cache_entries :: "nat \<Rightarrow> global_stats \<Rightarrow> global_stats" where
  "set_global_path_cache_entries n g = g\<lparr>path_cache_gauge := n\<rparr>"

definition reset_global_drive_call_stats :: "global_stats \<Rightarrow> global_stats" where
  "reset_global_drive_call_stats g = g\<lparr>stats_box := no_calls\<rparr>"

section \<open>The rows and the scan\<close>

type_synonym stat_row = "string \<times> nat"

definition stat_rows :: "global_stats \<Rightarrow> stat_row list" where
  "stat_rows g =
     (let s = stats_box g in
      [(''files_get'', files_get s), (''files_list'', files_list s), (''files_media'', files_media s),
       (''files_export'', files_export s), (''files_create'', files_create s), (''files_update'', files_update s),
       (''files_delete'', files_delete s), (''cache_hits'', cache_hits s), (''cache_misses'', cache_misses s),
       (''retries'', retries s), (''auth_refresh'', auth_refresh s), (''token_request'', token_request s),
       (''upload_chunks'', upload_chunks s), (''upload_status_queries'', upload_status_queries s),
       (''upload_aborts'', upload_aborts s), (''upload_buffer_peak_bytes'', upload_buffer_peak_bytes s),
       (''path_cache_entries'', path_cache_gauge g), (''total'', total_calls s)])"

text \<open>One call of the scan: the rows it puts into a vector of \<open>n\<close> places, and the cursor afterwards.\<close>

fun stats_scan_loop :: "nat \<Rightarrow> stat_row list \<Rightarrow> nat \<Rightarrow> stat_row list \<Rightarrow> stat_row list \<times> nat" where
  "stats_scan_loop 0 rows cursor out = (out, cursor)"
| "stats_scan_loop (Suc n) rows cursor out =
     (if cursor < length rows then stats_scan_loop n rows (Suc cursor) (out @ [rows ! cursor]) else (out, cursor))"

definition stats_scan :: "nat \<Rightarrow> stat_row list \<Rightarrow> nat \<Rightarrow> stat_row list \<times> nat" where
  "stats_scan vector_size rows cursor = stats_scan_loop vector_size rows cursor []"

text \<open>\<open>gdrive_reset_stats()\<close>: the first call resets and gives one row, the next one ends the scan.\<close>

definition reset_scan :: "bool \<Rightarrow> global_stats \<Rightarrow> bool list \<times> bool \<times> global_stats" where
  "reset_scan already g = (if already then ([], already, g) else ([True], True, reset_global_drive_call_stats g))"

lemma stats_scan_loop_result:
  "stats_scan_loop n rows c out = (out @ take n (drop c rows), min (c + n) (max c (length rows)))"
proof (induction n rows c out rule: stats_scan_loop.induct)
  case (2 n rows c out)
  show ?case
  proof (cases "c < length rows")
    case True
    with 2 show ?thesis by (simp add: Cons_nth_drop_Suc [symmetric])
  qed auto
qed simp

lemma stats_scan_result: "stats_scan n rows c = (take n (drop c rows), min (c + n) (max c (length rows)))"
  by (simp add: stats_scan_def stats_scan_loop_result)

text \<open>DuckDB calls the scan until it gives nothing.\<close>

function scan_all :: "nat \<Rightarrow> stat_row list \<Rightarrow> nat \<Rightarrow> stat_row list" where
  "scan_all n rows cursor =
     (case stats_scan n rows cursor of (out, next) \<Rightarrow> if out = [] \<or> next \<le> cursor then [] else out @ scan_all n rows next)"
  by pat_completeness auto
termination
  by (relation "measure (\<lambda>(n, rows, c). length rows - c)") (auto simp: stats_scan_result)

declare scan_all.simps [simp del]

lemma scan_all_drop: "0 < n \<Longrightarrow> scan_all n rows c = drop c rows"
proof (induction n rows c rule: scan_all.induct)
  case (1 n rows c)
  show ?case
  proof (cases "c < length rows")
    case True
    let ?next = "min (c + n) (max c (length rows))"
    have "take n (drop c rows) \<noteq> []" "\<not> ?next \<le> c" using True 1(2) by auto
    with 1 have "scan_all n rows c = take n (drop c rows) @ drop ?next rows"
      by (simp add: scan_all.simps [of n rows c] stats_scan_result)
    also have "drop ?next rows = drop n (drop c rows)" by (cases "c + n \<le> length rows") (simp_all add: add.commute min_def max_def)
    finally show ?thesis by (simp only: append_take_drop_id)
  qed (simp add: scan_all.simps [of n rows c] stats_scan_result)
qed

section \<open>The counters count requests\<close>

text \<open>What every step of the retry loop keeps, the loop keeps.\<close>

lemma try_refresh_invariant:
  assumes "\<And>w. I w \<Longrightarrow> I (count_auth_refresh w)" "\<And>w n. I w \<Longrightarrow> I (w\<lparr>net := n\<rparr>)"
  shows "try_refresh env err refreshed tok w = (r, w') \<Longrightarrow> I w \<Longrightarrow> I w'"
  using assms by (auto simp: try_refresh_def Let_def split: if_splits prod.splits sum.splits)

lemma execute_loop_invariant:
  assumes request: "\<And>w raw w1 t. do_http env (c_method c) (Some t) (c_path c) (c_headers c) (c_body c) (c_content_type c)
      (count_call (c_counter c) w) = (raw, w1) \<Longrightarrow> I w \<Longrightarrow> I w1"
    and keeps: "\<And>w. I w \<Longrightarrow> I (count_retry w)" "\<And>w a r. I w \<Longrightarrow> I (sleep_backoff a r w)"
      "\<And>w. I w \<Longrightarrow> I (count_auth_refresh w)" "\<And>w n. I w \<Longrightarrow> I (w\<lparr>net := n\<rparr>)"
  shows "execute_loop env c n tok refreshed w = (r, w') \<Longrightarrow> I w \<Longrightarrow> I w'"
proof -
  assume e: "execute_loop env c n tok refreshed w = (r, w')" and I: "I w"
  have "\<exists>b :: bool. I w'"
    by (rule execute_loop_keeps [where I = "\<lambda>_. I" and refreshed = refreshed and w = w, OF _ _ _ e])
      (auto intro: request keeps(1,2) try_refresh_invariant [OF keeps(3,4)] I)
  then show "I w'" by simp
qed

lemma total_record_call: "total_calls (record_call k s) = Suc (total_calls s)"
  by (cases k) (simp_all add: total_calls_def)

text \<open>
  C33. The statistics measure what they are for: the row \<open>total\<close> of \<open>gdrive_stats()\<close>, read before and after a
  Drive call, grows by exactly the number of HTTP requests that the call sent to Drive, retries and
  re-sent requests included, whatever the size of the vectors the rows are handed over in.
\<close>

theorem stats_count_requests:
  assumes "execute_with_retry env c w = (r, w')" and "0 < n"
    and "stats_box g = calls w" and "stats_box g' = calls w'"
  shows "\<exists>before after. scan_all n (stat_rows g) 0 = stat_rows g \<and> scan_all n (stat_rows g') 0 = stat_rows g' \<and>
    map_of (stat_rows g) ''total'' = Some before \<and> map_of (stat_rows g') ''total'' = Some after \<and>
    after = before + length (sent_since w w')"
proof -
  let ?I = "\<lambda>v. total_calls (calls v) + length (sent w) = total_calls (calls w) + length (sent v)"
  have counted: "?I w'"
  proof (cases "token_of env (net w)")
    case (Pair x m)
    show ?thesis
    proof (cases x)
      case (Inl e)
      with Pair assms(1) show ?thesis by (auto simp: execute_with_retry_def)
    next
      case (Inr tok)
      with Pair assms(1) have "execute_loop env c 0 tok False (w\<lparr>net := m\<rparr>) = (r, w')" by (simp add: execute_with_retry_def)
      note run = this
      have request: "?I v \<Longrightarrow> ?I v1" if "do_http env (c_method c) (Some t) (c_path c) (c_headers c) (c_body c) (c_content_type c)
          (count_call (c_counter c) v) = (raw, v1)" for v raw v1 t
      proof -
        from that have "calls v1 = record_call (c_counter c) (calls v)" "length (sent v1) = Suc (length (sent v))"
          using do_http_sent [OF that] by (auto simp: do_http_def Let_def count_call_def split: prod.splits)
        then show "?I v \<Longrightarrow> ?I v1" by (simp add: total_record_call)
      qed
      have keeps: "?I v \<Longrightarrow> ?I (count_retry v)" "?I v \<Longrightarrow> ?I (sleep_backoff a b v)" "?I v \<Longrightarrow> ?I (count_auth_refresh v)"
        "?I v \<Longrightarrow> ?I (v\<lparr>net := k\<rparr>)" for v a b k
        by (simp_all add: count_retry_def sleep_backoff_def count_auth_refresh_def total_calls_def)
      have start: "?I (w\<lparr>net := m\<rparr>)" by simp
      show ?thesis by (rule execute_loop_invariant [where I = ?I, OF request keeps run start])
    qed
  qed
  have "sent w' = sent w @ sent_since w w'"
    using execute_with_retry_sent [OF assms(1)] by (auto simp: sent_since_def)
  then have "length (sent w') = length (sent w) + length (sent_since w w')" by (metis length_append)
  with counted have "total_calls (calls w') = total_calls (calls w) + length (sent_since w w')" by simp
  moreover have "map_of (stat_rows h) ''total'' = Some (total_calls (stats_box h))" for h
    by (simp add: stat_rows_def Let_def)
  ultimately show ?thesis using scan_all_drop [OF assms(2)] assms(3,4) by simp
qed

theorem stats_count_requests_witness:
  "case execute_with_retry lost_env trash_call start_world of (_, w') \<Rightarrow>
    \<exists>before after. map_of (stat_rows \<lparr>stats_box = calls start_world, path_cache_gauge = 0\<rparr>) ''total'' = Some before \<and>
      map_of (stat_rows \<lparr>stats_box = calls w', path_cache_gauge = 0\<rparr>) ''total'' = Some after \<and>
      after = before + length (sent_since start_world w')"
proof -
  obtain r w' where e: "execute_with_retry lost_env trash_call start_world = (r, w')" by fastforce
  from stats_count_requests [OF e, of 2048 "\<lparr>stats_box = calls start_world, path_cache_gauge = 0\<rparr>"
      "\<lparr>stats_box = calls w', path_cache_gauge = 0\<rparr>"]
  show ?thesis by (auto simp: e)
qed

end
