(* ===== verification/Trace.thy ===== *)
theory Trace
  imports DriveCalls
begin

text \<open>
  The request trace: \<open>src/gdrive_trace.cpp\<close> and the spans that \<open>src/gdrive_client.cpp\<close> gives to it.

  The process-wide state is a \<open>trace_state\<close>: the flag read once, the dense thread numbers, the stream that
  the first record opens and the text written to it. The environment variables, \<open>fopen\<close> and the wall clock
  are arguments. Threads meet in \<open>trace_step\<close>: a thread takes its number without the lock and then
  writes its record under it, so any number of other records can lie between the two.
\<close>

section \<open>Spans\<close>

record span =
  sp_kind :: string
  start_us :: "64 word"
  end_us :: "64 word"
  sp_attempt :: int
  sp_status :: int
  sp_bytes :: nat
  fresh_conn :: bool
  range_off :: int
  range_len :: int

definition new_span :: span where
  "new_span = \<lparr>sp_kind = ''unknown'', start_us = 0, end_us = 0, sp_attempt = 1, sp_status = 0, sp_bytes = 0,
     fresh_conn = False, range_off = -1, range_len = -1\<rparr>"

text \<open>
  The spans of \<open>ExecuteWithRetry\<close>, \<open>SessionRequest\<close> and \<open>CancelUpload\<close>; \<open>fresh\<close> says whether the request
  opened the connection of its thread.
\<close>

definition execute_span :: "counter \<Rightarrow> nat \<Rightarrow> raw_result \<Rightarrow> bool \<Rightarrow> int \<Rightarrow> int \<Rightarrow> 64 word \<Rightarrow> 64 word \<Rightarrow> span" where
  "execute_span k attempt raw fresh off len t0 t1 = new_span
     \<lparr>sp_kind := trace_kind k, start_us := t0, end_us := t1, sp_attempt := int attempt,
      sp_status := (if transport_ok raw then status raw else 0), sp_bytes := length (body raw),
      fresh_conn := fresh, range_off := off, range_len := len\<rparr>"

definition session_span :: "counter \<Rightarrow> raw_result \<Rightarrow> bool \<Rightarrow> int \<Rightarrow> nat \<Rightarrow> 64 word \<Rightarrow> 64 word \<Rightarrow> span" where
  "session_span k raw fresh off len t0 t1 = new_span
     \<lparr>sp_kind := trace_kind k, start_us := t0, end_us := t1, sp_attempt := 1,
      sp_status := (if transport_ok raw then status raw else 0), sp_bytes := length (body raw),
      fresh_conn := fresh, range_off := (if len > 0 then off else -1), range_len := (if len > 0 then int len else -1)\<rparr>"

definition cancel_span :: "int \<Rightarrow> 64 word \<Rightarrow> 64 word \<Rightarrow> span" where
  "cancel_span st t0 t1 = new_span
     \<lparr>sp_kind := trace_kind UploadAborts, start_us := t0, end_us := t1, sp_status := st\<rparr>"

section \<open>The writer\<close>

datatype trace_output = Trace_File string | Stderr

record trace_state =
  trace_on :: "bool option"
  next_number :: nat
  thread_numbers :: "nat \<Rightarrow> nat option"
  trace_out :: "trace_output option"
  trace_text :: string
  flushed :: nat

definition trace_start :: trace_state where
  "trace_start = \<lparr>trace_on = None, next_number = 0, thread_numbers = (\<lambda>_. None), trace_out = None,
     trace_text = [], flushed = 0\<rparr>"

definition trace_requested :: "(string \<Rightarrow> string option) \<Rightarrow> bool" where
  "trace_requested env \<longleftrightarrow> env ''GDRIVE_TRACE_FILE'' \<noteq> None \<or>
     (case env ''GDRIVE_TRACE'' of None \<Rightarrow> False | Some v \<Rightarrow> v \<noteq> [] \<and> hd v \<noteq> CHR ''0'')"

definition trace_enabled :: "(string \<Rightarrow> string option) \<Rightarrow> trace_state \<Rightarrow> bool \<times> trace_state" where
  "trace_enabled env st = (case trace_on st of
     Some on \<Rightarrow> (on, st)
   | None \<Rightarrow> (trace_requested env, st\<lparr>trace_on := Some (trace_requested env)\<rparr>))"

definition thread_number :: "nat \<Rightarrow> trace_state \<Rightarrow> nat \<times> trace_state" where
  "thread_number t st = (case thread_numbers st t of
     Some i \<Rightarrow> (i, st)
   | None \<Rightarrow> (next_number st,
       st\<lparr>next_number := Suc (next_number st), thread_numbers := (thread_numbers st)(t \<mapsto> next_number st)\<rparr>))"

text \<open>What is written is in the stream; what reached the file is at least what was flushed.\<close>

definition put_out :: "string \<Rightarrow> trace_state \<Rightarrow> trace_state" where
  "put_out s st = (let text = trace_text st @ s in
     st\<lparr>trace_text := text, flushed := (if trace_out st = Some Stderr then length text else flushed st)\<rparr>)"

definition flush_out :: "trace_state \<Rightarrow> trace_state" where
  "flush_out st = st\<lparr>flushed := length (trace_text st)\<rparr>"

definition newline :: char where "newline = CHR 0x0A"

definition key_field :: "string \<Rightarrow> string" where
  "key_field k = dquote # k @ [dquote, CHR '':'']"

definition header_line :: "int \<Rightarrow> string" where
  "header_line wall = ''{'' @ key_field ''record'' @ dquote # ''header'' @ dquote # '','' @ key_field ''version'' @ ''1,'' @
     key_field ''epoch_unix_us'' @ decimal_int wall @ CHR ''}'' # [newline]"

definition record_line :: "span \<Rightarrow> nat \<Rightarrow> string" where
  "record_line s i =
     ''{'' @ key_field ''kind'' @ dquote # sp_kind s @ dquote # '','' @
     key_field ''t0_us'' @ decimal (unat (start_us s)) @ '','' @
     key_field ''t1_us'' @ decimal (unat (end_us s)) @ '','' @
     key_field ''dur_us'' @ decimal (unat (end_us s - start_us s)) @ '','' @
     key_field ''thread'' @ decimal_int (sint (word_of_nat i :: 32 word)) @ '','' @
     key_field ''attempt'' @ decimal_int (sp_attempt s) @ '','' @
     key_field ''status'' @ decimal_int (sp_status s) @ '','' @
     key_field ''bytes'' @ decimal (sp_bytes s) @ '','' @
     key_field ''fresh_conn'' @ (if fresh_conn s then ''true'' else ''false'') @ '','' @
     key_field ''range_off'' @ decimal_int (range_off s) @ '','' @
     key_field ''range_len'' @ decimal_int (range_len s) @ CHR ''}'' # [newline]"

definition open_output :: "(string \<Rightarrow> string option) \<Rightarrow> (string \<Rightarrow> bool) \<Rightarrow> trace_output" where
  "open_output env can_open = (case env ''GDRIVE_TRACE_FILE'' of
     None \<Rightarrow> Stderr
   | Some path \<Rightarrow> if path \<noteq> [] \<and> can_open path then Trace_File path else Stderr)"

text \<open>The part of \<open>Emit\<close> under the lock, and the whole of it for one thread.\<close>

definition emit_locked ::
    "(string \<Rightarrow> string option) \<Rightarrow> (string \<Rightarrow> bool) \<Rightarrow> int \<Rightarrow> span \<Rightarrow> nat \<Rightarrow> trace_state \<Rightarrow> trace_state" where
  "emit_locked env can_open wall s i st0 =
     (let st = (case trace_out st0 of
                  Some _ \<Rightarrow> st0
                | None \<Rightarrow> put_out (header_line wall) (st0\<lparr>trace_out := Some (open_output env can_open)\<rparr>));
          st = put_out (record_line s i) st in
      if take 7 (sp_kind s) = ''upload.'' then flush_out st else st)"

definition emit ::
    "(string \<Rightarrow> string option) \<Rightarrow> (string \<Rightarrow> bool) \<Rightarrow> int \<Rightarrow> span \<Rightarrow> nat \<Rightarrow> trace_state \<Rightarrow> trace_state" where
  "emit env can_open wall s t st =
     (case thread_number t st of (i, st) \<Rightarrow> emit_locked env can_open wall s i st)"

section \<open>Threads that trace\<close>

text \<open>
  \<open>trace_log\<close> is a ghost: the records written so far, with the thread that wrote each. Every span is one of the
  three the client makes, so its kind is one of the fixed literals.
\<close>

record trace_system =
  tracer :: trace_state
  unwritten :: "nat \<Rightarrow> (span \<times> nat) option"
  trace_log :: "(nat \<times> span \<times> nat) list"

definition known_kind :: "span \<Rightarrow> bool" where "known_kind s \<longleftrightarrow> (\<exists>k. sp_kind s = trace_kind k)"

inductive trace_step ::
    "(string \<Rightarrow> string option) \<Rightarrow> (string \<Rightarrow> bool) \<Rightarrow> trace_system \<Rightarrow> trace_system \<Rightarrow> bool" for env can_open where
  numbered: "unwritten sys t = None \<Longrightarrow> known_kind s \<Longrightarrow> thread_number t (tracer sys) = (i, st) \<Longrightarrow>
     trace_step env can_open sys (sys\<lparr>tracer := st, unwritten := (unwritten sys)(t \<mapsto> (s, i))\<rparr>)"
| written: "unwritten sys t = Some (s, i) \<Longrightarrow>
     trace_step env can_open sys (sys\<lparr>tracer := emit_locked env can_open wall s i (tracer sys),
       unwritten := (unwritten sys)(t := None), trace_log := trace_log sys @ [(t, s, i)]\<rparr>)"
| exiting: "trace_step env can_open sys (sys\<lparr>tracer := flush_out (tracer sys)\<rparr>)"

inductive_cases trace_stepE [consumes 1, case_names numbered written exiting]: "trace_step env can_open sys sys'"

definition trace_system_start :: trace_system where
  "trace_system_start = \<lparr>tracer = trace_start, unwritten = (\<lambda>_. None), trace_log = []\<rparr>"

inductive trace_reachable ::
    "(string \<Rightarrow> string option) \<Rightarrow> (string \<Rightarrow> bool) \<Rightarrow> trace_system \<Rightarrow> bool" for env can_open where
  start: "trace_reachable env can_open trace_system_start"
| step: "trace_reachable env can_open sys \<Longrightarrow> trace_step env can_open sys sys' \<Longrightarrow> trace_reachable env can_open sys'"

section \<open>Whole lines\<close>

definition lines_of :: "(nat \<times> span \<times> nat) list \<Rightarrow> string" where
  "lines_of log = concat (map (\<lambda>(t, s, i). record_line s i) log)"

lemma lines_of_simps [simp]: "lines_of [] = []" "lines_of ((t, s, i) # log) = record_line s i @ lines_of log"
  "lines_of (log @ log') = lines_of log @ lines_of log'"
  by (simp_all add: lines_of_def)

definition numbered_below :: "nat \<Rightarrow> (nat \<Rightarrow> nat option) \<Rightarrow> bool" where
  "numbered_below n f \<longleftrightarrow> (\<forall>t i. f t = Some i \<longrightarrow> i < n) \<and> (\<forall>t u i. f t = Some i \<longrightarrow> f u = Some i \<longrightarrow> t = u)"

abbreviation dense_numbers :: "trace_state \<Rightarrow> bool" where
  "dense_numbers st \<equiv> numbered_below (next_number st) (thread_numbers st)"

lemma numbered_belowD:
  "numbered_below n f \<Longrightarrow> f t = Some i \<Longrightarrow> i < n"
  "numbered_below n f \<Longrightarrow> f t = Some i \<Longrightarrow> f u = Some i \<Longrightarrow> t = u"
  unfolding numbered_below_def by blast+

lemma numbered_below_new:
  assumes "numbered_below n f"
  shows "numbered_below (Suc n) (f(t \<mapsto> n))"
proof -
  have "i < Suc n" if "(f(t \<mapsto> n)) u = Some i" for u i
    using that numbered_belowD(1) [OF assms, of u i] by (auto split: if_splits)
  moreover have "u = v" if "(f(t \<mapsto> n)) u = Some i" "(f(t \<mapsto> n)) v = Some i" for u v i
    using that numbered_belowD(1) [OF assms, of u i] numbered_belowD(1) [OF assms, of v i]
      numbered_belowD(2) [OF assms, of u i v] by (cases "u = t"; cases "v = t") simp_all
  ultimately show ?thesis unfolding numbered_below_def by blast
qed

definition numbers_inv :: "trace_system \<Rightarrow> bool" where
  "numbers_inv sys \<longleftrightarrow> dense_numbers (tracer sys) \<and>
     (\<forall>t s i. unwritten sys t = Some (s, i) \<longrightarrow> thread_numbers (tracer sys) t = Some i \<and> known_kind s) \<and>
     (\<forall>(t, s, i)\<in>set (trace_log sys). thread_numbers (tracer sys) t = Some i \<and> known_kind s)"

definition text_inv :: "trace_system \<Rightarrow> bool" where
  "text_inv sys \<longleftrightarrow> (trace_out (tracer sys) = None \<longleftrightarrow> trace_log sys = []) \<and>
     (if trace_log sys = [] then trace_text (tracer sys) = []
      else \<exists>wall. trace_text (tracer sys) = header_line wall @ lines_of (trace_log sys))"

lemma put_out_simps [simp]:
  "trace_text (put_out s st) = trace_text st @ s" "trace_out (put_out s st) = trace_out st"
  "thread_numbers (put_out s st) = thread_numbers st" "next_number (put_out s st) = next_number st"
  "trace_text (flush_out st) = trace_text st" "trace_out (flush_out st) = trace_out st"
  "thread_numbers (flush_out st) = thread_numbers st" "next_number (flush_out st) = next_number st"
  by (simp_all add: put_out_def flush_out_def Let_def)

lemma emit_locked_simps [simp]:
  "thread_numbers (emit_locked env can_open wall s i st) = thread_numbers st"
  "next_number (emit_locked env can_open wall s i st) = next_number st"
  "trace_out (emit_locked env can_open wall s i st) \<noteq> None"
  "trace_text (emit_locked env can_open wall s i st) =
     (if trace_out st = None then trace_text st @ header_line wall else trace_text st) @ record_line s i"
  by (auto simp: emit_locked_def Let_def split: option.splits)

lemma thread_number_cases:
  assumes "thread_number t st = (i, st')"
  obtains (old) "st' = st" "thread_numbers st t = Some i"
  | (new) "thread_numbers st t = None" "next_number st = i"
      "st' = st\<lparr>next_number := Suc i, thread_numbers := (thread_numbers st)(t \<mapsto> i)\<rparr>"
  using assms by (auto simp: thread_number_def split: option.splits)

lemma thread_number_dense:
  assumes "thread_number t st = (i, st')" "dense_numbers st"
  shows "dense_numbers st'"
  using assms(1) by (cases rule: thread_number_cases) (use assms(2) numbered_below_new in auto)

lemma thread_number_keeps:
  assumes "thread_number t st = (i, st')"
  shows "thread_numbers st' t = Some i" "thread_numbers st u = Some j \<Longrightarrow> thread_numbers st' u = Some j"
    "trace_out st' = trace_out st" "trace_text st' = trace_text st"
  using assms by (cases rule: thread_number_cases; auto)+

lemma numbers_step: "trace_step env can_open sys sys' \<Longrightarrow> numbers_inv sys \<Longrightarrow> numbers_inv sys'"
proof (induction rule: trace_step.induct)
  case (numbered sys t s i st)
  from numbered.prems have "dense_numbers st"
    using thread_number_dense [OF numbered(3)] by (simp add: numbers_inv_def)
  moreover note thread_number_keeps(1,2) [OF numbered(3)]
  ultimately show ?case using numbered.prems numbered.hyps(2) by (auto simp: numbers_inv_def)
qed (auto simp: numbers_inv_def)

lemma text_step: "trace_step env can_open sys sys' \<Longrightarrow> text_inv sys \<Longrightarrow> text_inv sys'"
proof (induction rule: trace_step.induct)
  case (numbered sys t s i st)
  then show ?case by (simp add: text_inv_def thread_number_keeps(3,4) [OF numbered(3)])
next
  case (written sys t s i wall)
  then show ?case by (cases "trace_log sys = []") (auto simp: text_inv_def)
next
  case (exiting sys)
  then show ?case by (simp add: text_inv_def)
qed

lemma trace_invs: "trace_reachable env can_open sys \<Longrightarrow> numbers_inv sys \<and> text_inv sys"
proof (induction rule: trace_reachable.induct)
  case start
  then show ?case by (simp add: numbers_inv_def text_inv_def numbered_below_def trace_system_start_def trace_start_def)
next
  case (step sys sys')
  then show ?case using numbers_step text_step by blast
qed

section \<open>Reading a trace back\<close>

lemma decimal_delimited:
  "\<not> number_char c \<Longrightarrow> \<not> number_char d \<Longrightarrow> decimal m @ c # r = decimal n @ d # t \<longleftrightarrow> m = n \<and> c = d \<and> r = t"
  using decimal_int_delimited [of c d "int m" r "int n" t] by (simp add: decimal_int_def)

lemma kind_chars: "known_kind s \<Longrightarrow> list_all (\<lambda>c. c \<noteq> dquote) (sp_kind s)"
proof -
  have "list_all (\<lambda>c. c \<noteq> dquote) (trace_kind k)" for k by (cases k) simp_all
  then show "known_kind s \<Longrightarrow> ?thesis" by (auto simp: known_kind_def)
qed

lemma kind_delimited:
  "known_kind s \<Longrightarrow> known_kind s' \<Longrightarrow>
   sp_kind s @ dquote # r = sp_kind s' @ dquote # r' \<longleftrightarrow> sp_kind s = sp_kind s' \<and> r = r'"
  using delimited_inject [OF kind_chars kind_chars, of s s' dquote dquote r r'] by simp

lemma number_inject:
  assumes "i < 2 ^ 32" "j < 2 ^ 32"
  shows "sint (word_of_nat i :: 32 word) = sint (word_of_nat j :: 32 word) \<longleftrightarrow> i = j"
proof
  assume "sint (word_of_nat i :: 32 word) = sint (word_of_nat j :: 32 word)"
  then have "(word_of_nat i :: 32 word) = word_of_nat j" by (rule signed_word_eqI)
  then have "unat (word_of_nat i :: 32 word) = unat (word_of_nat j :: 32 word)" by simp
  with assms show "i = j" by (simp add: unat_of_nat)
qed simp

lemma unat_inject: "unat a = unat b \<longleftrightarrow> a = b"
  by (auto intro: unsigned_word_eqI)

lemma record_line_inject:
  assumes "known_kind s" "known_kind s'" "i < 2 ^ 32" "j < 2 ^ 32" "record_line s i @ r = record_line s' j @ r'"
  shows "s = s' \<and> i = j \<and> r = r'"
proof -
  note d = decimal_delimited [OF no_number_char(1,1)] decimal_int_delimited [OF no_number_char(1,1)]
    decimal_int_delimited [OF no_number_char(2,2)]
  have "sp_kind s = sp_kind s' \<and> start_us s = start_us s' \<and> end_us s = end_us s' \<and> i = j \<and>
      sp_attempt s = sp_attempt s' \<and> sp_status s = sp_status s' \<and> sp_bytes s = sp_bytes s' \<and>
      fresh_conn s = fresh_conn s' \<and> range_off s = range_off s' \<and> range_len s = range_len s' \<and> r = r'"
    using assms(5) kind_delimited [OF assms(1,2)] number_inject [OF assms(3,4)]
    by (auto simp: record_line_def d unat_inject split: if_splits)
  then show ?thesis by simp
qed

lemma header_line_inject: "header_line wall @ r = header_line wall' @ r' \<longleftrightarrow> wall = wall' \<and> r = r'"
  by (auto simp: header_line_def decimal_int_delimited [OF no_number_char(2,2)])

lemma lines_of_inject:
  assumes "\<forall>(t, s, i)\<in>set xs. known_kind s \<and> i < 2 ^ 32" "\<forall>(t, s, i)\<in>set ys. known_kind s \<and> i < 2 ^ 32"
    and "lines_of xs = lines_of ys"
  shows "map snd xs = map snd ys"
  using assms
proof (induction xs arbitrary: ys)
  case Nil
  then show ?case by (cases ys) (auto simp: record_line_def)
next
  case (Cons x xs)
  obtain t s i where x: "x = (t, s, i)" by (rule prod_cases3)
  from Cons.prems x obtain y zs where ys: "ys = y # zs" by (cases ys) (auto simp: record_line_def)
  obtain u s' j where y: "y = (u, s', j)" by (rule prod_cases3)
  have k: "known_kind s" "known_kind s'" "i < 2 ^ 32" "j < 2 ^ 32" "record_line s i @ lines_of xs = record_line s' j @ lines_of zs"
    using Cons.prems unfolding x y ys by auto
  from record_line_inject [OF this] have "s = s'" "i = j" "lines_of xs = lines_of zs" by auto
  moreover from Cons.IH [of zs] Cons.prems(1,2) this(3) have "map snd xs = map snd zs" unfolding ys by auto
  ultimately show ?case by (simp add: x y ys)
qed

lemma log_numbered:
  assumes "numbers_inv sys" "next_number (tracer sys) \<le> 2 ^ 32"
  shows "\<forall>(t, s, i)\<in>set (trace_log sys). known_kind s \<and> i < 2 ^ 32"
proof clarify
  fix t s i assume "(t, s, i) \<in> set (trace_log sys)"
  with assms(1) have "thread_numbers (tracer sys) t = Some i" "known_kind s" "dense_numbers (tracer sys)"
    by (auto simp: numbers_inv_def)
  with numbered_belowD(1) assms(2) show "known_kind s \<and> i < 2 ^ 32" by (meson order_less_le_trans)
qed

lemma upload_records_flushed:
  "take 7 (sp_kind s) = ''upload.'' \<Longrightarrow>
   flushed (emit_locked env can_open wall s i st) = length (trace_text (emit_locked env can_open wall s i st))"
  by (simp add: emit_locked_def flush_out_def Let_def)

lemma trace_flag_read_once:
  "trace_enabled env st = (b, st') \<Longrightarrow> trace_enabled env' st' = (b, st')"
  by (auto simp: trace_enabled_def split: option.splits)

text \<open>A set variable does not always turn the trace on, whatever the comment in the header file says.\<close>

lemma trace_variable_zero_is_off:
  "env ''GDRIVE_TRACE_FILE'' = None \<Longrightarrow> env ''GDRIVE_TRACE'' = Some ''0'' \<Longrightarrow> \<not> trace_requested env"
  by (simp add: trace_requested_def)

text \<open>
  C34. Whatever the interleaving of the threads, a trace is its header and then one whole line for every
  record, in the order they were written, with one number per thread; and the text tells the records: two
  runs with the same text wrote the same spans with the same thread numbers.
\<close>

theorem trace_tells_records:
  assumes "trace_reachable env can_open sys" and "next_number (tracer sys) \<le> 2 ^ 32"
    and "trace_reachable env' can_open' sys'" and "next_number (tracer sys') \<le> 2 ^ 32"
  shows "(\<exists>wall. trace_text (tracer sys) =
      (if trace_log sys = [] then [] else header_line wall @ lines_of (trace_log sys))) \<and>
    (\<forall>(t, s, i)\<in>set (trace_log sys). \<forall>(u, s', j)\<in>set (trace_log sys). i = j \<longleftrightarrow> t = u) \<and>
    (trace_text (tracer sys) = trace_text (tracer sys') \<longrightarrow> map snd (trace_log sys) = map snd (trace_log sys'))"
proof -
  note inv = trace_invs [OF assms(1)] and inv' = trace_invs [OF assms(3)]
  have shape: "\<exists>wall. trace_text (tracer r) = (if trace_log r = [] then [] else header_line wall @ lines_of (trace_log r))"
    if "text_inv r" for r using that by (auto simp: text_inv_def split: if_splits)
  from shape inv obtain w where w: "trace_text (tracer sys) = (if trace_log sys = [] then [] else header_line w @ lines_of (trace_log sys))"
    by blast
  from shape inv' obtain w' where
    w': "trace_text (tracer sys') = (if trace_log sys' = [] then [] else header_line w' @ lines_of (trace_log sys'))" by blast
  have "map snd (trace_log sys) = map snd (trace_log sys')" if "trace_text (tracer sys) = trace_text (tracer sys')"
  proof (rule lines_of_inject [OF log_numbered log_numbered])
    have "header_line v @ r \<noteq> []" for v r by (simp add: header_line_def)
    then show "lines_of (trace_log sys) = lines_of (trace_log sys')"
      using that header_line_inject unfolding w w' by (auto split: if_splits)
  qed (use inv inv' assms in auto)
  moreover have "i = j \<longleftrightarrow> t = u" if "(t, s, i) \<in> set (trace_log sys)" "(u, s', j) \<in> set (trace_log sys)" for t s i u s' j
  proof -
    from inv that have "thread_numbers (tracer sys) t = Some i" "thread_numbers (tracer sys) u = Some j"
      "dense_numbers (tracer sys)" by (auto simp: numbers_inv_def)
    with numbered_belowD(2) show ?thesis by fastforce
  qed
  ultimately show ?thesis using w by blast
qed

text \<open>Two threads: the second takes its number last and writes first.\<close>

definition trace_env :: "string \<Rightarrow> string option" where
  "trace_env v = (if v = ''GDRIVE_TRACE_FILE'' then Some ''/tmp/t'' else None)"

definition list_span :: span where "list_span = new_span\<lparr>sp_kind := trace_kind FilesList\<rparr>"

definition chunk_span :: span where "chunk_span = new_span\<lparr>sp_kind := trace_kind UploadChunks\<rparr>"

lemma example_trace:
  obtains sys where "trace_reachable trace_env (\<lambda>_. True) sys" "trace_log sys = [(5, chunk_span, 1), (3, list_span, 0)]"
    "next_number (tracer sys) = 2"
proof -
  have "known_kind (s\<lparr>sp_kind := trace_kind k\<rparr>)" for s k by (auto simp: known_kind_def)
  then have k: "known_kind list_span" "known_kind chunk_span" unfolding list_span_def chunk_span_def by blast+
  let ?step = "trace_step trace_env (\<lambda>_. True)"
  obtain s1 where s1: "?step trace_system_start s1" "unwritten s1 3 = Some (list_span, 0)" "unwritten s1 5 = None"
      "thread_numbers (tracer s1) 5 = None" "next_number (tracer s1) = 1" "trace_log s1 = []"
    using numbered [of trace_system_start 3 list_span] k
    by (fastforce simp: trace_system_start_def trace_start_def thread_number_def)
  obtain s2 where s2: "?step s1 s2" "unwritten s2 3 = Some (list_span, 0)" "unwritten s2 5 = Some (chunk_span, 1)"
      "next_number (tracer s2) = 2" "trace_log s2 = []"
    using numbered [of s1 5 chunk_span] k s1 by (fastforce simp: thread_number_def)
  obtain s3 where s3: "?step s2 s3" "unwritten s3 3 = Some (list_span, 0)"
      "next_number (tracer s3) = 2" "trace_log s3 = [(5, chunk_span, 1)]"
    using written [OF s2(3)] s2 by fastforce
  obtain s4 where s4: "?step s3 s4" "next_number (tracer s4) = 2" "trace_log s4 = [(5, chunk_span, 1), (3, list_span, 0)]"
    using written [OF s3(2)] s3 by fastforce
  from s1(1) s2(1) s3(1) s4(1) have "trace_reachable trace_env (\<lambda>_. True) s4"
    by (meson trace_reachable.intros)
  with s4 that show thesis by blast
qed

theorem trace_tells_records_witness:
  "\<exists>sys wall. trace_reachable trace_env (\<lambda>_. True) sys \<and> trace_text (tracer sys) =
     header_line wall @ record_line chunk_span 1 @ record_line list_span 0"
proof -
  obtain sys where s: "trace_reachable trace_env (\<lambda>_. True) sys"
    "trace_log sys = [(5, chunk_span, 1), (3, list_span, 0)]" "next_number (tracer sys) = 2" by (rule example_trace)
  then have "next_number (tracer sys) \<le> 2 ^ 32" by simp
  from trace_tells_records [OF s(1) this s(1) this] s show ?thesis by auto
qed

end
