(* ===== verification/MetadataThreads.thy ===== *)
theory MetadataThreads
  imports PathCache
begin

text \<open>
  The threads that share the metadata of files: \<open>GetOrFetchMetadata\<close> of \<open>src/gdrive_path_cache.cpp\<close> with its
  locked sections, fetches and promises as separate steps, interleaved with the steps of every other thread
  and with \<open>BeginQuery\<close>, \<open>InvalidatePrefix\<close> and \<open>Clear\<close>.

  What the state has beyond the code are ghosts, for the statements: a clock that counts the steps, the time each
  query first began, the time of the last change of the shared generation, and for each promise the time its
  fetch started and the key it was made for.
\<close>

section \<open>Threads\<close>

datatype meta_thread =
    MIdle
  | MFetching cache_key string "nat option" nat
  | MFailed cache_key string nat meta_answer
  | MWaiting cache_key string nat
  | MReturned cache_key string meta_answer

record meta_system =
  mcache :: path_cache
  mthreads :: "nat \<Rightarrow> meta_thread"
  own_query :: "nat \<Rightarrow> nat"
  mclock :: nat
  began :: "nat \<Rightarrow> nat option"
  changed :: nat
  started :: "nat \<Rightarrow> nat"
  promise_key :: "nat \<Rightarrow> string"

definition at_rest :: "meta_thread \<Rightarrow> bool" where
  "at_rest pc \<longleftrightarrow> (case pc of MIdle \<Rightarrow> True | MReturned _ _ _ \<Rightarrow> True | _ \<Rightarrow> False)"

text \<open>One step of a thread: its new state, the cache it leaves, and the tick of the clock.\<close>

definition go :: "nat \<Rightarrow> meta_thread \<Rightarrow> path_cache \<Rightarrow> meta_system \<Rightarrow> meta_system" where
  "go t pc c sys = sys\<lparr>mthreads := (mthreads sys)(t := pc), mcache := c, mclock := Suc (mclock sys)\<rparr>"

definition query_begins :: "nat \<Rightarrow> nat \<Rightarrow> meta_system \<Rightarrow> meta_system" where
  "query_begins t q sys = (go t MIdle (begin_query q (mcache sys)) sys)
     \<lparr>own_query := (own_query sys)(t := q),
      began := (if began sys q = None then (began sys)(q \<mapsto> mclock sys) else began sys),
      changed := (if q \<noteq> metadata_generation (mcache sys) then mclock sys else changed sys)\<rparr>"

text \<open>
  \<open>answers k st a\<close> says that a fetch for the key \<open>k\<close> that starts at the time \<open>st\<close> may give \<open>a\<close>: metadata,
  absence or an exception.
\<close>

inductive meta_step :: "(string \<Rightarrow> nat \<Rightarrow> meta_answer \<Rightarrow> bool) \<Rightarrow> meta_system \<Rightarrow> meta_system \<Rightarrow> bool" for answers where
  begins: "at_rest (mthreads sys t) \<Longrightarrow> meta_step answers sys (query_begins t q sys)"
| asks_uncached: "at_rest (mthreads sys t) \<Longrightarrow> metadata_lookup k f (mcache sys) = (Uncached, c) \<Longrightarrow>
     meta_step answers sys (go t (MFetching k f None (mclock sys)) c sys)"
| asks_first: "at_rest (mthreads sys t) \<Longrightarrow> metadata_lookup k f (mcache sys) = (Fetch p, c) \<Longrightarrow>
     meta_step answers sys ((go t (MFetching k f (Some p) (mclock sys)) c sys)
       \<lparr>started := (started sys)(p := mclock sys), promise_key := (promise_key sys)(p := metadata_key k f)\<rparr>)"
| asks_again: "at_rest (mthreads sys t) \<Longrightarrow> metadata_lookup k f (mcache sys) = (Await p, c) \<Longrightarrow>
     meta_step answers sys (go t (MWaiting k f p) c sys)"
| direct: "mthreads sys t = MFetching k f None st \<Longrightarrow> answers (metadata_key k f) st a \<Longrightarrow> a \<noteq> Unresolved \<Longrightarrow>
     meta_step answers sys (go t (MReturned k f a) (mcache sys) sys)"
| found: "mthreads sys t = MFetching k f (Some p) st \<Longrightarrow> answers (metadata_key k f) st (Found m) \<Longrightarrow>
     meta_step answers sys (go t (MReturned k f (Found m)) (metadata_resolve p (Found m) (mcache sys)) sys)"
| failed: "mthreads sys t = MFetching k f (Some p) st \<Longrightarrow> answers (metadata_key k f) st a \<Longrightarrow>
     a = Absent \<or> (\<exists>e. a = Raised e) \<Longrightarrow>
     meta_step answers sys (go t (MFailed k f p a) (metadata_erase k f (mcache sys)) sys)"
| reported: "mthreads sys t = MFailed k f p a \<Longrightarrow>
     meta_step answers sys (go t (MReturned k f a) (metadata_resolve p a (mcache sys)) sys)"
| got: "mthreads sys t = MWaiting k f p \<Longrightarrow> promised (mcache sys) p = a \<Longrightarrow> a \<noteq> Unresolved \<Longrightarrow>
     meta_step answers sys (go t (MReturned k f a) (mcache sys) sys)"
| invalidated: "at_rest (mthreads sys t) \<Longrightarrow>
     meta_step answers sys (go t (mthreads sys t) (invalidate_prefix k (mcache sys)) sys)"
| emptied: "at_rest (mthreads sys t) \<Longrightarrow>
     meta_step answers sys (go t (mthreads sys t) (clear_paths (mcache sys)) sys)"

definition meta_start :: meta_system where
  "meta_start = \<lparr>mcache = empty_path_cache, mthreads = (\<lambda>_. MIdle), own_query = (\<lambda>_. 0), mclock = 0,
     began = [0 \<mapsto> 0], changed = 0, started = (\<lambda>_. 0), promise_key = (\<lambda>_. [])\<rparr>"

inductive meta_reachable :: "(string \<Rightarrow> nat \<Rightarrow> meta_answer \<Rightarrow> bool) \<Rightarrow> meta_system \<Rightarrow> bool" for answers where
  at_start: "meta_reachable answers meta_start"
| onward: "meta_reachable answers sys \<Longrightarrow> meta_step answers sys sys' \<Longrightarrow> meta_reachable answers sys'"

section \<open>The invariant\<close>

fun holds_promise :: "meta_thread \<Rightarrow> nat option" where
  "holds_promise (MFetching k f p st) = p"
| "holds_promise (MFailed k f p a) = Some p"
| "holds_promise _ = None"

definition issued :: "meta_system \<Rightarrow> nat \<Rightarrow> string \<Rightarrow> bool" where
  "issued sys p k \<longleftrightarrow> p \<le> next_promise (mcache sys) \<and> promise_key sys p = k"

text \<open>A fetch that starts at \<open>st\<close> is fresh for a thread whose query began before.\<close>

definition fresh_for :: "meta_system \<Rightarrow> nat \<Rightarrow> nat \<Rightarrow> bool" where
  "fresh_for sys t st \<longleftrightarrow> (\<exists>b. began sys (own_query sys t) = Some b \<and> b \<le> st)"

fun thread_ok :: "(string \<Rightarrow> nat \<Rightarrow> meta_answer \<Rightarrow> bool) \<Rightarrow> meta_system \<Rightarrow> nat \<Rightarrow> meta_thread \<Rightarrow> bool" where
  "thread_ok answers sys t MIdle = True"
| "thread_ok answers sys t (MFetching k f None st) = fresh_for sys t st"
| "thread_ok answers sys t (MFetching k f (Some p) st) =
     (issued sys p (metadata_key k f) \<and> started sys p = st \<and> fresh_for sys t st)"
| "thread_ok answers sys t (MFailed k f p a) =
     (issued sys p (metadata_key k f) \<and> fresh_for sys t (started sys p) \<and>
      answers (metadata_key k f) (started sys p) a \<and> a \<noteq> Unresolved)"
| "thread_ok answers sys t (MWaiting k f p) =
     (0 < p \<and> issued sys p (metadata_key k f) \<and> fresh_for sys t (started sys p))"
| "thread_ok answers sys t (MReturned k f a) =
     (a \<noteq> Unresolved \<and> (\<exists>st. fresh_for sys t st \<and> answers (metadata_key k f) st a))"

definition threads_inv :: "(string \<Rightarrow> nat \<Rightarrow> meta_answer \<Rightarrow> bool) \<Rightarrow> meta_system \<Rightarrow> bool" where
  "threads_inv answers sys \<longleftrightarrow> (\<forall>t. thread_ok answers sys t (mthreads sys t) \<and> began sys (own_query sys t) \<noteq> None)"

definition entries_inv :: "meta_system \<Rightarrow> bool" where
  "entries_inv sys \<longleftrightarrow> (\<forall>k p. map_of (metadata_entries (mcache sys)) k = Some p \<longrightarrow>
     0 < p \<and> issued sys p k \<and> changed sys \<le> started sys p)"

definition promises_inv :: "(string \<Rightarrow> nat \<Rightarrow> meta_answer \<Rightarrow> bool) \<Rightarrow> meta_system \<Rightarrow> bool" where
  "promises_inv answers sys \<longleftrightarrow> (\<forall>p. promised (mcache sys) p \<noteq> Unresolved \<longrightarrow>
     p \<le> next_promise (mcache sys) \<and> answers (promise_key sys p) (started sys p) (promised (mcache sys) p))"

definition times_inv :: "meta_system \<Rightarrow> bool" where
  "times_inv sys \<longleftrightarrow> began sys (metadata_generation (mcache sys)) \<noteq> None \<and>
     (\<forall>q b. began sys q = Some b \<longrightarrow> b \<le> changed sys) \<and> changed sys \<le> mclock sys"

text \<open>Every pending promise that was issued has one thread that will resolve it.\<close>

definition holders_inv :: "meta_system \<Rightarrow> bool" where
  "holders_inv sys \<longleftrightarrow>
     (\<forall>t p. holds_promise (mthreads sys t) = Some p \<longrightarrow>
        0 < p \<and> p \<le> next_promise (mcache sys) \<and> promised (mcache sys) p = Unresolved) \<and>
     (\<forall>t u p. holds_promise (mthreads sys t) = Some p \<longrightarrow> holds_promise (mthreads sys u) = Some p \<longrightarrow> t = u) \<and>
     (\<forall>p. 0 < p \<longrightarrow> p \<le> next_promise (mcache sys) \<longrightarrow> promised (mcache sys) p = Unresolved \<longrightarrow>
        (\<exists>t. holds_promise (mthreads sys t) = Some p))"

lemma go_simps [simp]:
  "mthreads (go t pc c sys) = (mthreads sys)(t := pc)" "mcache (go t pc c sys) = c"
  "own_query (go t pc c sys) = own_query sys" "mclock (go t pc c sys) = Suc (mclock sys)"
  "began (go t pc c sys) = began sys" "changed (go t pc c sys) = changed sys"
  "started (go t pc c sys) = started sys" "promise_key (go t pc c sys) = promise_key sys"
  by (simp_all add: go_def)

lemma metadata_lookup_cases:
  assumes "metadata_lookup k f c = (plan, c')"
  obtains (uncached) "plan = Uncached" "c' = c"
  | (await) p where "plan = Await p" "map_of (metadata_entries c) (metadata_key k f) = Some p"
      "c' = c\<lparr>hit_count := Suc (hit_count c)\<rparr>"
  | (fetch) p where "plan = Fetch p" "map_of (metadata_entries c) (metadata_key k f) = None" "p = Suc (next_promise c)"
      "next_promise c' = p" "map_of (metadata_entries c') = (map_of (metadata_entries c))(metadata_key k f \<mapsto> p)"
      "promised c' = promised c" "metadata_generation c' = metadata_generation c"
  using assms by (fastforce simp: metadata_lookup_def Let_def update_conv' split: if_splits option.splits)

lemma at_rest_holds: "at_rest pc \<Longrightarrow> holds_promise pc = None"
  by (cases pc) (auto simp: at_rest_def)

text \<open>The operations that leave the promises alone, and what they do to the map.\<close>

lemma promises_kept [simp]:
  "next_promise (begin_query q c) = next_promise c" "promised (begin_query q c) = promised c"
  "next_promise (metadata_erase k f c) = next_promise c" "promised (metadata_erase k f c) = promised c"
  "next_promise (invalidate_prefix k c) = next_promise c" "promised (invalidate_prefix k c) = promised c"
  "next_promise (clear_paths c) = next_promise c" "promised (clear_paths c) = promised c"
  "next_promise (metadata_resolve p a c) = next_promise c" "promised (metadata_resolve p a c) = (promised c)(p := a)"
  by (simp_all add: begin_query_def metadata_erase_def invalidate_prefix_def clear_paths_def metadata_resolve_def Let_def)

section \<open>Promises and their threads\<close>

lemma holders_go:
  assumes "holders_inv sys" "next_promise c = next_promise (mcache sys)" "promised c = promised (mcache sys)"
    and "holds_promise pc = holds_promise (mthreads sys t)"
  shows "holders_inv (go t pc c sys)"
proof -
  have "holds_promise (((mthreads sys)(t := pc)) u) = holds_promise (mthreads sys u)" for u using assms(4) by simp
  with assms(1-3) show ?thesis unfolding holders_inv_def by simp
qed

lemma holders_ghost [simp]:
  "holders_inv (sys\<lparr>own_query := a, began := b, changed := x\<rparr>) = holders_inv sys"
  "holders_inv (sys\<lparr>started := y, promise_key := z\<rparr>) = holders_inv sys"
  by (simp_all add: holders_inv_def)

lemma holders_new:
  assumes "holders_inv sys" "holds_promise (mthreads sys t) = None" "metadata_lookup k f (mcache sys) = (Fetch p, c)"
    and "promised (mcache sys) p = Unresolved"
  shows "holders_inv (go t (MFetching k f (Some p) st) c sys)"
  using assms(3)
proof (cases rule: metadata_lookup_cases)
  case (fetch q)
  then have p: "p = Suc (next_promise (mcache sys))" "next_promise c = p" "promised c = promised (mcache sys)" by simp_all
  have old: "holds_promise (mthreads sys u) \<noteq> Some p" for u using assms(1) p(1) unfolding holders_inv_def by fastforce
  show ?thesis
    unfolding holders_inv_def
  proof (intro conjI allI impI)
    fix u r assume "holds_promise (mthreads (go t (MFetching k f (Some p) st) c sys) u) = Some r"
    then have "u = t \<and> r = p \<or> holds_promise (mthreads sys u) = Some r" by (auto split: if_splits)
    with assms(1,4) p show "0 < r" "r \<le> next_promise (mcache (go t (MFetching k f (Some p) st) c sys))"
        "promised (mcache (go t (MFetching k f (Some p) st) c sys)) r = Unresolved"
      unfolding holders_inv_def by (auto simp: le_SucI)
  next
    fix u v r assume "holds_promise (mthreads (go t (MFetching k f (Some p) st) c sys) u) = Some r"
      "holds_promise (mthreads (go t (MFetching k f (Some p) st) c sys) v) = Some r"
    with assms(1) old show "u = v" unfolding holders_inv_def by (auto split: if_splits)
  next
    fix r assume r: "0 < r" "r \<le> next_promise (mcache (go t (MFetching k f (Some p) st) c sys))"
      "promised (mcache (go t (MFetching k f (Some p) st) c sys)) r = Unresolved"
    show "\<exists>u. holds_promise (mthreads (go t (MFetching k f (Some p) st) c sys) u) = Some r"
    proof (cases "r = p")
      case False
      with r p assms(1) obtain u where "holds_promise (mthreads sys u) = Some r"
        unfolding holders_inv_def by (fastforce simp: le_Suc_eq)
      with assms(2) show ?thesis by (intro exI [of _ u]) auto
    qed (auto intro: exI [of _ t])
  qed
qed simp_all

lemma holders_resolve:
  assumes "holders_inv sys" "holds_promise (mthreads sys t) = Some p" "a \<noteq> Unresolved" "holds_promise pc = None"
  shows "holders_inv (go t pc (metadata_resolve p a (mcache sys)) sys)"
proof -
  have one: "holds_promise (mthreads sys u) = Some p \<Longrightarrow> u = t" for u
    using assms(1,2) unfolding holders_inv_def by blast
  show ?thesis
    unfolding holders_inv_def
  proof (intro conjI allI impI)
    fix u r assume "holds_promise (mthreads (go t pc (metadata_resolve p a (mcache sys)) sys) u) = Some r"
    then have "u \<noteq> t" "holds_promise (mthreads sys u) = Some r" using assms(4) by (auto split: if_splits)
    moreover from this one have "r \<noteq> p" by blast
    ultimately show "0 < r" "r \<le> next_promise (mcache (go t pc (metadata_resolve p a (mcache sys)) sys))"
        "promised (mcache (go t pc (metadata_resolve p a (mcache sys)) sys)) r = Unresolved"
      using assms(1) unfolding holders_inv_def by auto
  next
    fix u v r assume "holds_promise (mthreads (go t pc (metadata_resolve p a (mcache sys)) sys) u) = Some r"
      "holds_promise (mthreads (go t pc (metadata_resolve p a (mcache sys)) sys) v) = Some r"
    with assms(1,4) show "u = v" unfolding holders_inv_def by (auto split: if_splits)
  next
    fix r assume r: "0 < r" "r \<le> next_promise (mcache (go t pc (metadata_resolve p a (mcache sys)) sys))"
      "promised (mcache (go t pc (metadata_resolve p a (mcache sys)) sys)) r = Unresolved"
    then have "r \<noteq> p" "promised (mcache sys) r = Unresolved" using assms(3) by (auto split: if_splits)
    with r assms(1) obtain u where u: "holds_promise (mthreads sys u) = Some r"
      unfolding holders_inv_def go_simps promises_kept by blast
    with \<open>r \<noteq> p\<close> assms(2) have "u \<noteq> t" by auto
    with u show "\<exists>u. holds_promise (mthreads (go t pc (metadata_resolve p a (mcache sys)) sys) u) = Some r" by auto
  qed
qed

section \<open>Fresh answers\<close>

lemma thread_ok_mono:
  assumes "thread_ok answers sys u pc" "next_promise (mcache sys) \<le> next_promise (mcache sys')"
    and "\<And>p. p \<le> next_promise (mcache sys) \<Longrightarrow> promise_key sys' p = promise_key sys p \<and> started sys' p = started sys p"
    and "began sys' (own_query sys' u) = began sys (own_query sys u)"
  shows "thread_ok answers sys' u pc"
  using assms(1,2) assms(3) assms(4)
  by (cases "(answers, sys, u, pc)" rule: thread_ok.cases) (auto simp: issued_def fresh_for_def)

lemma threads_go:
  assumes "threads_inv answers sys" "next_promise c = next_promise (mcache sys)" "thread_ok answers sys t pc"
  shows "threads_inv answers (go t pc c sys)"
  unfolding threads_inv_def
proof
  fix u
  have "thread_ok answers sys u (((mthreads sys)(t := pc)) u)" using assms(1,3) by (simp add: threads_inv_def)
  then have "thread_ok answers (go t pc c sys) u (((mthreads sys)(t := pc)) u)"
    by (rule thread_ok_mono) (simp_all add: assms(2))
  with assms(1) show "thread_ok answers (go t pc c sys) u (mthreads (go t pc c sys) u) \<and>
      began (go t pc c sys) (own_query (go t pc c sys) u) \<noteq> None" by (simp add: threads_inv_def)
qed

lemma entries_go:
  assumes "entries_inv sys" "next_promise c = next_promise (mcache sys)"
    and "map_of (metadata_entries c) \<subseteq>\<^sub>m map_of (metadata_entries (mcache sys))"
  shows "entries_inv (go t pc c sys)"
  unfolding entries_inv_def
proof (intro allI impI)
  fix k p assume "map_of (metadata_entries (mcache (go t pc c sys))) k = Some p"
  with assms(3) have "map_of (metadata_entries (mcache sys)) k = Some p" by (auto simp: map_le_def dom_def)
  with assms(1,2) show "0 < p \<and> issued (go t pc c sys) p k \<and> changed (go t pc c sys) \<le> started (go t pc c sys) p"
    by (simp add: entries_inv_def issued_def)
qed

lemma now_fresh:
  assumes "threads_inv answers sys" "times_inv sys" "changed sys \<le> st"
  shows "fresh_for sys t st"
proof -
  from assms(1) obtain b where b: "began sys (own_query sys t) = Some b" unfolding threads_inv_def by blast
  with assms(2) have "b \<le> changed sys" by (simp add: times_inv_def)
  with b assms(3) show ?thesis by (auto simp: fresh_for_def)
qed

definition meta_inv :: "(string \<Rightarrow> nat \<Rightarrow> meta_answer \<Rightarrow> bool) \<Rightarrow> meta_system \<Rightarrow> bool" where
  "meta_inv answers sys \<longleftrightarrow> threads_inv answers sys \<and> entries_inv sys \<and> promises_inv answers sys \<and> times_inv sys \<and>
     holders_inv sys"

lemma meta_threadD: "meta_inv answers sys \<Longrightarrow> mthreads sys t = pc \<Longrightarrow> thread_ok answers sys t pc"
  unfolding meta_inv_def threads_inv_def by blast

text \<open>Most steps make no promise, resolve none and add nothing to the map.\<close>

lemma inv_go:
  assumes "meta_inv answers sys" "thread_ok answers sys t pc" "holds_promise pc = holds_promise (mthreads sys t)"
    and "next_promise c = next_promise (mcache sys)" "promised c = promised (mcache sys)"
    and "metadata_generation c = metadata_generation (mcache sys)"
    and "map_of (metadata_entries c) \<subseteq>\<^sub>m map_of (metadata_entries (mcache sys))"
  shows "meta_inv answers (go t pc c sys)"
  using assms threads_go [of answers sys c t pc] entries_go [of sys c t pc] holders_go [of sys c pc t]
  by (simp add: meta_inv_def promises_inv_def times_inv_def)

lemma map_le_drops:
  "map_of (metadata_entries (metadata_erase k f c)) \<subseteq>\<^sub>m map_of (metadata_entries c)"
  "map_of (metadata_entries (invalidate_prefix key c)) \<subseteq>\<^sub>m map_of (metadata_entries c)"
  "map_of (metadata_entries (clear_paths c)) \<subseteq>\<^sub>m map_of (metadata_entries c)"
proof -
  have "map_of (filter (\<lambda>(k, _). P k) xs) k = (if P k then map_of xs k else None)" for P k and xs :: "(string \<times> nat) list"
    by (induction xs) auto
  then show "map_of (metadata_entries (invalidate_prefix key c)) \<subseteq>\<^sub>m map_of (metadata_entries c)"
    by (auto simp: invalidate_prefix_def Let_def map_le_def split: if_splits)
qed (auto simp: metadata_erase_def clear_paths_def delete_conv' map_le_def)

lemma generation_kept [simp]:
  "metadata_generation (metadata_erase k f c) = metadata_generation c"
  "metadata_generation (invalidate_prefix key c) = metadata_generation c"
  "metadata_generation (clear_paths c) = metadata_generation c"
  "metadata_generation (metadata_resolve p a c) = metadata_generation c"
  "metadata_entries (metadata_resolve p a c) = metadata_entries c"
  by (simp_all add: metadata_erase_def invalidate_prefix_def clear_paths_def metadata_resolve_def Let_def)

lemma inv_resolve:
  assumes "meta_inv answers sys" "holds_promise (mthreads sys t) = Some p" "answers (promise_key sys p) (started sys p) a"
    and "a \<noteq> Unresolved" "pc = MReturned k f a" "promise_key sys p = metadata_key k f" "fresh_for sys t (started sys p)"
  shows "meta_inv answers (go t pc (metadata_resolve p a (mcache sys)) sys)"
proof -
  have "thread_ok answers sys t pc" using assms(3-7) by auto
  moreover have "p \<le> next_promise (mcache sys)" using assms(1,2) by (simp add: meta_inv_def holders_inv_def)
  ultimately show ?thesis
    using assms(1-5) threads_go [of answers sys "metadata_resolve p a (mcache sys)" t pc]
      entries_go [of sys "metadata_resolve p a (mcache sys)" t pc] holders_resolve [of sys t p a pc]
    by (simp add: meta_inv_def promises_inv_def times_inv_def)
qed

lemma inv_first:
  assumes "meta_inv answers sys" "at_rest (mthreads sys t)" "metadata_lookup k f (mcache sys) = (Fetch p, c)"
  shows "meta_inv answers ((go t (MFetching k f (Some p) (mclock sys)) c sys)
    \<lparr>started := (started sys)(p := mclock sys), promise_key := (promise_key sys)(p := metadata_key k f)\<rparr>)"
    (is "meta_inv answers ?s")
  using assms(3)
proof (cases rule: metadata_lookup_cases)
  case (fetch q)
  then have p: "p = Suc (next_promise (mcache sys))" "next_promise c = p" "promised c = promised (mcache sys)"
    "map_of (metadata_entries c) = (map_of (metadata_entries (mcache sys)))(metadata_key k f \<mapsto> p)"
    "metadata_generation c = metadata_generation (mcache sys)" by simp_all
  note inv = assms(1) [unfolded meta_inv_def]
  have old: "r \<noteq> p" if "r \<le> next_promise (mcache sys)" for r using that p(1) by simp
  have "changed sys \<le> mclock sys" using inv by (simp add: times_inv_def)
  with inv have now: "fresh_for sys u (mclock sys)" for u using now_fresh by blast
  have "threads_inv answers ?s"
    unfolding threads_inv_def
  proof (intro allI conjI)
    fix u
    show "thread_ok answers ?s u (mthreads ?s u)"
    proof (cases "u = t")
      case True
      with now [of t] p(2) show ?thesis by (simp add: issued_def fresh_for_def)
    next
      case False
      have "thread_ok answers sys u (mthreads sys u)" using inv by (simp add: threads_inv_def)
      then have "thread_ok answers ?s u (mthreads sys u)" by (rule thread_ok_mono) (use p(1,2) old in simp_all)
      with False show ?thesis by simp
    qed
    show "began ?s (own_query ?s u) \<noteq> None" using inv by (simp add: threads_inv_def)
  qed
  moreover have "entries_inv ?s"
    unfolding entries_inv_def
  proof (intro allI impI)
    fix k' r assume "map_of (metadata_entries (mcache ?s)) k' = Some r"
    then have "((map_of (metadata_entries (mcache sys)))(metadata_key k f \<mapsto> p)) k' = Some r"
      unfolding p(4) [symmetric] by simp
    then consider "k' = metadata_key k f" "r = p" | "map_of (metadata_entries (mcache sys)) k' = Some r"
      by (cases "k' = metadata_key k f") simp_all
    then show "0 < r \<and> issued ?s r k' \<and> changed ?s \<le> started ?s r"
    proof cases
      case 1
      with p(1,2) \<open>changed sys \<le> mclock sys\<close> show ?thesis by (simp add: issued_def)
    next
      case 2
      with inv have r: "0 < r" "issued sys r k'" "changed sys \<le> started sys r" unfolding entries_inv_def by blast+
      then have "r \<le> next_promise (mcache sys)" by (simp add: issued_def)
      with p(1) have "r \<noteq> p" "r \<le> p" by simp_all
      with r p(2) show ?thesis by (simp add: issued_def)
    qed
  qed
  moreover have "promises_inv answers ?s" using inv old p(2,3) by (auto simp: promises_inv_def p(1) le_SucI)
  moreover have "times_inv ?s" using inv p(5) by (simp add: times_inv_def)
  moreover have "promised (mcache sys) p = Unresolved"
  proof (rule ccontr)
    assume "promised (mcache sys) p \<noteq> Unresolved"
    with inv have "p \<le> next_promise (mcache sys)" by (simp add: promises_inv_def)
    with p(1) show False by simp
  qed
  with holders_new [OF _ at_rest_holds [OF assms(2)] assms(3)] inv have "holders_inv ?s" by simp
  ultimately show ?thesis by (simp add: meta_inv_def)
qed simp_all

lemma inv_begins:
  assumes "meta_inv answers sys" "at_rest (mthreads sys t)"
  shows "meta_inv answers (query_begins t q sys)" (is "meta_inv answers ?s")
proof -
  note inv = assms(1) [unfolded meta_inv_def]
  have m: "began sys (own_query sys u) \<noteq> None" "thread_ok answers sys u (mthreads sys u)" for u
    using inv by (simp_all add: threads_inv_def)
  have "thread_ok answers ?s u (mthreads ?s u) \<and> began ?s (own_query ?s u) \<noteq> None" for u
  proof (cases "u = t")
    case False
    have "thread_ok answers ?s u (mthreads sys u)"
      by (rule thread_ok_mono [OF m(2)]) (use m(1) [of u] False in \<open>auto simp: query_begins_def\<close>)
    with False m(1) [of u] show ?thesis by (auto simp: query_begins_def)
  qed (simp add: query_begins_def)
  moreover have "entries_inv ?s"
    using inv by (auto simp: entries_inv_def query_begins_def begin_query_def issued_def)
  moreover have "promises_inv answers ?s" using inv by (simp add: promises_inv_def query_begins_def)
  moreover have "times_inv ?s"
    using inv by (auto simp: times_inv_def query_begins_def begin_query_def intro: order_trans)
  moreover have "holders_inv ?s"
    using inv holders_go [of sys "begin_query q (mcache sys)" MIdle t] at_rest_holds [OF assms(2)]
    by (simp add: query_begins_def)
  ultimately show ?thesis by (simp add: meta_inv_def threads_inv_def)
qed

lemma inv_step: "meta_step answers sys sys' \<Longrightarrow> meta_inv answers sys \<Longrightarrow> meta_inv answers sys'"
proof (induction rule: meta_step.induct)
  case (begins sys t q)
  then show ?case by (intro inv_begins)
next
  case (asks_uncached sys t k f c)
  then have "c = mcache sys" by (auto elim: metadata_lookup_cases)
  moreover have "fresh_for sys t (mclock sys)"
    using asks_uncached.prems now_fresh by (auto simp: meta_inv_def times_inv_def)
  ultimately show ?case using asks_uncached by (intro inv_go) (simp_all add: at_rest_holds)
next
  case (asks_first sys t k f p c)
  then show ?case by (intro inv_first)
next
  case (asks_again sys t k f p c)
  then have p: "map_of (metadata_entries (mcache sys)) (metadata_key k f) = Some p"
    "c = (mcache sys)\<lparr>hit_count := Suc (hit_count (mcache sys))\<rparr>" by (auto elim: metadata_lookup_cases)
  then have "0 < p" "issued sys p (metadata_key k f)" "fresh_for sys t (started sys p)"
    using asks_again.prems now_fresh by (auto simp: meta_inv_def entries_inv_def)
  with p asks_again show ?case by (intro inv_go) (simp_all add: at_rest_holds)
next
  case (direct sys t k f st a)
  then have "fresh_for sys t st" using meta_threadD by fastforce
  with direct show ?case by (intro inv_go) auto
next
  case (found sys t k f p st m)
  have "thread_ok answers sys t (MFetching k f (Some p) st)"
    by (rule meta_threadD) fact+
  with found show ?case by (intro inv_resolve) (simp_all add: issued_def)
next
  case (failed sys t k f p st a)
  have "thread_ok answers sys t (MFetching k f (Some p) st)"
    by (rule meta_threadD) fact+
  with failed show ?case by (intro inv_go) (auto simp: map_le_drops)
next
  case (reported sys t k f p a)
  have "thread_ok answers sys t (MFailed k f p a)"
    by (rule meta_threadD) fact+
  with reported show ?case by (intro inv_resolve) (simp_all add: issued_def)
next
  case (got sys t k f p a)
  have "thread_ok answers sys t (MWaiting k f p)"
    by (rule meta_threadD) fact+
  moreover have "answers (promise_key sys p) (started sys p) a"
    using got by (auto simp: meta_inv_def promises_inv_def)
  ultimately show ?case using got by (intro inv_go) (auto simp: issued_def)
next
  case (invalidated sys t k)
  then show ?case by (intro inv_go) (simp_all add: map_le_drops meta_inv_def threads_inv_def)
next
  case (emptied sys t)
  then show ?case by (intro inv_go) (simp_all add: map_le_drops meta_inv_def threads_inv_def)
qed

lemma meta_reachable_inv: "meta_reachable answers sys \<Longrightarrow> meta_inv answers sys"
proof (induction rule: meta_reachable.induct)
  case at_start
  then show ?case
    by (auto simp: meta_inv_def threads_inv_def entries_inv_def promises_inv_def times_inv_def holders_inv_def
        meta_start_def empty_path_cache_def split: if_splits)
next
  case (onward sys sys')
  then show ?case using inv_step by blast
qed


section \<open>Runs\<close>

lemma begin_run:
  assumes "at_rest (mthreads s t)"
  obtains s' where "meta_step answers s s'" "mthreads s' = (mthreads s)(t := MIdle)"
    "metadata_generation (mcache s') = q" "own_query s' = (own_query s)(t := q)"
    "metadata_entries (mcache s') = (if metadata_generation (mcache s) = q then metadata_entries (mcache s) else [])"
    "next_promise (mcache s') = next_promise (mcache s)"
    "mclock s' = Suc (mclock s)"
  using begins [of s t answers q] assms by (intro that [of "query_begins t q s"]) (simp_all add: query_begins_def begin_query_def)

lemma fetch_run:
  assumes "at_rest (mthreads s t)" "metadata_generation (mcache s) \<noteq> 0"
    and "map_of (metadata_entries (mcache s)) (metadata_key k f) = None"
  obtains s' where "meta_step answers s s'"
    "mthreads s' = (mthreads s)(t := MFetching k f (Some (Suc (next_promise (mcache s)))) (mclock s))"
    "metadata_generation (mcache s') = metadata_generation (mcache s)" "own_query s' = own_query s"
    "map_of (metadata_entries (mcache s')) (metadata_key k f) = Some (Suc (next_promise (mcache s)))"
    "next_promise (mcache s') = Suc (next_promise (mcache s))" "mclock s' = Suc (mclock s)"
proof -
  let ?p = "Suc (next_promise (mcache s))"
  obtain c where c: "metadata_lookup k f (mcache s) = (Fetch ?p, c)"
    using assms(2,3) by (simp add: metadata_lookup_def Let_def)
  then show thesis
  proof (cases rule: metadata_lookup_cases)
    case (fetch p)
    with that [OF asks_first [OF assms(1) c]] show thesis by simp
  qed simp_all
qed

lemma wait_run:
  assumes "at_rest (mthreads s t)" "metadata_generation (mcache s) \<noteq> 0"
    and "map_of (metadata_entries (mcache s)) (metadata_key k f) = Some p"
  obtains s' where "meta_step answers s s'" "mthreads s' = (mthreads s)(t := MWaiting k f p)"
    "own_query s' = own_query s" "mclock s' = Suc (mclock s)"
proof -
  obtain c where c: "metadata_lookup k f (mcache s) = (Await p, c)"
    using assms(2,3) by (simp add: metadata_lookup_def)
  from that [OF asks_again [OF assms(1) c]] show thesis by simp
qed

lemma one_fetch:
  obtains s where "meta_reachable answers s" "mthreads s = (\<lambda>_. MIdle)(1 := MFetching k f (Some 1) 1)"
    "metadata_generation (mcache s) = 7" "next_promise (mcache s) = 1"
    "map_of (metadata_entries (mcache s)) (metadata_key k f) = Some 1"
proof -
  have "at_rest (mthreads meta_start 1)" by (simp add: meta_start_def at_rest_def)
  then obtain s1 where b: "meta_step answers meta_start s1" "mthreads s1 = (mthreads meta_start)(1 := MIdle)"
    "metadata_generation (mcache s1) = 7" "own_query s1 = (own_query meta_start)(1 := 7)"
    "metadata_entries (mcache s1) = (if metadata_generation (mcache meta_start) = 7 then metadata_entries (mcache meta_start) else [])"
    "next_promise (mcache s1) = next_promise (mcache meta_start)" "mclock s1 = Suc (mclock meta_start)"
    by (rule begin_run [of meta_start 1 answers 7])
  then have s1: "meta_step answers meta_start s1" "mthreads s1 = (\<lambda>_. MIdle)" "metadata_generation (mcache s1) = 7"
    "metadata_entries (mcache s1) = []" "next_promise (mcache s1) = 0" "mclock s1 = 1"
    by (simp_all add: meta_start_def empty_path_cache_def fun_eq_iff)
  from s1(2) have "at_rest (mthreads s1 1)" by (simp add: at_rest_def)
  from this s1(3,4) obtain s where s: "meta_step answers s1 s"
    "mthreads s = (mthreads s1)(1 := MFetching k f (Some (Suc (next_promise (mcache s1)))) (mclock s1))"
    "metadata_generation (mcache s) = metadata_generation (mcache s1)" "own_query s = own_query s1"
    "map_of (metadata_entries (mcache s)) (metadata_key k f) = Some (Suc (next_promise (mcache s1)))"
    "next_promise (mcache s) = Suc (next_promise (mcache s1))"
    using fetch_run [of s1 1 k f answers] by (metis map_of.simps(1) zero_neq_numeral)
  have "meta_reachable answers s" using at_start s1(1) s(1) by (meson meta_reachable.intros)
  from that [OF this] s show thesis unfolding s1 by simp
qed

definition shared_key :: cache_key where
  "shared_key = example_key ''a'' []"


text \<open>
  A fetch that fails takes away the promise of the map whosever it is: after an invalidation the promise of
  a later fetch, which \<open>discard_block\<close> of the block cache would leave alone. The next thread then fetches
  beside it.
\<close>

lemma late_failure_unpublishes:
  assumes "mthreads sys t = MFetching k f (Some p) st" "answers (metadata_key k f) st Absent"
  obtains sys' where "meta_step answers sys sys'" "mthreads sys' = (mthreads sys)(t := MFailed k f p Absent)"
    "map_of (metadata_entries (mcache sys')) (metadata_key k f) = None"
    "metadata_generation (mcache sys') = metadata_generation (mcache sys)"
    "next_promise (mcache sys') = next_promise (mcache sys)"
  using that [OF failed [where answers = answers and a = Absent, OF assms]]
  by (simp add: metadata_erase_def delete_conv')

lemma invalidate_run:
  assumes "at_rest (mthreads s t)"
  obtains s' where "meta_step answers s s'" "mthreads s' = mthreads s"
    "metadata_generation (mcache s') = metadata_generation (mcache s)" "next_promise (mcache s') = next_promise (mcache s)"
    "map_of (metadata_entries (mcache s')) (metadata_key k f) = None"
proof -
  have "starts_with (metadata_key k f) (metadata_prefix k)"
    using starts_with_append [of "metadata_prefix k" f] by (simp add: metadata_key_def metadata_prefix_def identity_prefix_def)
  then have "map_of (metadata_entries (invalidate_prefix k (mcache s))) (metadata_key k f) = None"
    by (auto simp: invalidate_prefix_def Let_def map_of_eq_None_iff)
  with that [OF invalidated [OF assms, of answers k]] show thesis by simp
qed

lemma late_failure_doubles_fetch:
  "\<exists>sys st st'. meta_reachable (\<lambda>k st a. a = Absent) sys \<and> mthreads sys 2 = MFetching k f (Some 2) st \<and>
     mthreads sys 3 = MFetching k f (Some 3) st'"
proof -
  let ?answers = "\<lambda>k st a. a = Absent"
  obtain s where s: "meta_reachable ?answers s" "mthreads s = (\<lambda>_. MIdle)(1 := MFetching k f (Some 1) 1)"
    "metadata_generation (mcache s) = 7" "next_promise (mcache s) = 1" by (rule one_fetch [of ?answers k f])
  have "at_rest (mthreads s 2)" using s(2) by (simp add: at_rest_def)
  then obtain s1 where s1: "meta_step ?answers s s1" "mthreads s1 = mthreads s" "metadata_generation (mcache s1) = 7"
    "next_promise (mcache s1) = 1" "map_of (metadata_entries (mcache s1)) (metadata_key k f) = None"
    using invalidate_run [of s 2 ?answers k f] s(3,4) by metis
  have "at_rest (mthreads s1 2)" using s(2) s1(2) by (simp add: at_rest_def)
  with s1(3-5) obtain s2 where s2: "meta_step ?answers s1 s2"
    "mthreads s2 = (mthreads s1)(2 := MFetching k f (Some (Suc 1)) (mclock s1))"
    "metadata_generation (mcache s2) = 7" "next_promise (mcache s2) = Suc 1"
    using fetch_run [of s1 2 k f ?answers] by (metis zero_neq_numeral)
  have "mthreads s2 1 = MFetching k f (Some 1) 1" using s(2) s1(2) s2(2) by simp
  then obtain s3 where s3: "meta_step ?answers s2 s3" "mthreads s3 = (mthreads s2)(1 := MFailed k f 1 Absent)"
    "map_of (metadata_entries (mcache s3)) (metadata_key k f) = None" "metadata_generation (mcache s3) = 7"
    "next_promise (mcache s3) = Suc 1"
    using late_failure_unpublishes [of s2 1 k f 1 1 ?answers] s2(3,4) by metis
  have "at_rest (mthreads s3 3)" using s(2) s1(2) s2(2) s3(2) by (simp add: at_rest_def)
  with s3(3-5) obtain s4 where s4: "meta_step ?answers s3 s4"
    "mthreads s4 = (mthreads s3)(3 := MFetching k f (Some (Suc (Suc 1))) (mclock s3))"
    using fetch_run [of s3 3 k f ?answers] by (metis zero_neq_numeral)
  have "meta_reachable ?answers s4" using s(1) s1(1) s2(1) s3(1) s4(1) by (meson onward)
  with s2(2) s3(2) s4(2) show ?thesis by (intro exI [of _ s4]) (simp add: numeral_2_eq_2 numeral_3_eq_3)
qed

end
