(* ===== verification/Extension.thy ===== *)
theory Extension
  imports VfsFunctions Secret
begin

text \<open>
  The entry point, \<open>src/gdrive_extension.cpp\<close>: what \<open>LoadInternal\<close> registers with DuckDB, in its order, with
  \<open>RegisterGDriveSecrets\<close>, \<open>RegisterGDriveStats\<close> and \<open>RegisterVfsFunctions\<close>. What the registered functions do is in
  the theories of their sources; here are their names, and the settings with their defaults, on
  which the filesystem depends. The last section says what the defaults mean for what is removed.
\<close>

section \<open>Registrations\<close>

datatype setting_value = Boolean bool | Varchar string | Ubigint nat | Bigint int

datatype sql_type = SqlBoolean | SqlVarchar | SqlBlob | SqlBigint

text \<open>The last argument of a scalar function says whether a function of that name is left in place.\<close>

datatype registration =
    Setting string setting_value
  | Scalar string "sql_type list" sql_type bool
  | Table string
  | File_System
  | Secret_Type string string
  | Secret_Function string string "string list"

definition gdrive_version :: string where "gdrive_version = ''2026.10.18''"

definition secret_registrations :: "registration list" where
  "secret_registrations = Secret_Type ''gdrive'' default_provider #
     map (\<lambda>p. Secret_Function ''gdrive'' p (named_parameters p))
       [''config'', ''service_account'', ''credential_chain'', ''authorization_code'']"

definition stats_registrations :: "registration list" where
  "stats_registrations = [Table ''gdrive_reset_stats'', Table ''gdrive_stats'']"

definition vfs_registrations :: "registration list" where
  "vfs_registrations =
     [Scalar ''remove_file'' [SqlVarchar] SqlBoolean True,
      Scalar ''move_file'' [SqlVarchar, SqlVarchar] SqlBoolean True,
      Scalar ''write_blob'' [SqlVarchar, SqlBlob] SqlBigint True,
      Scalar ''file_size'' [SqlVarchar] SqlBigint True]"

definition filesystem_settings :: "(string \<times> setting_value) list" where
  "filesystem_settings =
     [(''gdrive_permanent_delete'', Boolean False),
      (''gdrive_adc_file'', Varchar []),
      (''gdrive_docs_export_mime'', Varchar ''text/plain''),
      (''gdrive_immutable_prefixes'', Varchar []),
      (''gdrive_upload_chunk_bytes'', Ubigint (16 * 1024 * 1024)),
      (''gdrive_block_size_bytes'', Ubigint (16 * 1024 * 1024)),
      (''gdrive_block_cache_bytes'', Ubigint (256 * 1024 * 1024)),
      (''gdrive_path_cache_entries'', Ubigint 4096),
      (''gdrive_debug_token_max_age_seconds'', Bigint 0)]"

text \<open>\<open>wasm\<close> is a build for Emscripten, which has no telemetry and so no switch for it.\<close>

definition load_internal :: "bool \<Rightarrow> registration list" where
  "load_internal wasm =
     (if wasm then [] else [Setting ''gdrive_telemetry_enabled'' (Boolean True)]) @
     [Scalar ''gdrive_version'' [] SqlVarchar False, File_System] @
     map (\<lambda>(n, v). Setting n v) filesystem_settings @
     secret_registrations @ stats_registrations @ vfs_registrations"

section \<open>Settings of a loaded database\<close>

fun settings_of :: "registration list \<Rightarrow> (string \<times> setting_value) list" where
  "settings_of [] = []"
| "settings_of (Setting n v # rs) = (n, v) # settings_of rs"
| "settings_of (r # rs) = settings_of rs"

text \<open>
  What DuckDB documents of a setting: its value is the one that was \<open>SET\<close>, of the registered type, or else the
  registered default. \<open>overrides\<close> holds what was set.
\<close>

definition current_value :: "bool \<Rightarrow> (string \<Rightarrow> setting_value option) \<Rightarrow> string \<Rightarrow> setting_value option" where
  "current_value wasm overrides n =
     (case overrides n of Some v \<Rightarrow> Some v | None \<Rightarrow> map_of (settings_of (load_internal wasm)) n)"

definition loaded_settings :: "bool \<Rightarrow> (string \<Rightarrow> setting_value option) \<Rightarrow> 'w fs_env \<Rightarrow> bool" where
  "loaded_settings wasm overrides fe \<longleftrightarrow>
     (\<forall>n b. current_value wasm overrides n = Some (Boolean b) \<longrightarrow> bool_settings fe n = Some b) \<and>
     (\<forall>n k. current_value wasm overrides n = Some (Ubigint k) \<longrightarrow> ubigint_settings fe n = Some k) \<and>
     (\<forall>n t. current_value wasm overrides n = Some (Varchar t) \<longrightarrow> string_settings fe n = Some t)"

lemma settings_of_append [simp]: "settings_of (rs @ rs') = settings_of rs @ settings_of rs'"
  by (induction rs rule: settings_of.induct) simp_all

lemma settings_of_map [simp]: "settings_of (map (\<lambda>(n, v). Setting n v) xs) = xs"
  by (induction xs) auto

lemma loaded_names: "settings_of (load_internal wasm) =
    (if wasm then [] else [(''gdrive_telemetry_enabled'', Boolean True)]) @ filesystem_settings"
  by (simp add: load_internal_def secret_registrations_def stats_registrations_def vfs_registrations_def)

lemma default_settings:
  assumes "loaded_settings wasm overrides fe" "overrides n = None"
  shows "map_of (settings_of (load_internal wasm)) n = Some (Boolean b) \<Longrightarrow> get_bool_setting fe n b' = b"
    and "map_of (settings_of (load_internal wasm)) n = Some (Ubigint k) \<Longrightarrow> get_ubigint_setting fe n k' = k"
    and "map_of (settings_of (load_internal wasm)) n = Some (Varchar t) \<Longrightarrow> get_string_setting fe n t' = t"
proof -
  have "current_value wasm overrides n = map_of (settings_of (load_internal wasm)) n"
    by (simp add: current_value_def assms(2))
  with assms(1) show "map_of (settings_of (load_internal wasm)) n = Some (Boolean b) \<Longrightarrow> get_bool_setting fe n b' = b"
    "map_of (settings_of (load_internal wasm)) n = Some (Ubigint k) \<Longrightarrow> get_ubigint_setting fe n k' = k"
    "map_of (settings_of (load_internal wasm)) n = Some (Varchar t) \<Longrightarrow> get_string_setting fe n t' = t"
    by (simp_all add: loaded_settings_def get_bool_setting_def get_ubigint_setting_def get_string_setting_def)
qed

text \<open>
  Wherever the filesystem reads a setting that was not set, the fallback in the code at that place is the
  registered default, so the two never disagree.
\<close>

lemma unset_settings:
  assumes "loaded_settings wasm overrides fe"
  shows "overrides ''gdrive_permanent_delete'' = None \<Longrightarrow> get_bool_setting fe ''gdrive_permanent_delete'' b = False"
    and "overrides ''gdrive_upload_chunk_bytes'' = None \<Longrightarrow> get_ubigint_setting fe ''gdrive_upload_chunk_bytes'' k = 16777216"
    and "overrides ''gdrive_block_size_bytes'' = None \<Longrightarrow> get_ubigint_setting fe ''gdrive_block_size_bytes'' k = 16777216"
    and "overrides ''gdrive_block_cache_bytes'' = None \<Longrightarrow> get_ubigint_setting fe ''gdrive_block_cache_bytes'' k = 268435456"
    and "overrides ''gdrive_path_cache_entries'' = None \<Longrightarrow> get_ubigint_setting fe ''gdrive_path_cache_entries'' k = 4096"
    and "overrides ''gdrive_docs_export_mime'' = None \<Longrightarrow> get_string_setting fe ''gdrive_docs_export_mime'' t = ''text/plain''"
    and "overrides ''gdrive_immutable_prefixes'' = None \<Longrightarrow> get_string_setting fe ''gdrive_immutable_prefixes'' t = []"
  by (rule default_settings [OF assms]; simp add: loaded_names filesystem_settings_def)+

section \<open>What a removal sends\<close>

definition sends_only :: "(http_request \<Rightarrow> bool) \<Rightarrow> 'w fs_state \<Rightarrow> 'w fs_state \<Rightarrow> bool" where
  "sends_only P s s' \<longleftrightarrow> (\<exists>rqs. sent (world s') = sent (world s) @ rqs \<and> list_all P rqs)"

abbreviation asks_only :: "(http_request \<Rightarrow> bool) \<Rightarrow> ('a, 'w) fs \<Rightarrow> bool" where
  "asks_only P \<equiv> obeys (sends_only P)"

interpretation sending: frame "sends_only P"
  by unfold_locales (fastforce simp: sends_only_def)+

named_theorems asks_intros \<open>operations that send only requests of a kind\<close>

abbreviation recoverable :: "http_request \<Rightarrow> bool" where
  "recoverable rq \<equiv> rq_method rq \<noteq> DELETE"

lemmas asks_bind [asks_intros] = sending.obeys_bind

lemma asks_quiet: "quiet f \<Longrightarrow> asks_only recoverable f"
  by (rule obeysI) (fastforce simp: sends_only_def reads_only_def only_reads_def list_all_iff dest: quietD)

lemma asks_checked:
  assumes "\<And>w r w'. m w = (r, w') \<Longrightarrow> \<exists>rqs. sent w' = sent w @ rqs \<and> list_all P rqs"
  shows "asks_only P (checked m ctx)"
  using assms by (fastforce intro!: obeysI simp: sends_only_def checked_Some)

lemma asks_execute:
  assumes "c_method c \<noteq> DELETE"
  shows "asks_only recoverable (checked (execute_with_retry env c) ctx)"
proof (rule asks_checked)
  fix w r w' assume "execute_with_retry env c w = (r, w')"
  from execute_with_retry_sent [OF this] assms
  show "\<exists>rqs. sent w' = sent w @ rqs \<and> list_all recoverable rqs"
    by (fastforce simp: same_request_def list_all_iff)
qed

lemma asks_trash [asks_intros]: "asks_only recoverable (checked (delete_file client fid False) ctx)"
  unfolding delete_file_def by (simp add: asks_execute)

lemma asks_move [asks_intros]: "asks_only recoverable (checked (move client fid pid nm old) ctx)"
  unfolding move_def by (simp add: asks_execute)

lemma quiet_get_auth_context [quiet_intros]: "quiet (get_auth_context fe path)"
  unfolding get_auth_context_def by (rule quiet_io) (auto split: prod.splits)

lemma quiet_parsed [quiet_intros]: "quiet (parsed_uri path)" "quiet (require_opener fe path)"
  unfolding parsed_uri_def require_opener_def by (auto intro: quiet_intros split: sum.splits)

lemmas recoverable_intros = quiet_ret [THEN asks_quiet] quiet_list [THEN asks_quiet] quiet_resolve [THEN asks_quiet]
  quiet_resolve_parent [THEN asks_quiet] quiet_invalidate [THEN asks_quiet] quiet_get_auth_context [THEN asks_quiet]
  quiet_parsed [THEN asks_quiet]

lemma asks_removal [asks_intros]:
  "asks_only recoverable (mutate_remove_file fe client auth uri False)"
  "asks_only recoverable (mutate_remove_directory fe client auth uri False)"
  unfolding mutate_remove_file_def mutate_remove_directory_def by (auto intro!: asks_intros recoverable_intros)

lemma asks_move_file [asks_intros]: "asks_only recoverable (mutate_move_file fe client auth source target False)"
  unfolding mutate_move_file_def Let_def by (auto intro!: asks_intros recoverable_intros)

text \<open>
  C16. Unless \<open>gdrive_permanent_delete\<close> was set, nothing the filesystem removes is destroyed: of the requests that
  removing a file or a folder and moving over a file send, none is a deletion, whatever fails on the way, so
  the objects stay recoverable from the trash.
\<close>

theorem removal_is_recoverable:
  assumes "loaded_settings wasm overrides fe" and "overrides ''gdrive_permanent_delete'' = None"
    and "remove_file fe path s = Some (r, s') \<or> remove_directory fe path s = Some (r, s') \<or>
      move_file fe path target s = Some (r, s')"
  shows "\<exists>rqs. sent (world s') = sent (world s) @ rqs \<and> (\<forall>rq\<in>set rqs. rq_method rq \<noteq> DELETE)"
proof -
  have off: "permanent_delete fe = False"
    using unset_settings(1) [OF assms(1,2)] by (simp add: permanent_delete_def)
  have "asks_only recoverable (remove_file fe path)" "asks_only recoverable (remove_directory fe path)"
    "asks_only recoverable (move_file fe path target)"
    unfolding remove_file_def remove_directory_def move_file_def with_path_def off
    by (auto intro!: asks_intros recoverable_intros)
  with assms(3) have "sends_only recoverable s s'" by (auto dest: obeysD)
  then show ?thesis by (simp add: sends_only_def list_all_iff)
qed

text \<open>A database as it is loaded, over the server with the two files of \<open>Mutate\<close>.\<close>

definition loaded_fs_env :: "unit fs_env" where
  "loaded_fs_env = (plain_fs_env two_files_env)
     \<lparr>bool_settings := (\<lambda>n. case map_of (settings_of (load_internal False)) n of Some (Boolean b) \<Rightarrow> Some b | _ \<Rightarrow> None),
      ubigint_settings := (\<lambda>n. case map_of (settings_of (load_internal False)) n of Some (Ubigint k) \<Rightarrow> Some k | _ \<Rightarrow> None),
      string_settings := (\<lambda>n. case map_of (settings_of (load_internal False)) n of Some (Varchar t) \<Rightarrow> Some t | _ \<Rightarrow> None)\<rparr>"

theorem removal_is_recoverable_witness:
  "\<exists>s' rqs. move_file loaded_fs_env ''gdrive://d/a.csv'' ''gdrive://d/b.csv'' warm_state = Some (Inr (), s') \<and>
     sent (world s') = sent (world warm_state) @ rqs \<and> (\<forall>rq\<in>set rqs. rq_method rq \<noteq> DELETE)"
proof -
  have settings: "loaded_settings False (\<lambda>_. None) loaded_fs_env"
    by (simp add: loaded_settings_def current_value_def loaded_fs_env_def)
  have off: "permanent_delete loaded_fs_env = False"
    using unset_settings(1) [OF settings] by (simp add: permanent_delete_def)
  have uris: "parse_gdrive_uri ''gdrive://d/a.csv'' = Inr (path_uri [''d'', ''a.csv''])"
    "parse_gdrive_uri ''gdrive://d/b.csv'' = Inr (path_uri [''d'', ''b.csv''])" by code_simp+
  have client: "create_client loaded_fs_env my_auth = two_files_env"
    by (simp add: create_client_def loaded_fs_env_def plain_fs_env_def my_auth_def two_files_env_def table_env_def lost_env_def)
  have auth: "get_auth_context loaded_fs_env p s = Some (Inr my_auth, s)" for p and s :: "unit fs_state"
    by (simp add: get_auth_context_def fs_io_def loaded_fs_env_def plain_fs_env_def my_auth_def)
  obtain r s' where r: "mutate_move_file loaded_fs_env two_files_env my_auth (path_uri [''d'', ''a.csv''])
      (path_uri [''d'', ''b.csv'']) False warm_state = Some (r, s')" "\<not> isl r"
    using overwrite_run [where permanent = False and fe = loaded_fs_env] by blast
  then have m: "move_file loaded_fs_env ''gdrive://d/a.csv'' ''gdrive://d/b.csv'' warm_state = Some (Inr (), s')"
    by (cases r) (simp_all add: move_file_def fs_bind_def require_opener_def fs_guard_def parsed_uri_def uris auth client off,
        simp add: loaded_fs_env_def plain_fs_env_def)
  then show ?thesis
    using removal_is_recoverable [OF settings, of "''gdrive://d/a.csv''" warm_state "Inr ()" s' "''gdrive://d/b.csv''"] by auto
qed

end
