(* ===== verification/Spec2Isabelle.thy ===== *)
theory Spec2Isabelle
  imports Uri Glob DriveCalls BlockCache Listing AuthSession VfsFunctions Stats Trace MetadataThreads Extension
begin

text \<open>
  \<^bold>\<open>A verification library for the DuckDB \<open>gdrive://\<close> filesystem.\<close>

  The program is a DuckDB extension that makes Google Drive a filesystem. A path \<open>gdrive://a/b.csv\<close> is
  parsed (\<open>gdrive_uri.cpp\<close>), matched to a secret of DuckDB and from there to an auth context with a source of
  access tokens (\<open>gdrive_auth.cpp\<close>), resolved segment by segment to a Drive object with the help of a
  path cache (\<open>gdrive_filesystem.cpp\<close>, \<open>gdrive_path_cache.cpp\<close>), and then read through a block cache shared by all
  threads (\<open>gdrive_blockcache.cpp\<close>), written through a chunked upload (\<open>gdrive_upload_plan.cpp\<close>,
  \<open>gdrive_upload.cpp\<close>, \<open>gdrive_file_handle.cpp\<close>), listed, globbed, moved or removed (\<open>gdrive_mutate.cpp\<close>). Everything
  that reaches Drive goes through one client with a retry loop (\<open>gdrive_client.cpp\<close>) and one
  classification of errors (\<open>gdrive_errors.cpp\<close>).

  \<^bold>\<open>Theories and sources.\<close>
  \<^item> \<open>Prelude\<close>: strings, decimal numbers, unsigned 64-bit arithmetic, searching and splitting. \<open>Lru\<close>: the
    contract of a cache that drops its oldest entry, a locale that both caches interpret. \<open>Json\<close>: JSON values.
  \<^item> \<open>Uri\<close> (\<open>gdrive_uri.cpp\<close>), \<open>Glob\<close> (\<open>gdrive_glob.cpp\<close>), \<open>Errors\<close> (\<open>gdrive_errors.cpp\<close>), \<open>TokenPolicy\<close>
    (\<open>gdrive_token_policy.cpp\<close>), \<open>UploadPlan\<close> (\<open>gdrive_upload_plan.cpp\<close>): the pure parts.
  \<^item> \<open>DriveApi\<close>, \<open>Client\<close>, \<open>DriveCalls\<close> (\<open>gdrive_client.cpp\<close>): encodings and parsers, the retry loop, the calls.
  \<^item> \<open>BlockCache\<close>, \<open>PathCache\<close>: the two caches, operation by operation; the threads around the block cache are
    the step relation \<open>cache_step\<close>, those that share the metadata of files are \<open>meta_step\<close> of \<open>MetadataThreads\<close>.
  \<^item> \<open>Resolver\<close>, \<open>Frames\<close>, \<open>ReadPath\<close>, \<open>FileHandle\<close>, \<open>Mutate\<close>, \<open>OpenFile\<close>, \<open>Listing\<close>: \<open>gdrive_filesystem.cpp\<close> with
    \<open>gdrive_file_handle.cpp\<close>, \<open>gdrive_upload.cpp\<close>, \<open>gdrive_mutate.cpp\<close> and \<open>gdrive_export.cpp\<close>.
  \<^item> \<open>ServiceAccount\<close> (\<open>gdrive_service_account_pure.cpp\<close>), \<open>Adc\<close> (\<open>gdrive_adc.cpp\<close>, \<open>gdrive_credential_file.hpp\<close>,
    \<open>gdrive_oauth_params.cpp\<close>), \<open>Secret\<close> (\<open>gdrive_secret.cpp\<close>), \<open>Identity\<close> (\<open>gdrive_identity.cpp\<close> and the
    fingerprint of \<open>gdrive_auth.cpp\<close>), \<open>Endpoint\<close> (the grants of \<open>gdrive_auth.cpp\<close> and
    \<open>gdrive_service_account_duckdb.cpp\<close>), \<open>TokenSource\<close> (its token sources), \<open>Auth\<close> (\<open>GetAuthContext\<close> and the providers).
  \<^item> \<open>AuthSession\<close>: the filesystem and its clients on top of \<open>Auth\<close> and \<open>TokenSource\<close>. \<open>VfsFunctions\<close>
    (\<open>gdrive_vfs_functions.cpp\<close>): the SQL functions over a virtual filesystem, instantiated with this one.
    \<open>Stats\<close> (\<open>gdrive_stats.cpp\<close>): the counters and the rows that report them. \<open>Trace\<close> (\<open>gdrive_trace.cpp\<close>): the
    spans of the requests, the records written for them and the threads that write (\<open>trace_step\<close>).
    \<open>Extension\<close> (\<open>gdrive_extension.cpp\<close>): the registrations and the defaults of the settings.

  \<^bold>\<open>State and operations.\<close> A class is a record and a method a function on it that keeps its name in lower
  case with underscores. \<open>'w\<close> is whatever lies behind the network, the clock, the files and the secret manager; a
  client call has the type \<open>('a, 'w) io\<close>, a step on the record \<open>world\<close> (counters, the requests sent, the pauses made and
  the \<open>'w\<close>); an operation of the filesystem has the type \<open>('a, 'w) fs\<close>, a step on \<open>fs_state\<close> (world, path
  cache, block cache); one on a handle also takes and returns the handle; an operation of a token source is a step on
  \<open>token_world\<close>. An exception is a value of \<open>exn\<close> on the left of a sum, with its whole message. Where the
  code can run forever the result is an option and \<open>None\<close> says that it does not return:
  \<open>partial_function\<close> for the paging loops and the upload of a chunk, whose return is proved from the bounds the
  code has (five attempts per call, \<open>max_chunk_attempts\<close> per chunk) or from what Drive documents (a listing has
  finitely many pages). Sizes and times are words where they can wrap (\<open>int64\<close>, \<open>u64_add\<close>) and \<open>nat\<close> or
  \<open>int\<close> where the code bounds them. Fuel occurs only in specifications: the depth of \<open>Listing.subtree\<close>, which a
  rank of the folders bounds.

  \<^bold>\<open>Parameters.\<close> Not under \<open>src/\<close>, and so arguments of the definitions: the HTTP library (\<open>exchange\<close>,
  \<open>post_form\<close>), the JSON library (\<open>parse_json\<close>, \<open>serialize_json\<close>, \<open>parse_doc\<close>), SHA-256 and RSA (\<open>hashing\<close>, \<open>sign_rs256\<close>),
  the browser flow and the write-back of its tokens, DuckDB's secret lookup, settings, query number and
  virtual filesystem, the clock, the environment and the files of the host. Hypotheses about them are named predicates:
  \<open>serves\<close> and \<open>lists\<close> (Drive answers listings from a fixed tree of objects), \<open>unambiguous\<close> (no name
  twice in a folder), \<open>serves_metadata\<close>, \<open>hashes\<close> (no collision between the two texts at hand). Each property that
  uses one has a witness on a concrete table of replies.

  \<^bold>\<open>What the lemmas show.\<close> Requests: a changing request is never repeated blindly, a call makes at most two token
  requests and is counted exactly, a listing is all of its pages. Caches: both refine a map with a least-recently-used
  bound; a block is fetched once however many threads ask, and no one is left waiting; metadata is of the query
  that asks for it; nothing cached for one account is addressed under another. Resolution: a path resolves to the object its names lead to, opening,
  existence and glob agree with the tree of objects. Bytes: a read returns the bytes of the file at its offset, an
  open and reads to the end give the whole file, the chunks of an upload are the bytes written, a settled handle never touches Drive again. Changes: a move destroys nothing
  before the moved object has arrived, and with the default settings no removal destroys anything. Credentials: a token is only ever handed out under the credential it was
  made for, a rejected one is replaced, a failed mint is left alone for its back-off, one mint serves all threads; no
  message or error shows a secret. Interfaces are locales, each interpreted on the model: the cache contract
  of \<open>Lru\<close>, which the block cache and the path cache interpret; \<open>frame\<close> and \<open>resolver_frame\<close> of \<open>Frames\<close>, what the
  operations leave alone, interpreted for the requests that reach Drive and for the cached metadata and blocks; and
  \<open>token_provider\<close> of \<open>AuthSession\<close>.

  \<^bold>\<open>Not modelled.\<close> Telemetry and the load banner, which are calls into other libraries, the vectorised executors
  around the SQL functions, the thread and connection caches of the HTTP client, and the OpenSSL calls of \<open>SignRs256\<close>:
  glue or input and output without logic of their own. \<open>GetAuthContext\<close> has an error for a secret that is
  not of the key-value kind, which the only type registered never is. The path cache and the token caches are
  stepped operation by operation, each of which the code runs under one lock; the filesystem operations that combine them
  are modelled as one thread runs them.
\<close>

end
